(* ===== verification/Kernel_Prelude.thy ===== *)
theory Kernel_Prelude
  imports Main "HOL-Library.Word"
begin

text \<open>
  What the components of the development share: the kernel's fixed-width integer types
  (\<open>include/linux/types.h\<close>), its error numbers, the memory faults that the models make
  explicit, and generic lemmas on lists and words.

  Conventions used by every component.
  \<^item> A function that returns \<open>0\<close> or \<open>-E...\<close> in C returns \<open>errno option\<close> here: \<open>None\<close> is \<open>0\<close>.
  \<^item> A function that C would let read outside an object returns \<open>fault + 'a\<close>; the fault is a
    value, so that the absence of faults is a theorem and not an assumption.
\<close>

unbundle bit_operations_syntax

named_theorems kernel_simps \<open>equations that the component proofs rewrite with\<close>

type_synonym u8 = "8 word"
type_synonym u16 = "16 word"
type_synonym u32 = "32 word"
type_synonym u64 = "64 word"

datatype errno =
    EPERM | ENOENT | EINTR | EIO | ENXIO | EAGAIN | ENOMEM | EACCES | EFAULT | EBUSY | EINVAL
  | ENOSPC | EDEADLK | ENOLCK | ENOSYS | ENODATA | EOPNOTSUPP | EOVERFLOW | ETIME | ERANGE
  | E2BIG | EFBIG | EIDRM | ENOMSG | ESRCH | ECHILD | EROFS | EEXIST | ENOTDIR | EISDIR | ELOOP | ETXTBSY | EBADF

datatype fault =
    Pc_oob      \<comment> \<open>instruction fetch outside the program\<close>
  | Mem_oob     \<comment> \<open>index outside a fixed-size array\<close>
  | Mem_uninit  \<comment> \<open>read of a cell that was never written\<close>
  | Packet_oob  \<comment> \<open>read outside the bytes of a buffer\<close>

text \<open>Bounds of the fixed-width types.\<close>

lemma unat_u8_less: "unat (w :: u8) < 2 ^ 8"
  using unsigned_less [of w] by simp

lemma unat_u16_less: "unat (w :: u16) < 2 ^ 16"
  using unsigned_less [of w] by simp

lemma unat_u32_less: "unat (w :: u32) < 2 ^ 32"
  using unsigned_less [of w] by simp

lemma unat_u64_less: "unat (w :: u64) < 2 ^ 64"
  using unsigned_less [of w] by simp

lemmas unat_less_width = unat_u8_less unat_u16_less unat_u32_less unat_u64_less

lemma unat_ucast_up:
  "unat (ucast (w :: 'a::len word) :: 'b::len word) = unat w" if "LENGTH('a) \<le> LENGTH('b)"
proof -
  have "unat w < 2 ^ LENGTH('a)" by (rule unsigned_less)
  also have "\<dots> \<le> 2 ^ LENGTH('b)" using that by (simp add: power_increasing)
  finally show ?thesis by (simp add: unsigned_ucast_eq take_bit_nat_eq_self)
qed

text \<open>Sequencing of computations that may fault.\<close>

definition bind_fault :: "fault + 'a \<Rightarrow> ('a \<Rightarrow> fault + 'b) \<Rightarrow> fault + 'b" where
  "bind_fault r f = (case r of Inl e \<Rightarrow> Inl e | Inr a \<Rightarrow> f a)"

lemma bind_fault_simps [simp]:
  "bind_fault (Inl e) f = Inl e"
  "bind_fault (Inr a) f = f a"
  by (simp_all add: bind_fault_def)

lemma bind_fault_eq_Inr:
  "bind_fault r f = Inr b \<longleftrightarrow> (\<exists>a. r = Inr a \<and> f a = Inr b)"
  by (cases r) auto

text \<open>A slice of a buffer, as \<open>memcpy\<close> and pointer reads take it.\<close>

definition mem_slice :: "'a list \<Rightarrow> int \<Rightarrow> int \<Rightarrow> fault + 'a list" where
  "mem_slice xs off n =
     (if 0 \<le> off \<and> 0 \<le> n \<and> off + n \<le> int (length xs)
      then Inr (take (nat n) (drop (nat off) xs)) else Inl Packet_oob)"

lemma mem_slice_Inr_iff:
  "(\<exists>ys. mem_slice xs off n = Inr ys) \<longleftrightarrow> 0 \<le> off \<and> 0 \<le> n \<and> off + n \<le> int (length xs)"
  by (simp add: mem_slice_def)

lemma mem_slice_length: "mem_slice xs off n = Inr ys \<Longrightarrow> length ys = nat n"
  by (auto simp: mem_slice_def split: if_splits)

lemma mem_slice_nat:
  "mem_slice xs (int o1) (int n) = (if o1 + n \<le> length xs then Inr (take n (drop o1 xs)) else Inl Packet_oob)"
  by (simp add: mem_slice_def flip: of_nat_add)

lemma sint_u32_small: "sint (w :: u32) = int (unat w)" if "unat w < 2 ^ 31"
proof -
  have "int (unat w) < int (2 ^ 31)" using that by (simp only: of_nat_less_iff)
  then have "uint w < 2 ^ 31" by simp
  moreover have "- (2 ^ 31) \<le> uint w" by (rule order_trans [OF _ uint_ge_0]) simp
  ultimately have "signed_take_bit 31 (uint w) = uint w" by (intro signed_take_bit_int_eq_self)
  then show ?thesis by (simp add: sint_uint)
qed

lemma int_and_not_3: "(x::int) AND NOT 3 = x div 4 * 4"
proof -
  have "x AND NOT 3 = x AND NOT (mask 2)" by (simp add: mask_eq_exp_minus_1)
  also have "\<dots> = push_bit 2 (drop_bit 2 x)"
  proof (rule bit_eqI)
    fix n :: nat
    have "2 \<le> n \<Longrightarrow> 2 + (n - 2) = n" by simp
    then show "bit (x AND NOT (mask 2)) n = bit (push_bit 2 (drop_bit 2 x)) n"
      by (cases "2 \<le> n")
        (simp_all add: bit_push_bit_iff_int bit_drop_bit_eq bit_and_iff bit_not_iff bit_mask_iff del: add_2_eq_Suc)
  qed
  also have "\<dots> = x div 4 * 4" by (simp add: push_bit_eq_mult drop_bit_eq_div)
  finally show ?thesis .
qed

lemma Suc_unat_minus_one: "w \<noteq> 0 \<Longrightarrow> Suc (unat (w - 1)) = unat w"
  by (simp add: unat_minus_one Suc_diff_Suc unat_gt_0)

text \<open>Counting the elements of an array that satisfy a predicate, under an update by index.\<close>

definition count_if :: "('a \<Rightarrow> bool) \<Rightarrow> 'a list \<Rightarrow> nat" where
  "count_if P xs = length (filter P xs)"

lemma count_if_simps [simp]:
  "count_if P [] = 0" "count_if P (x # xs) = of_bool (P x) + count_if P xs"
  "count_if P (xs @ ys) = count_if P xs + count_if P ys"
  by (simp_all add: count_if_def)

lemma count_if_le: "count_if P xs \<le> length xs"
  by (simp add: count_if_def)

lemma count_if_update:
  assumes "i < length xs"
  shows "count_if P (xs[i := v]) + of_bool (P (xs ! i)) = count_if P xs + of_bool (P v)"
proof -
  have "count_if P xs = count_if P (take i xs @ xs ! i # drop (Suc i) xs)"
    using assms by (simp add: id_take_nth_drop [symmetric])
  then show ?thesis using assms by (simp add: upd_conv_take_nth_drop)
qed

lemma count_if_pos: "i < length xs \<Longrightarrow> P (xs ! i) \<Longrightarrow> 0 < count_if P xs"
  by (auto simp: count_if_def filter_empty_conv)

subsection \<open>Reachable states\<close>

text \<open>
  The states a labelled transition system reaches from its initial states, and the interface of an
  inductive invariant: a component proves \<open>init_inv\<close> and \<open>step_inv\<close> for its own step relation and
  obtains the invariant of every reachable state.
\<close>

inductive reachable :: "('s \<Rightarrow> bool) \<Rightarrow> ('s \<Rightarrow> 'l \<Rightarrow> 's \<Rightarrow> bool) \<Rightarrow> 's \<Rightarrow> bool"
  for init :: "'s \<Rightarrow> bool" and step :: "'s \<Rightarrow> 'l \<Rightarrow> 's \<Rightarrow> bool" where
  start: "init s \<Longrightarrow> reachable init step s"
| step: "reachable init step s \<Longrightarrow> step s l s' \<Longrightarrow> reachable init step s'"

locale invariant_of =
  fixes init :: "'s \<Rightarrow> bool" and step :: "'s \<Rightarrow> 'l \<Rightarrow> 's \<Rightarrow> bool" and inv :: "'s \<Rightarrow> bool"
  assumes init_inv: "init s \<Longrightarrow> inv s"
    and step_inv: "inv s \<Longrightarrow> step s l s' \<Longrightarrow> inv s'"
begin

lemma reachable_inv: "reachable init step s \<Longrightarrow> inv s"
  by (induction rule: reachable.induct) (auto intro: init_inv step_inv)

lemma reachable_step_inv: "reachable init step s \<Longrightarrow> step s l s' \<Longrightarrow> inv s \<and> inv s'"
  by (blast intro: reachable_inv reachable.step)

end

end
