(* ===== verification/Reciprocal_Div.thy ===== *)
theory Reciprocal_Div
  imports Kernel_Prelude
begin

text \<open>
  Division by a precomputed reciprocal, \<open>lib/reciprocal_div.c\<close> and
  \<open>include/linux/reciprocal_div.h\<close>: \<open>reciprocal_value\<close> computes
  \<open>((1LL << 32) + (k - 1)) / k\<close> in 64 bits and keeps the low 32 of them,
  \<open>reciprocal_divide\<close> multiplies in 64 bits and shifts. The socket filter rewrites
  divisions by a constant with it.
\<close>

definition reciprocal_value :: "u32 \<Rightarrow> u32" where
  "reciprocal_value k = (let val = (push_bit 32 1 :: u64) + ucast (k - 1) in ucast (val div ucast k))"

definition reciprocal_divide :: "u32 \<Rightarrow> u32 \<Rightarrow> u32" where
  "reciprocal_divide A R = ucast (drop_bit 32 (ucast A * ucast R :: u64))"

lemma unat_reciprocal_value:
  assumes "2 \<le> unat k"
  shows "unat (reciprocal_value k) = (2 ^ 32 + (unat k - 1)) div unat k"
proof -
  have k0: "k \<noteq> 0" using assms by auto
  have km1: "unat (k - 1) = unat k - 1"
    using k0 by (simp add: unat_minus_one)
  have kb: "unat k < 2 ^ 32" using unat_u32_less [of k] by simp
  have val: "unat ((push_bit 32 1 :: u64) + ucast (k - 1)) = 2 ^ 32 + (unat k - 1)"
    using kb km1 by (simp add: unat_word_ariths unat_ucast_up push_bit_eq_mult)
  have "unat (((push_bit 32 1 :: u64) + ucast (k - 1)) div ucast k) = (2 ^ 32 + (unat k - 1)) div unat k"
    by (simp only: unat_div val) (simp add: unat_ucast_up)
  moreover have "(2 ^ 32 + (unat k - 1)) div unat k < 2 ^ 32"
  proof -
    have "2 ^ 32 + (unat k - 1) < 2 ^ 32 * unat k"
      using assms kb by simp
    thus ?thesis by (simp add: div_less_iff_less_mult assms k0 word_neq_0_conv unat_gt_0)
  qed
  ultimately show ?thesis
    by (simp add: reciprocal_value_def unsigned_ucast_eq take_bit_nat_eq_self)
qed

lemma unat_reciprocal_divide:
  "unat (reciprocal_divide A R) = unat A * unat R div 2 ^ 32"
proof -
  have "unat A * unat R < 2 ^ 32 * 2 ^ 32"
    using unat_u32_less [of A] unat_u32_less [of R] by (intro mult_strict_mono) auto
  hence p: "unat (ucast A * ucast R :: u64) = unat A * unat R"
    by (simp add: unat_word_ariths unat_ucast_up)
  have "unat A * unat R div 2 ^ 32 < 2 ^ 32"
    using \<open>unat A * unat R < _\<close> by (simp add: div_less_iff_less_mult)
  thus ?thesis
    by (simp add: reciprocal_divide_def unsigned_ucast_eq drop_bit_eq_div unat_div p take_bit_nat_eq_self)
qed


text \<open>
  Rounding the reciprocal up makes it at most \<open>k - 1\<close> too large in units of \<open>1 / k\<close>.
  The arithmetic of the method, on natural numbers.
\<close>

lemma reciprocal_ceiling:
  fixes k N :: nat
  assumes "0 < k"
  defines "R \<equiv> (N + (k - 1)) div k"
  shows "N \<le> R * k" and "R * k \<le> N + (k - 1)"
proof -
  show "R * k \<le> N + (k - 1)" unfolding R_def by simp
  have "N + (k - 1) < (R + 1) * k"
    unfolding R_def using assms(1) by (metis Suc_eq_plus1 dividend_less_div_times mult_Suc mult.commute add.commute)
  thus "N \<le> R * k" using assms(1) by (simp add: algebra_simps)
qed

lemma reciprocal_quotient:
  fixes A k N R :: nat
  assumes k: "0 < k" and lo: "N \<le> R * k" and hi: "R * k \<le> N + (k - 1)" and AN: "A < N"
  shows "A div k \<le> A * R div N" and "A * R div N \<le> A div k + 1"
    and "A * (k - 1) < N \<Longrightarrow> A * R div N = A div k"
proof -
  define q where "q = A div k"
  have q1: "q * k \<le> A" and q2: "A < (q + 1) * k"
    using k dividend_less_div_times [of k A] by (simp_all add: q_def algebra_simps)
  have N0: "0 < N" using AN by simp
  have up: "A * R * k \<le> A * N + A * (k - 1)"
    using mult_le_mono2 [OF hi, of A] by (simp add: algebra_simps)
  have "q * N * k \<le> A * N" using mult_le_mono1 [OF q1, of N] by (simp add: algebra_simps)
  also have "\<dots> \<le> A * R * k" using mult_le_mono2 [OF lo, of A] by (simp add: algebra_simps)
  finally have "q * N \<le> A * R" using k by simp
  thus ge: "A div k \<le> A * R div N"
    using N0 by (simp add: q_def less_eq_div_iff_mult_less_eq)
  have A1: "A + 1 \<le> (q + 1) * k" using q2 by simp
  have "A * N + N \<le> (q + 1) * k * N" using mult_le_mono1 [OF A1, of N] by (simp add: algebra_simps)
  moreover have "A * (k - 1) < N * k"
    using AN k by (intro mult_strict_mono') auto
  ultimately have "A * R * k < (q + 2) * N * k" using up N0 by (simp add: algebra_simps)
  hence "A * R < (q + 2) * N" by simp
  hence "A * R div N < q + 2" using N0 by (simp add: div_less_iff_less_mult)
  thus "A * R div N \<le> A div k + 1" by (simp add: q_def)
  show "A * R div N = A div k" if small: "A * (k - 1) < N"
  proof -
    have "A * R * k < (q + 1) * N * k"
      using up \<open>A * N + N \<le> _\<close> small by (simp add: algebra_simps)
    hence "A * R < (q + 1) * N" by simp
    hence "A * R div N < q + 1" using N0 by (simp add: div_less_iff_less_mult)
    with ge show ?thesis by (simp add: q_def)
  qed
qed

lemma reciprocal_value_bounds:
  assumes "2 \<le> unat k"
  shows "2 ^ 32 \<le> unat (reciprocal_value k) * unat k"
    and "unat (reciprocal_value k) * unat k \<le> 2 ^ 32 + (unat k - 1)"
  using assms reciprocal_ceiling [of "unat k" "2 ^ 32"] by (simp_all only: unat_reciprocal_value)

text \<open>
  C8. For every divisor \<open>k\<close> of at least two and every dividend, dividing by the reciprocal
  gives the quotient or one more than it, and exactly the quotient as long as
  \<open>A * (k - 1)\<close> stays below \<open>2 ^ 32\<close>.
\<close>

theorem reciprocal_divide_quotient:
  assumes "2 \<le> unat k"
  shows "unat A div unat k \<le> unat (reciprocal_divide A (reciprocal_value k))
    \<and> unat (reciprocal_divide A (reciprocal_value k)) \<le> unat A div unat k + 1
    \<and> (unat A * (unat k - 1) < 2 ^ 32
       \<longrightarrow> reciprocal_divide A (reciprocal_value k) = A div k)"
proof -
  note b = reciprocal_value_bounds [OF assms] unat_u32_less [of A]
  have k: "0 < unat k" using assms by simp
  note q = reciprocal_quotient [OF k b]
  have "reciprocal_divide A (reciprocal_value k) = A div k" if "unat A * (unat k - 1) < 2 ^ 32"
    using q(3) [OF that] by (simp add: word_unat_eq_iff unat_reciprocal_divide unat_div)
  with q show ?thesis by (simp add: unat_reciprocal_divide)
qed

theorem reciprocal_divide_quotient_witness:
  "(2::nat) \<le> unat (7 :: u32) \<and> reciprocal_divide 100 (reciprocal_value 7) = 14"
  using reciprocal_divide_quotient [of 7 100] by simp

text \<open>
  Division by the constant one: the reciprocal \<open>2 ^ 32\<close> does not fit 32 bits, so
  \<open>reciprocal_value 1\<close> is \<open>0\<close> and every quotient by it is \<open>0\<close>, where the header promises
  \<open>A / B\<close>; and the quotient is one too large for some dividends of other divisors.
\<close>

lemma reciprocal_divide_defects:
  "reciprocal_divide A (reciprocal_value 1) = 0
   \<and> reciprocal_divide 0xfffffffe (reciprocal_value 3) = 0xfffffffe div 3 + 1"
  by (simp add: reciprocal_divide_def reciprocal_value_def)

end
