(* ===== verification/Sk_Buff.thy ===== *)
theory Sk_Buff
  imports Kernel_Prelude
begin

text \<open>
  Socket buffers as the packet filter reads them: the linear and paged data of a
  \<open>struct sk_buff\<close> (\<open>include/linux/skbuff.h\<close>), \<open>skb_copy_bits\<close> (\<open>net/core/skbuff.c\<close>),
  \<open>skb_header_pointer\<close>, the unaligned big-endian reads, and the search for a netlink
  attribute, \<open>nla_find\<close> (\<open>lib/nlattr.c\<close>, \<open>include/net/netlink.h\<close>).

  Pointers into the linear buffer are offsets from \<open>skb->data\<close>. A read outside the bytes
  between \<open>skb->head\<close> and \<open>skb->tail\<close> is the value \<open>Inl Packet_oob\<close>.
\<close>

subsection \<open>Data\<close>

text \<open>
  \<open>skb_linear\<close> holds the bytes from \<open>skb->data\<close> to \<open>skb->tail\<close>, \<open>skb_frags\<close> the bytes of
  each page fragment, \<open>skb_frag_list\<close> the chained buffers that \<open>skb_walk_frags\<close> visits.
\<close>

datatype skb_data = Skb_data
  (skb_len: u32) (skb_data_len: u32) (skb_linear: "u8 list")
  (skb_frags: "u8 list list") (skb_frag_list: "skb_data list")

record net_device =
  ifindex :: u32
  dev_type :: u16

record sk_buff =
  sb_data :: skb_data
  sb_headroom :: "u8 list"           \<comment> \<open>the bytes from \<open>skb->head\<close> to \<open>skb->data\<close>\<close>
  network_header :: int              \<comment> \<open>offset from \<open>skb->data\<close>\<close>
  mac_header :: int                  \<comment> \<open>offset from \<open>skb->data\<close>\<close>
  protocol :: "u8 \<times> u8"              \<comment> \<open>the two bytes of the \<open>__be16\<close>\<close>
  pkt_type :: "3 word"
  sb_dev :: "net_device option"
  sb_mark :: u32
  queue_mapping :: u16
  rxhash :: u32

abbreviation sb_len :: "sk_buff \<Rightarrow> u32" where
  "sb_len skb \<equiv> skb_len (sb_data skb)"

definition skb_is_nonlinear :: "sk_buff \<Rightarrow> bool" where
  "skb_is_nonlinear skb \<longleftrightarrow> skb_data_len (sb_data skb) \<noteq> 0"

definition skb_headlen :: "skb_data \<Rightarrow> u32" where
  "skb_headlen d = skb_len d - skb_data_len d"

subsection \<open>Copying bytes out of a buffer\<close>

text \<open>
  The state of the copy loops: finished with the bytes collected in \<open>to\<close>, or still at
  \<open>start\<close>, \<open>offset\<close> with \<open>len\<close> bytes to go.
\<close>

datatype copy_state = Copied "u8 list" | More int int int "u8 list"

text \<open>The loop over \<open>skb_shinfo(skb)->frags\<close>.\<close>

fun copy_frags :: "u8 list list \<Rightarrow> int \<Rightarrow> int \<Rightarrow> int \<Rightarrow> u8 list \<Rightarrow> fault + copy_state" where
  "copy_frags [] start offset len to = Inr (More start offset len to)"
| "copy_frags (f # fs) start offset len to =
     (let fend = start + int (length f); copy = fend - offset in
      if copy > 0 then
        (let copy = (if copy > len then len else copy) in
         bind_fault (mem_slice f (offset - start) copy) (\<lambda>bs.
           if len - copy = 0 then Inr (Copied (to @ bs))
           else copy_frags fs fend (offset + copy) (len - copy) (to @ bs)))
      else copy_frags fs fend offset len to)"

text \<open>
  \<open>Inr None\<close> is \<open>-EFAULT\<close>; \<open>Inr (Some bytes)\<close> is \<open>0\<close> with the bytes written to the
  destination. \<open>copy_frag_list\<close> is the loop over the chained buffers.
\<close>

fun skb_copy_bits :: "skb_data \<Rightarrow> int \<Rightarrow> int \<Rightarrow> fault + u8 list option"
and copy_frag_list :: "skb_data list \<Rightarrow> int \<Rightarrow> int \<Rightarrow> int \<Rightarrow> u8 list \<Rightarrow> fault + u8 list option"
where
  "skb_copy_bits (Skb_data slen sdlen lin frags flist) offset len =
     (let start = sint (slen - sdlen) in
      if offset > sint slen - len then Inr None
      else
        let copy = start - offset in
        bind_fault
          (if copy > 0 then
             (let copy = (if copy > len then len else copy) in
              bind_fault (mem_slice lin offset copy) (\<lambda>bs.
                if len - copy = 0 then Inr (Copied bs)
                else Inr (More start (offset + copy) (len - copy) bs)))
           else Inr (More start offset len []))
          (\<lambda>st. case st of
             Copied bs \<Rightarrow> Inr (Some bs)
           | More start offset len to \<Rightarrow>
               bind_fault (copy_frags frags start offset len to) (\<lambda>st. case st of
                 Copied bs \<Rightarrow> Inr (Some bs)
               | More start offset len to \<Rightarrow> copy_frag_list flist start offset len to)))"
| "copy_frag_list [] start offset len to = Inr (if len = 0 then Some to else None)"
| "copy_frag_list (d # ds) start offset len to =
     (let fend = start + sint (skb_len d); copy = fend - offset in
      if copy > 0 then
        (let copy = (if copy > len then len else copy) in
         bind_fault (skb_copy_bits d (offset - start) copy) (\<lambda>r. case r of
           None \<Rightarrow> Inr None
         | Some bs \<Rightarrow>
             if len - copy = 0 then Inr (Some (to @ bs))
             else copy_frag_list ds fend (offset + copy) (len - copy) (to @ bs)))
      else copy_frag_list ds fend offset len to)"

subsection \<open>Pointers into a buffer\<close>

text \<open>A pointer to packet bytes: into the linear buffer, or to the caller's \<open>buffer\<close>.\<close>

datatype skb_ptr = In_linear int | In_buffer "u8 list"

definition skb_header_pointer :: "sk_buff \<Rightarrow> int \<Rightarrow> int \<Rightarrow> fault + skb_ptr option" where
  "skb_header_pointer skb offset len =
     (let hlen = sint (skb_headlen (sb_data skb)) in
      if hlen - offset \<ge> len then Inr (Some (In_linear offset))
      else bind_fault (skb_copy_bits (sb_data skb) offset len)
             (\<lambda>r. Inr (map_option In_buffer r)))"

text \<open>The bytes from \<open>skb->head\<close> to \<open>skb->tail\<close>, and a read of \<open>n\<close> of them through a pointer.\<close>

definition linear_mem :: "sk_buff \<Rightarrow> u8 list" where
  "linear_mem skb = sb_headroom skb @ skb_linear (sb_data skb)"

definition read_linear :: "sk_buff \<Rightarrow> int \<Rightarrow> int \<Rightarrow> fault + u8 list" where
  "read_linear skb off n = mem_slice (linear_mem skb) (off + int (length (sb_headroom skb))) n"

definition ptr_read :: "sk_buff \<Rightarrow> skb_ptr \<Rightarrow> int \<Rightarrow> fault + u8 list" where
  "ptr_read skb p n = (case p of
     In_linear off \<Rightarrow> read_linear skb off n
   | In_buffer bs \<Rightarrow> mem_slice bs 0 n)"

definition get_unaligned_be16 :: "u8 list \<Rightarrow> u16" where
  "get_unaligned_be16 p = push_bit 8 (ucast (p ! 0)) OR ucast (p ! 1)"

definition get_unaligned_be32 :: "u8 list \<Rightarrow> u32" where
  "get_unaligned_be32 p =
     push_bit 24 (ucast (p ! 0)) OR push_bit 16 (ucast (p ! 1)) OR push_bit 8 (ucast (p ! 2))
     OR ucast (p ! 3)"

definition ntohs :: "u8 \<times> u8 \<Rightarrow> u16" where
  "ntohs b = get_unaligned_be16 [fst b, snd b]"

subsection \<open>Netlink attributes\<close>

text \<open>
  A \<open>struct nlattr\<close> is two 16-bit fields in host order, \<open>nla_len\<close> and \<open>nla_type\<close>; the
  target (ARM, \<open>mach-vsnv3\<close>) is little-endian. \<open>sizeof(struct nlattr)\<close> and \<open>NLA_HDRLEN\<close> are 4.
\<close>

definition read_u16 :: "sk_buff \<Rightarrow> int \<Rightarrow> fault + u16" where
  "read_u16 skb off =
     bind_fault (read_linear skb off 2) (\<lambda>p. Inr (ucast (p ! 0) OR push_bit 8 (ucast (p ! 1))))"

definition nla_align :: "int \<Rightarrow> int" where
  "nla_align len = (len + 4 - 1) AND NOT (4 - 1)"

lemma nla_align_eq: "nla_align n = (n + 3) div 4 * 4"
  using int_and_not_3 [of "n + 3"] by (simp add: nla_align_def add.commute)

definition nla_type_of :: "u16 \<Rightarrow> int" where
  "nla_type_of t = uint (t AND 0x3fff)"

function nla_find :: "sk_buff \<Rightarrow> int \<Rightarrow> int \<Rightarrow> int \<Rightarrow> fault + int option" where
  "nla_find skb nla rem attrtype =
     (if rem < 4 then Inr None
      else (case read_u16 skb nla of
        Inl e \<Rightarrow> Inl e
      | Inr nla_len \<Rightarrow>
          (if uint nla_len < 4 \<or> uint nla_len > rem then Inr None
           else (case read_u16 skb (nla + 2) of
             Inl e \<Rightarrow> Inl e
           | Inr ty \<Rightarrow>
               (if nla_type_of ty = attrtype then Inr (Some nla)
                else (let totlen = nla_align (uint nla_len) in
                      nla_find skb (nla + totlen) (rem - totlen) attrtype))))))"
  by pat_completeness auto
termination
proof (relation "measure (\<lambda>(skb, nla, rem, attrtype). nat rem)", goal_cases)
  case (2 skb nla rem attrtype nla_len ty totlen)
  then have "4 \<le> totlen" by (simp add: nla_align_eq) presburger
  with 2 show ?case by simp
qed simp

declare nla_find.simps [simp del]

text \<open>\<open>nla_find_nested\<close> searches the payload of an attribute whose length field is \<open>nla_len\<close>.\<close>

definition nla_find_nested :: "sk_buff \<Rightarrow> int \<Rightarrow> u16 \<Rightarrow> int \<Rightarrow> fault + int option" where
  "nla_find_nested skb nla nla_len attrtype =
     nla_find skb (nla + 4) (uint nla_len - 4) attrtype"

subsection \<open>The bytes of a packet\<close>

text \<open>
  The abstract content of a buffer: the linear bytes, then the page fragments, then the
  chained buffers. In a well-formed buffer the length fields count these bytes, and the
  total fits an \<open>int\<close>.
\<close>

fun skb_bytes :: "skb_data \<Rightarrow> u8 list" where
  "skb_bytes (Skb_data slen sdlen lin frags flist) =
     lin @ concat frags @ concat (map skb_bytes flist)"

fun skb_wf :: "skb_data \<Rightarrow> bool" where
  "skb_wf (Skb_data slen sdlen lin frags flist) \<longleftrightarrow>
     list_all skb_wf flist
     \<and> unat sdlen = sum_list (map length frags) + sum_list (map (\<lambda>d. unat (skb_len d)) flist)
     \<and> unat slen = length lin + unat sdlen
     \<and> unat slen < 2 ^ 31"

subsection \<open>Correctness of the copy\<close>

definition copy_spec :: "skb_data \<Rightarrow> bool" where
  "copy_spec d \<longleftrightarrow> (\<forall>o1 n. 0 < n \<longrightarrow> skb_copy_bits d (int o1) (int n) =
     Inr (if o1 + n \<le> length (skb_bytes d) then Some (take n (drop o1 (skb_bytes d))) else None))"

lemma skb_wf_length: "skb_wf d \<Longrightarrow> length (skb_bytes d) = unat (skb_len d)"
proof (induction d rule: skb_wf.induct)
  case (1 slen sdlen lin frags flist)
  then have "map (\<lambda>d. length (skb_bytes d)) flist = map (\<lambda>d. unat (skb_len d)) flist"
    by (auto simp: list_all_iff)
  then have "(\<Sum>d\<leftarrow>flist. length (skb_bytes d)) = (\<Sum>d\<leftarrow>flist. unat (skb_len d))"
    by (rule arg_cong [where f = sum_list])
  with 1 show ?case by (simp add: length_concat comp_def)
qed


lemma copy_frags_eq:
  assumes "0 < n"
  shows "copy_frags fs start (start + int d) (int n) to =
    Inr (let T = length (concat fs) in
         if d + n \<le> T
         then Copied (to @ take n (drop d (concat fs)))
         else More (start + int T) (start + int (max d T)) (int (n - (T - d))) (to @ drop d (concat fs)))"
  using assms
proof (induction fs arbitrary: start d n to)
  case Nil
  then show ?case by (simp add: Let_def)
next
  case (Cons f fs)
  show ?case
  proof (cases "length f \<le> d")
    case True
    then have "copy_frags (f # fs) start (start + int d) (int n) to =
      copy_frags fs (start + int (length f)) (start + int (length f) + int (d - length f)) (int n) to"
      by (simp add: Let_def)
    also note Cons.IH [OF Cons.prems]
    finally show ?thesis using True by (auto simp: Let_def max_def)
  next
    case False
    define c where "c = min (length f - d) n"
    have c: "0 < c" "c \<le> n" "d + c \<le> length f" using False Cons.prems by (auto simp: c_def)
    have c2: "(if start + int (length f) - (start + int d) > int n then int n
               else start + int (length f) - (start + int d)) = int c"
      using False by (auto simp: c_def min_def)
    show ?thesis
    proof (cases "c = n")
      case True
      then show ?thesis using False c c2 Cons.prems
        by (simp add: Let_def mem_slice_nat)
    next
      case neq: False
      then have cl: "c = length f - d" by (auto simp: c_def)
      have "0 < n - c" using neq c by simp
      have "copy_frags (f # fs) start (start + int d) (int n) to =
        copy_frags fs (start + int (length f)) (start + int (length f) + int 0) (int (n - c))
          (to @ take c (drop d f))"
        using False neq c c2 by (simp add: Let_def mem_slice_nat) (simp add: cl)
      also note Cons.IH [OF \<open>0 < n - c\<close>]
      finally show ?thesis using False neq c cl by (auto simp: Let_def max_def)
    qed
  qed
qed


lemma copy_frag_list_eq:
  assumes "\<forall>d \<in> set ds. copy_spec d \<and> skb_wf d" "0 < n"
    "e + n \<le> length (concat (map skb_bytes ds))"
  shows "copy_frag_list ds start (start + int e) (int n) to =
    Inr (Some (to @ take n (drop e (concat (map skb_bytes ds)))))"
  using assms
proof (induction ds arbitrary: start e n to)
  case Nil
  then show ?case by simp
next
  case (Cons d ds)
  define L where "L = length (skb_bytes d)"
  have d: "copy_spec d" "skb_wf d" using Cons.prems by auto
  have sl: "sint (skb_len d) = int L"
    using d(2) by (cases d) (simp add: L_def skb_wf_length sint_u32_small del: skb_bytes.simps)
  show ?case
  proof (cases "L \<le> e")
    case True
    then have "copy_frag_list (d # ds) start (start + int e) (int n) to =
      copy_frag_list ds (start + int L) (start + int L + int (e - L)) (int n) to"
      by (simp add: Let_def sl)
    also have "\<dots> = Inr (Some (to @ take n (drop (e - L) (concat (map skb_bytes ds)))))"
      using Cons.prems True by (intro Cons.IH) (auto simp: L_def)
    finally show ?thesis using True by (simp add: L_def)
  next
    case False
    define c where "c = min (L - e) n"
    have c: "0 < c" "c \<le> n" "e + c \<le> L" using False Cons.prems by (auto simp: c_def)
    have c2: "(if start + int L - (start + int e) > int n then int n
               else start + int L - (start + int e)) = int c"
      using False by (auto simp: c_def min_def)
    have rd: "skb_copy_bits d (int e) (int c) = Inr (Some (take c (drop e (skb_bytes d))))"
      using d(1) c by (simp add: copy_spec_def L_def)
    show ?thesis
    proof (cases "c = n")
      case True
      then have "copy_frag_list (d # ds) start (start + int e) (int n) to =
        Inr (Some (to @ take n (drop e (skb_bytes d))))"
        using False c c2 rd by (simp add: Let_def sl)
      moreover have "n \<le> length (skb_bytes d) - e" using True c by (simp add: L_def)
      ultimately show ?thesis by simp
    next
      case neq: False
      then have cl: "c = L - e" by (auto simp: c_def)
      have "copy_frag_list (d # ds) start (start + int e) (int n) to =
        copy_frag_list ds (start + int L) (start + int L + int 0) (int (n - c))
          (to @ take c (drop e (skb_bytes d)))"
        using False neq c c2 rd by (simp add: Let_def sl) (simp add: cl)
      also have "\<dots> = Inr (Some ((to @ take c (drop e (skb_bytes d))) @
          take (n - c) (drop 0 (concat (map skb_bytes ds)))))"
        using Cons.prems neq c cl by (intro Cons.IH) (auto simp: L_def)
      finally show ?thesis using False neq c cl by (simp add: L_def)
    qed
  qed
qed

abbreviation copy_rest ::
    "u8 list list \<Rightarrow> skb_data list \<Rightarrow> int \<Rightarrow> int \<Rightarrow> int \<Rightarrow> u8 list \<Rightarrow> fault + u8 list option" where
  "copy_rest frags flist start offset n to \<equiv>
     bind_fault (copy_frags frags start offset n to)
       (\<lambda>st. case st of Copied bs \<Rightarrow> Inr (Some bs)
        | More start offset len to \<Rightarrow> copy_frag_list flist start offset len to)"

lemma copy_rest_eq:
  assumes spec: "\<forall>d \<in> set flist. copy_spec d \<and> skb_wf d"
    and n: "0 < n" "e + n \<le> length (concat frags @ concat (map skb_bytes flist))"
  shows "copy_rest frags flist (int h) (int h + int e) (int n) to =
    Inr (Some (to @ take n (drop e (concat frags @ concat (map skb_bytes flist)))))"
proof (cases "e + n \<le> length (concat frags)")
  case True
  then show ?thesis using n by (simp add: copy_frags_eq Let_def)
next
  case False
  let ?T = "length (concat frags)" and ?rest = "concat (map skb_bytes flist)"
  have "copy_frag_list flist (int h + int ?T) (int h + int ?T + int (max e ?T - ?T))
      (int (n - (?T - e))) (to @ drop e (concat frags)) =
    Inr (Some ((to @ drop e (concat frags)) @ take (n - (?T - e)) (drop (max e ?T - ?T) ?rest)))"
    using spec n False by (intro copy_frag_list_eq) (auto simp: max_def)
  then show ?thesis using n False by (auto simp: copy_frags_eq Let_def max_def)
qed

lemma skb_headlen_linear:
  "skb_wf (Skb_data slen sdlen lin frags flist) \<Longrightarrow>
     sint slen = int (unat slen) \<and> sint (slen - sdlen) = int (length lin)"
proof -
  assume wf: "skb_wf (Skb_data slen sdlen lin frags flist)"
  have "unat (slen - sdlen) = length lin"
    using wf by (simp add: unat_sub word_le_nat_alt)
  then show ?thesis using wf by (simp add: sint_u32_small)
qed

lemma skb_copy_bits_past_linear:
  assumes wf: "skb_wf (Skb_data slen sdlen lin frags flist)"
    and spec: "\<forall>d \<in> set flist. copy_spec d \<and> skb_wf d"
    and n: "0 < n" "length lin \<le> o1"
      "o1 + n \<le> length lin + length (concat frags @ concat (map skb_bytes flist))" "o1 + n \<le> unat slen"
  shows "skb_copy_bits (Skb_data slen sdlen lin frags flist) (int o1) (int n) =
    Inr (Some (take n (drop o1 (lin @ concat frags @ concat (map skb_bytes flist)))))"
proof -
  have g: "\<not> int o1 > int (unat slen) - int n" using n(4) by linarith
  have "o1 - length lin + n \<le> length (concat frags @ concat (map skb_bytes flist))" using n by auto
  moreover have "int o1 = int (length lin) + int (o1 - length lin)" using n by simp
  ultimately have "copy_rest frags flist (int (length lin)) (int o1) (int n) [] =
      Inr (Some ([] @ take n (drop (o1 - length lin) (concat frags @ concat (map skb_bytes flist)))))"
    using n(1) by (simp only: copy_rest_eq [OF spec])
  then have "skb_copy_bits (Skb_data slen sdlen lin frags flist) (int o1) (int n) =
      Inr (Some ([] @ take n (drop (o1 - length lin) (concat frags @ concat (map skb_bytes flist)))))"
    using g n(2) skb_headlen_linear [OF wf] by (simp only: skb_copy_bits.simps Let_def) simp
  then show ?thesis using n by simp
qed

lemma skb_copy_bits_from_linear:
  assumes wf: "skb_wf (Skb_data slen sdlen lin frags flist)"
    and spec: "\<forall>d \<in> set flist. copy_spec d \<and> skb_wf d"
    and n: "0 < n" "o1 < length lin"
      "o1 + n \<le> length lin + length (concat frags @ concat (map skb_bytes flist))" "o1 + n \<le> unat slen"
  shows "skb_copy_bits (Skb_data slen sdlen lin frags flist) (int o1) (int n) =
    Inr (Some (take n (drop o1 (lin @ concat frags @ concat (map skb_bytes flist)))))"
proof -
  define c where "c = min (length lin - o1) n"
  have g: "\<not> int o1 > int (unat slen) - int n" using n(4) by linarith
  have c: "0 < c" "c \<le> n" "o1 + c \<le> length lin" using n by (auto simp: c_def)
  have c2: "(if int (length lin) - int o1 > int n then int n else int (length lin) - int o1) = int c"
    using n by (auto simp: c_def min_def)
  note hl = skb_headlen_linear [OF wf]
  show ?thesis
  proof (cases "c = n")
    case True
    then show ?thesis using g n c c2 hl by (simp add: Let_def mem_slice_nat)
  next
    case neq: False
    then have cl: "c = length lin - o1" by (auto simp: c_def)
    have "0 < n - c" "0 + (n - c) \<le> length (concat frags @ concat (map skb_bytes flist))"
      using neq c cl n by auto
    moreover have "int o1 + int c = int (length lin) + int 0" "int n - int c = int (n - c)"
      using cl n c by auto
    ultimately have "copy_rest frags flist (int (length lin)) (int o1 + int c) (int n - int c)
        (take c (drop o1 lin)) =
      Inr (Some (take c (drop o1 lin) @ take (n - c) (drop 0 (concat frags @ concat (map skb_bytes flist)))))"
      by (simp only: copy_rest_eq [OF spec])
    then have "skb_copy_bits (Skb_data slen sdlen lin frags flist) (int o1) (int n) =
      Inr (Some (take c (drop o1 lin) @ take (n - c) (drop 0 (concat frags @ concat (map skb_bytes flist)))))"
      using g n c neq
      by (simp only: skb_copy_bits.simps conjunct1 [OF hl] conjunct2 [OF hl] Let_def c2 mem_slice_nat) simp
    then show ?thesis using n c cl neq by simp
  qed
qed

lemma skb_copy_bits_spec: "skb_wf d \<Longrightarrow> copy_spec d"
proof (induction d rule: skb_wf.induct)
  case (1 slen sdlen lin frags flist)
  let ?d = "Skb_data slen sdlen lin frags flist"
  have wf: "skb_wf ?d" by fact
  have len: "length (skb_bytes ?d) = unat slen" using skb_wf_length [OF wf] by simp
  have spec: "\<forall>d \<in> set flist. copy_spec d \<and> skb_wf d" using 1 by (auto simp: list_all_iff)
  have "skb_copy_bits ?d (int o1) (int n) =
      Inr (if o1 + n \<le> length (skb_bytes ?d) then Some (take n (drop o1 (skb_bytes ?d))) else None)"
    if n: "0 < n" for o1 n :: nat
  proof (cases "o1 + n \<le> unat slen")
    case False
    then have "int o1 > int (unat slen) - int n" by linarith
    then show ?thesis using False len skb_headlen_linear [OF wf] by (simp add: Let_def)
  next
    case True
    then have "o1 + n \<le> length lin + length (concat frags @ concat (map skb_bytes flist))"
      using len by simp
    with True n have "skb_copy_bits ?d (int o1) (int n) =
        Inr (Some (take n (drop o1 (lin @ concat frags @ concat (map skb_bytes flist)))))"
      using skb_copy_bits_past_linear [OF wf spec] skb_copy_bits_from_linear [OF wf spec]
      by (cases "o1 < length lin") auto
    then show ?thesis using True len by simp
  qed
  then show ?case by (simp add: copy_spec_def)
qed

text \<open>
  What a reader of packet bytes may rely on: a copy of \<open>n\<close> bytes at an offset either gives exactly
  those bytes or is refused, and never leaves the packet.
\<close>

locale byte_source =
  fixes copy :: "'a \<Rightarrow> int \<Rightarrow> int \<Rightarrow> fault + u8 list option"
    and bytes :: "'a \<Rightarrow> u8 list"
    and wf :: "'a \<Rightarrow> bool"
  assumes copy_exact: "wf d \<Longrightarrow> 0 < n \<Longrightarrow>
    copy d (int offset) (int n) =
      Inr (if offset + n \<le> length (bytes d) then Some (take n (drop offset (bytes d))) else None)"
begin

lemma copy_no_fault: "wf d \<Longrightarrow> 0 < n \<Longrightarrow> copy d (int offset) (int n) \<noteq> Inl e"
  by (simp add: copy_exact)

lemma copy_length: "wf d \<Longrightarrow> 0 < n \<Longrightarrow> copy d (int offset) (int n) = Inr (Some bs) \<Longrightarrow> length bs = n"
  by (auto simp: copy_exact split: if_splits)

end

interpretation skb: byte_source skb_copy_bits skb_bytes skb_wf
  by unfold_locales (simp add: skb_copy_bits_spec [unfolded copy_spec_def])

text \<open>
  C6. On a well-formed buffer \<open>skb_copy_bits\<close> never reads outside it: it returns exactly the
  \<open>n\<close> bytes of the packet at \<open>offset\<close>, across the linear part, the fragments and the chained
  buffers, when the packet has them, and \<open>-EFAULT\<close> otherwise.
\<close>

theorem skb_copy_bits_correct:
  assumes "skb_wf d" "0 < n"
  shows "skb_copy_bits d (int offset) (int n) =
    Inr (if offset + n \<le> length (skb_bytes d) then Some (take n (drop offset (skb_bytes d))) else None)"
  using skb_copy_bits_spec [OF assms(1)] assms(2) by (simp add: copy_spec_def)

theorem skb_copy_bits_correct_witness:
  "skb_wf (Skb_data 5 4 [1] [[2, 3]] [Skb_data 2 0 [4, 5] [] []])
   \<and> skb_copy_bits (Skb_data 5 4 [1] [[2, 3]] [Skb_data 2 0 [4, 5] [] []]) (int 0) (int 4)
     = Inr (Some [1, 2, 3, 4])"
proof -
  have "skb_wf (Skb_data 5 4 [1] [[2, 3]] [Skb_data 2 0 [4, 5] [] []])" by simp
  with skb_copy_bits_correct [OF this, of 4 0] show ?thesis by simp
qed

end
