(* ===== verification/Skb_Trim.thy ===== *)
theory Skb_Trim
  imports Sk_Buff
begin

text \<open>
  Cutting a socket buffer to a given length: \<open>pskb_trim\<close>, \<open>__pskb_trim\<close>, \<open>__skb_trim\<close>
  (\<open>include/linux/skbuff.h\<close>) and \<open>___pskb_trim\<close> (\<open>net/core/skbuff.c\<close>), on the paged data of
  \<open>skb_data\<close>.  The only failures are those of the allocator when a cloned head or a shared chained
  buffer has to be copied first; they are the two fields of \<open>skb_alloc\<close>.
\<close>

text \<open>
  \<open>expand_head\<close> is the result of \<open>skb_cloned(skb) && (err = pskb_expand_head(skb, 0, 0, GFP_ATOMIC))\<close>,
  \<open>clone_fails\<close> that of \<open>skb_shared(frag) && !skb_clone(frag, GFP_ATOMIC)\<close>.
\<close>

record skb_alloc =
  expand_head :: "skb_data \<Rightarrow> errno option"
  clone_fails :: "skb_data \<Rightarrow> bool"

text \<open>
  The loop over the page fragments: \<open>Inl\<close> with the fragments kept when it reaches the label
  \<open>drop_pages\<close>, \<open>Inr\<close> with the offset when it runs to the end.
\<close>

fun trim_frags :: "u8 list list \<Rightarrow> u32 \<Rightarrow> u32 \<Rightarrow> u8 list list + u32" where
  "trim_frags [] offset len = Inr offset"
| "trim_frags (f # fs) offset len =
     (let fend = offset + of_nat (length f) in
      if fend < len then
        (case trim_frags fs fend len of Inl fs' \<Rightarrow> Inl (f # fs') | Inr offset' \<Rightarrow> Inr offset')
      else Inl [take (unat (len - offset)) f])"

text \<open>The code after the label \<open>done\<close>, with the fragments and chained buffers kept.\<close>

definition trim_done :: "skb_data \<Rightarrow> u32 \<Rightarrow> u8 list list \<Rightarrow> skb_data list \<Rightarrow> skb_data" where
  "trim_done d len frags flist =
     (if len > skb_headlen d
      then Skb_data len (skb_data_len d - (skb_len d - len)) (skb_linear d) frags flist
      else Skb_data len 0 (take (unat len) (skb_linear d)) frags flist)"

fun pskb_trim :: "skb_alloc \<Rightarrow> skb_data \<Rightarrow> u32 \<Rightarrow> errno + skb_data"
and trim_frag_list :: "skb_alloc \<Rightarrow> skb_data list \<Rightarrow> u32 \<Rightarrow> u32 \<Rightarrow> errno + skb_data list"
where
  "pskb_trim al (Skb_data slen sdlen lin frags flist) len =
     (let d = Skb_data slen sdlen lin frags flist in
      if len < slen then
        if sdlen \<noteq> 0 then
          (case expand_head al d of
             Some err \<Rightarrow> Inl err
           | None \<Rightarrow>
               if slen - sdlen \<ge> len then Inr (trim_done d len [] [])
               else
                 (case trim_frags frags (slen - sdlen) len of
                    Inl frags' \<Rightarrow> Inr (trim_done d len frags' [])
                  | Inr offset \<Rightarrow>
                      (case trim_frag_list al flist offset len of
                         Inl err \<Rightarrow> Inl err
                       | Inr flist' \<Rightarrow> Inr (trim_done d len frags flist'))))
        else Inr (Skb_data len sdlen (take (unat len) lin) frags flist)
      else Inr d)"
| "trim_frag_list al [] offset len = Inr []"
| "trim_frag_list al (d # ds) offset len =
     (let fend = offset + skb_len d in
      if clone_fails al d then Inl ENOMEM
      else if fend < len then
        (case trim_frag_list al ds fend len of Inl err \<Rightarrow> Inl err | Inr ds' \<Rightarrow> Inr (d # ds'))
      else if fend > len then
        (case pskb_trim al d (len - offset) of Inl err \<Rightarrow> Inl err | Inr d' \<Rightarrow> Inr [d'])
      else Inr [d])"

subsection \<open>Trimming keeps a prefix\<close>

lemma trim_frags_spec:
  assumes "unat offset + length (concat frags) < 2 ^ 32" "offset < len"
  shows "case trim_frags frags offset len of
      Inl frags' \<Rightarrow> unat len \<le> unat offset + length (concat frags)
        \<and> concat frags' = take (unat len - unat offset) (concat frags)
    | Inr offset' \<Rightarrow> offset' < len \<and> unat offset' = unat offset + length (concat frags)"
  using assms
proof (induction frags offset len rule: trim_frags.induct)
  case (1 offset len)
  then show ?case by simp
next
  case (2 f fs offset len)
  have e: "unat (offset + of_nat (length f)) = unat offset + length f"
    using 2(2) by (subst unat_add_lem [THEN iffD1]) (simp_all add: unat_of_nat)
  show ?case
  proof (cases "offset + of_nat (length f) < len")
    case True
    with 2 e show ?thesis
      by (auto simp: Let_def word_less_nat_alt split: sum.splits)
  next
    case False
    then have "unat len \<le> unat offset + length f" using e by (simp add: word_less_nat_alt)
    moreover have "unat (len - offset) = unat len - unat offset"
      using 2(3) by (simp add: unat_sub word_less_nat_alt word_le_nat_alt)
    ultimately show ?thesis using False by (simp add: Let_def)
  qed
qed

lemma trim_done_spec:
  assumes wf: "skb_wf (Skb_data slen sdlen lin frags flist)" and len: "len < slen"
    and kept: "unat len \<le> length lin \<and> concat frags' = [] \<and> flist' = []
      \<or> length lin < unat len
        \<and> concat frags' @ concat (map skb_bytes flist') =
            take (unat len - length lin) (concat frags @ concat (map skb_bytes flist))"
    and wf': "list_all skb_wf flist'"
  shows "skb_wf (trim_done (Skb_data slen sdlen lin frags flist) len frags' flist')
    \<and> skb_bytes (trim_done (Skb_data slen sdlen lin frags flist) len frags' flist') =
        take (unat len) (skb_bytes (Skb_data slen sdlen lin frags flist))"
proof -
  let ?d = "Skb_data slen sdlen lin frags flist"
  have lt: "unat len < unat slen" using len by (simp add: word_less_nat_alt)
  have hd: "unat (slen - sdlen) = length lin" using wf by (simp add: unat_sub word_le_nat_alt)
  have sum: "sum_list (map length frags') + sum_list (map (\<lambda>d. unat (skb_len d)) flist') =
      length (concat frags' @ concat (map skb_bytes flist'))"
    using wf' by (simp add: length_concat list_all_iff comp_def skb_wf_length cong: map_cong)
  have tot: "length (concat frags @ concat (map skb_bytes flist)) = unat sdlen"
    using wf by (simp add: length_concat list_all_iff comp_def skb_wf_length cong: map_cong)
  show ?thesis
  proof (cases "length lin < unat len")
    case True
    have "unat (slen - len) = unat slen - unat len" using lt by (simp add: unat_sub word_le_nat_alt)
    moreover have "unat slen - unat len \<le> unat sdlen" using True wf by simp
    ultimately have dl: "unat (sdlen - (slen - len)) = unat len - length lin"
      using wf True lt by (simp add: unat_sub word_le_nat_alt)
    from True kept have "length (concat frags' @ concat (map skb_bytes flist')) = unat len - length lin"
      using tot wf lt by simp
    then show ?thesis using True wf wf' sum dl lt kept hd
      by (auto simp: trim_done_def skb_headlen_def word_less_nat_alt)
  next
    case False
    then show ?thesis using kept wf wf' sum hd lt
      by (auto simp: trim_done_def skb_headlen_def word_less_nat_alt)
  qed
qed

lemma pskb_trim_linear:
  assumes wf: "skb_wf (Skb_data slen sdlen lin frags flist)" and lin: "\<not> (len < slen \<and> sdlen \<noteq> 0)"
    and trim: "pskb_trim al (Skb_data slen sdlen lin frags flist) len = Inr d'"
  shows "skb_wf d' \<and> skb_bytes d' = take (unat len) (skb_bytes (Skb_data slen sdlen lin frags flist))"
proof (cases "len < slen")
  case True
  then have "sdlen = 0" "unat len < unat slen" using lin by (auto simp: word_less_nat_alt)
  moreover from this have "concat frags @ concat (map skb_bytes flist) = []"
    using wf by (auto simp: list_all_iff simp flip: skb_wf_length)
  moreover have "sum_list (map length frags) = 0" "sum_list (map (\<lambda>d. unat (skb_len d)) flist) = 0"
    using wf \<open>sdlen = 0\<close> by auto
  ultimately show ?thesis using True wf trim by (auto simp: Let_def min_def)
next
  case False
  then show ?thesis using wf trim skb_wf_length [OF wf] by (auto simp: Let_def word_less_nat_alt)
qed

lemma pskb_trim_step:
  assumes wf: "skb_wf (Skb_data slen sdlen lin frags flist)"
    and trim: "pskb_trim al (Skb_data slen sdlen lin frags flist) len = Inr d'"
    and IH: "\<And>offset flist'. len < slen \<Longrightarrow> sdlen \<noteq> 0 \<Longrightarrow>
      expand_head al (Skb_data slen sdlen lin frags flist) = None \<Longrightarrow> \<not> len \<le> slen - sdlen \<Longrightarrow>
      trim_frags frags (slen - sdlen) len = Inr offset \<Longrightarrow> offset < len \<Longrightarrow> list_all skb_wf flist \<Longrightarrow>
      unat offset + length (concat (map skb_bytes flist)) < 2 ^ 32 \<Longrightarrow>
      unat len \<le> unat offset + length (concat (map skb_bytes flist)) \<Longrightarrow>
      trim_frag_list al flist offset len = Inr flist' \<Longrightarrow>
      list_all skb_wf flist' \<and>
      concat (map skb_bytes flist') = take (unat len - unat offset) (concat (map skb_bytes flist))"
  shows "skb_wf d' \<and> skb_bytes d' = take (unat len) (skb_bytes (Skb_data slen sdlen lin frags flist))"
proof (cases "len < slen \<and> sdlen \<noteq> 0")
  case False
  then show ?thesis using pskb_trim_linear wf trim by blast
next
  case True
  have hd: "unat (slen - sdlen) = length lin" using wf by (simp add: unat_sub word_le_nat_alt)
  have tot: "length (concat frags @ concat (map skb_bytes flist)) = unat sdlen"
    using wf by (simp add: length_concat list_all_iff comp_def skb_wf_length cong: map_cong)
  have small: "unat slen = length lin + unat sdlen" "unat slen < 2 ^ 31" "unat len < unat slen" "list_all skb_wf flist"
    using wf True by (auto simp: word_less_nat_alt)
  note dn = trim_done_spec [OF wf conjunct1 [OF True]]
  show ?thesis
  proof (cases "slen - sdlen \<ge> len")
    case cut: True
    then show ?thesis using trim True dn [of "[]" "[]"] hd
      by (auto simp: Let_def word_le_nat_alt split: option.splits)
  next
    case past: False
    then have lt: "slen - sdlen < len" "length lin < unat len" using hd by (auto simp: word_le_nat_alt word_less_nat_alt)
    have "unat (slen - sdlen) + length (concat frags) < 2 ^ 32" using hd tot small by simp
    note fr = trim_frags_spec [OF this lt(1)]
    show ?thesis
    proof (cases "trim_frags frags (slen - sdlen) len")
      case (Inl frags')
      then show ?thesis using trim True past fr hd dn [of frags' "[]"] lt
        by (auto simp: Let_def split: option.splits)
    next
      case (Inr offset)
      with trim True past obtain flist' where fl: "trim_frag_list al flist offset len = Inr flist'"
        and ex: "expand_head al (Skb_data slen sdlen lin frags flist) = None"
        and d': "d' = trim_done (Skb_data slen sdlen lin frags flist) len frags flist'"
        by (auto simp: Let_def split: option.splits sum.splits)
      have off: "offset < len" "unat offset = length lin + length (concat frags)" using fr Inr hd by auto
      with IH [OF _ _ ex past Inr off(1) small(4) _ _ fl] tot small lt off True
      have k: "list_all skb_wf flist'"
        "concat (map skb_bytes flist') = take (unat len - unat offset) (concat (map skb_bytes flist))" by auto
      have "length (concat frags) \<le> unat len - length lin" using off by (simp add: word_less_nat_alt)
      with k off lt have "concat frags @ concat (map skb_bytes flist') =
          take (unat len - length lin) (concat frags @ concat (map skb_bytes flist))" by simp
      then show ?thesis unfolding d' using dn [of frags flist'] k(1) lt by blast
    qed
  qed
qed

lemma pskb_trim_spec:
  "skb_wf d \<Longrightarrow> pskb_trim al d len = Inr d' \<Longrightarrow>
     skb_wf d' \<and> skb_bytes d' = take (unat len) (skb_bytes d)"
  "list_all skb_wf ds \<Longrightarrow> offset < len \<Longrightarrow>
     unat offset + length (concat (map skb_bytes ds)) < 2 ^ 32 \<Longrightarrow>
     unat len \<le> unat offset + length (concat (map skb_bytes ds)) \<Longrightarrow>
     trim_frag_list al ds offset len = Inr ds' \<Longrightarrow>
     list_all skb_wf ds' \<and>
     concat (map skb_bytes ds') = take (unat len - unat offset) (concat (map skb_bytes ds))"
proof (induction al d len and al ds offset len arbitrary: d' and ds' rule: pskb_trim_trim_frag_list.induct)
  case (1 al slen sdlen lin frags flist len)
  show ?case
    by (rule pskb_trim_step [OF 1(2,3)], rule 1(1)) auto
next
  case (2 al offset len)
  then show ?case by simp
next
  case (3 al d ds offset len)
  have dl: "length (skb_bytes d) = unat (skb_len d)" using 3 skb_wf_length by simp
  have e: "unat (offset + skb_len d) = unat offset + unat (skb_len d)"
    using 3 dl by (subst unat_add_lem [THEN iffD1]) simp_all
  have lo: "unat (len - offset) = unat len - unat offset"
    using 3(4) by (simp add: unat_sub word_less_nat_alt word_le_nat_alt)
  have wfs: "list_all skb_wf ds" "skb_wf d" and nc: "\<not> clone_fails al d" using 3 by (auto simp: Let_def split: if_splits)
  consider (go) "offset + skb_len d < len" | (cut) "offset + skb_len d > len" | (eq) "offset + skb_len d = len"
    by (meson linorder_less_linear)
  then show ?case
  proof cases
    case go
    then obtain es where es: "trim_frag_list al ds (offset + skb_len d) len = Inr es" "ds' = d # es"
      using 3(7) nc by (auto simp: Let_def split: sum.splits)
    have "list_all skb_wf es \<and> concat (map skb_bytes es) =
        take (unat len - unat (offset + skb_len d)) (concat (map skb_bytes ds))"
      using 3(5,6) dl e es(1) go nc wfs by (intro 3(1)) auto
    then show ?thesis using es(2) wfs e dl go by (auto simp: word_less_nat_alt)
  next
    case cut
    then obtain d2 where d2: "pskb_trim al d (len - offset) = Inr d2" "ds' = [d2]"
      using 3(7) nc by (auto simp: Let_def split: sum.splits if_splits)
    have "skb_wf d2 \<and> skb_bytes d2 = take (unat (len - offset)) (skb_bytes d)"
      using cut nc wfs d2 by (intro 3(2)) auto
    moreover have "unat len - unat offset \<le> length (skb_bytes d)" using cut e dl by (simp add: word_less_nat_alt)
    ultimately show ?thesis using d2(2) lo by simp
  next
    case eq
    then have "ds' = [d]" using 3(7) nc by (auto simp: Let_def)
    moreover have "unat len - unat offset = length (skb_bytes d)" using eq e dl by auto
    ultimately show ?thesis using wfs by simp
  qed
qed

lemma pskb_trim_succeeds:
  assumes "\<And>d. expand_head al d = None" "\<And>d. \<not> clone_fails al d"
  shows "\<exists>d'. pskb_trim al d len = Inr d'" "\<exists>ds'. trim_frag_list al ds offset len = Inr ds'"
  using assms
  by (induction al d len and al ds offset len rule: pskb_trim_trim_frag_list.induct)
    (auto simp: Let_def split: sum.splits, fastforce+)

text \<open>
  C7. Trimming a well-formed buffer leaves a well-formed buffer holding exactly the first \<open>len\<close> bytes
  of the packet (all of it when it is shorter), wherever the cut falls: in the linear part, inside a
  page fragment, or inside a chained buffer, recursively.  It fails only when the allocator does.
\<close>

theorem pskb_trim_prefix:
  assumes "skb_wf d"
  shows "(\<forall>d'. pskb_trim al d len = Inr d' \<longrightarrow> skb_wf d' \<and> skb_bytes d' = take (unat len) (skb_bytes d))
    \<and> ((\<forall>d. expand_head al d = None \<and> \<not> clone_fails al d) \<longrightarrow> (\<exists>d'. pskb_trim al d len = Inr d'))"
  using pskb_trim_spec(1) [OF assms] pskb_trim_succeeds(1) by blast

theorem pskb_trim_prefix_witness:
  "skb_wf (Skb_data 5 4 [1] [[2, 3]] [Skb_data 2 0 [4, 5] [] []])
   \<and> (\<exists>d'. pskb_trim \<lparr>expand_head = (\<lambda>_. None), clone_fails = (\<lambda>_. False)\<rparr>
          (Skb_data 5 4 [1] [[2, 3]] [Skb_data 2 0 [4, 5] [] []]) 4 = Inr d'
        \<and> skb_wf d' \<and> skb_bytes d' = [1, 2, 3, 4])"
proof -
  have wf: "skb_wf (Skb_data 5 4 [1] [[2, 3]] [Skb_data 2 0 [4, 5] [] []])" by simp
  with pskb_trim_prefix [OF this, of "\<lparr>expand_head = (\<lambda>_. None), clone_fails = (\<lambda>_. False)\<rparr>" 4]
  show ?thesis by auto
qed

end
