(* ===== verification/Bpf_Filter.thy ===== *)
theory Bpf_Filter
  imports Sk_Buff Reciprocal_Div
begin

text \<open>
  The socket filter, \<open>net/core/filter.c\<close> with \<open>include/linux/filter.h\<close>: the interpreter
  \<open>sk_run_filter\<close>, the checker \<open>sk_chk_filter\<close> with \<open>check_load_and_stores\<close>, and the
  operations that attach a filter to a socket, detach it and run it on a packet.

  The interpreter makes its possible failures explicit: a fetch outside the program, an
  index outside \<open>mem\<close>, a read of a cell of \<open>mem\<close> never written (the array is on the stack
  and not cleared) and a read outside the packet are values of \<^typ>\<open>fault\<close>.
\<close>

subsection \<open>Instructions\<close>

text \<open>The internal operation codes, the anonymous \<open>enum\<close> that starts at \<open>BPF_S_RET_K = 1\<close>.\<close>

datatype bpf_s =
    BPF_S_RET_K | BPF_S_RET_A | BPF_S_ALU_ADD_K | BPF_S_ALU_ADD_X
  | BPF_S_ALU_SUB_K | BPF_S_ALU_SUB_X | BPF_S_ALU_MUL_K | BPF_S_ALU_MUL_X
  | BPF_S_ALU_DIV_X | BPF_S_ALU_AND_K | BPF_S_ALU_AND_X | BPF_S_ALU_OR_K
  | BPF_S_ALU_OR_X | BPF_S_ALU_LSH_K | BPF_S_ALU_LSH_X | BPF_S_ALU_RSH_K
  | BPF_S_ALU_RSH_X | BPF_S_ALU_NEG | BPF_S_LD_W_ABS | BPF_S_LD_H_ABS
  | BPF_S_LD_B_ABS | BPF_S_LD_W_LEN | BPF_S_LD_W_IND | BPF_S_LD_H_IND
  | BPF_S_LD_B_IND | BPF_S_LD_IMM | BPF_S_LDX_W_LEN | BPF_S_LDX_B_MSH
  | BPF_S_LDX_IMM | BPF_S_MISC_TAX | BPF_S_MISC_TXA | BPF_S_ALU_DIV_K
  | BPF_S_LD_MEM | BPF_S_LDX_MEM | BPF_S_ST | BPF_S_STX
  | BPF_S_JMP_JA | BPF_S_JMP_JEQ_K | BPF_S_JMP_JEQ_X | BPF_S_JMP_JGE_K
  | BPF_S_JMP_JGE_X | BPF_S_JMP_JGT_K | BPF_S_JMP_JGT_X | BPF_S_JMP_JSET_K
  | BPF_S_JMP_JSET_X | BPF_S_ANC_PROTOCOL | BPF_S_ANC_PKTTYPE | BPF_S_ANC_IFINDEX
  | BPF_S_ANC_NLATTR | BPF_S_ANC_NLATTR_NEST | BPF_S_ANC_MARK | BPF_S_ANC_QUEUE
  | BPF_S_ANC_HATYPE | BPF_S_ANC_RXHASH | BPF_S_ANC_CPU

definition bpf_s_enum :: "bpf_s list" where
  "bpf_s_enum =
     [BPF_S_RET_K, BPF_S_RET_A, BPF_S_ALU_ADD_K, BPF_S_ALU_ADD_X,
      BPF_S_ALU_SUB_K, BPF_S_ALU_SUB_X, BPF_S_ALU_MUL_K, BPF_S_ALU_MUL_X,
      BPF_S_ALU_DIV_X, BPF_S_ALU_AND_K, BPF_S_ALU_AND_X, BPF_S_ALU_OR_K,
      BPF_S_ALU_OR_X, BPF_S_ALU_LSH_K, BPF_S_ALU_LSH_X, BPF_S_ALU_RSH_K,
      BPF_S_ALU_RSH_X, BPF_S_ALU_NEG, BPF_S_LD_W_ABS, BPF_S_LD_H_ABS,
      BPF_S_LD_B_ABS, BPF_S_LD_W_LEN, BPF_S_LD_W_IND, BPF_S_LD_H_IND,
      BPF_S_LD_B_IND, BPF_S_LD_IMM, BPF_S_LDX_W_LEN, BPF_S_LDX_B_MSH,
      BPF_S_LDX_IMM, BPF_S_MISC_TAX, BPF_S_MISC_TXA, BPF_S_ALU_DIV_K,
      BPF_S_LD_MEM, BPF_S_LDX_MEM, BPF_S_ST, BPF_S_STX,
      BPF_S_JMP_JA, BPF_S_JMP_JEQ_K, BPF_S_JMP_JEQ_X, BPF_S_JMP_JGE_K,
      BPF_S_JMP_JGE_X, BPF_S_JMP_JGT_K, BPF_S_JMP_JGT_X, BPF_S_JMP_JSET_K,
      BPF_S_JMP_JSET_X, BPF_S_ANC_PROTOCOL, BPF_S_ANC_PKTTYPE, BPF_S_ANC_IFINDEX,
      BPF_S_ANC_NLATTR, BPF_S_ANC_NLATTR_NEST, BPF_S_ANC_MARK, BPF_S_ANC_QUEUE,
      BPF_S_ANC_HATYPE, BPF_S_ANC_RXHASH, BPF_S_ANC_CPU]"

text \<open>The number of an enumerator, and the enumerator a number stands for.\<close>

fun position :: "'a \<Rightarrow> 'a list \<Rightarrow> nat" where
  "position x [] = 0"
| "position x (y # ys) = (if x = y then 0 else Suc (position x ys))"

definition bpf_s_code :: "bpf_s \<Rightarrow> u16" where
  "bpf_s_code c = of_nat (1 + position c bpf_s_enum)"

definition bpf_s_of :: "u16 \<Rightarrow> bpf_s option" where
  "bpf_s_of c =
     (if 1 \<le> unat c \<and> unat c \<le> length bpf_s_enum
      then Some (bpf_s_enum ! (unat c - 1)) else None)"

record sock_filter =
  sf_code :: u16
  sf_jt :: u8
  sf_jf :: u8
  sf_k :: u32

definition BPF_MAXINSNS :: nat where
  "BPF_MAXINSNS = 4096"

definition BPF_MEMWORDS :: nat where
  "BPF_MEMWORDS = 16"

definition SKF_AD_OFF :: int where
  "SKF_AD_OFF = - 0x1000"

definition SKF_NET_OFF :: int where
  "SKF_NET_OFF = - 0x100000"

definition SKF_LL_OFF :: int where
  "SKF_LL_OFF = - 0x200000"

subsection \<open>The interpreter\<close>

text \<open>
  What the interpreter takes from the machine: the current processor, and the results of
  32-bit shifts by 32 or more, which C leaves undefined.
\<close>

record bpf_env =
  raw_smp_processor_id :: u32
  undef_lsh :: "u32 \<Rightarrow> u32 \<Rightarrow> u32"
  undef_rsh :: "u32 \<Rightarrow> u32 \<Rightarrow> u32"

record bpf_state =
  reg_A :: u32
  reg_X :: u32
  mem :: "u32 option list"   \<comment> \<open>\<open>None\<close>: not written yet\<close>

text \<open>After an instruction: go on past \<open>off\<close> further instructions, or return.\<close>

datatype bpf_ctl = Next bpf_state nat | Return u32

definition shl_u32 :: "bpf_env \<Rightarrow> u32 \<Rightarrow> u32 \<Rightarrow> u32" where
  "shl_u32 env a n = (if unat n < 32 then push_bit (unat n) a else undef_lsh env a n)"

definition shr_u32 :: "bpf_env \<Rightarrow> u32 \<Rightarrow> u32 \<Rightarrow> u32" where
  "shr_u32 env a n = (if unat n < 32 then drop_bit (unat n) a else undef_rsh env a n)"

definition load_pointer_neg :: "sk_buff \<Rightarrow> int \<Rightarrow> int \<Rightarrow> skb_ptr option" where
  "load_pointer_neg skb k sz =
     (let ptr = (if k \<ge> SKF_NET_OFF then Some (network_header skb + k - SKF_NET_OFF)
                 else if k \<ge> SKF_LL_OFF then Some (mac_header skb + k - SKF_LL_OFF)
                 else None)
      in case ptr of
           None \<Rightarrow> None
         | Some p \<Rightarrow>
             (if p \<ge> - int (length (sb_headroom skb))
                 \<and> p + sz \<le> int (length (skb_linear (sb_data skb)))
              then Some (In_linear p) else None))"

definition load_pointer :: "sk_buff \<Rightarrow> int \<Rightarrow> int \<Rightarrow> fault + skb_ptr option" where
  "load_pointer skb k sz =
     (if k \<ge> 0 then skb_header_pointer skb k sz else Inr (load_pointer_neg skb k sz))"

text \<open>A load of \<open>size\<close> bytes at \<open>k\<close>; the filter returns \<open>0\<close> when the packet lacks them.\<close>

definition load_bytes :: "sk_buff \<Rightarrow> int \<Rightarrow> int \<Rightarrow> (u8 list \<Rightarrow> bpf_state) \<Rightarrow> fault + bpf_ctl" where
  "load_bytes skb k sz use =
     bind_fault (load_pointer skb k sz) (\<lambda>ptr. case ptr of
       None \<Rightarrow> Inr (Return 0)
     | Some p \<Rightarrow> bind_fault (ptr_read skb p sz) (\<lambda>bs. Inr (Next (use bs) 0)))"

definition load_w :: "sk_buff \<Rightarrow> int \<Rightarrow> bpf_state \<Rightarrow> fault + bpf_ctl" where
  "load_w skb k s = load_bytes skb k 4 (\<lambda>bs. s\<lparr>reg_A := get_unaligned_be32 bs\<rparr>)"

definition load_h :: "sk_buff \<Rightarrow> int \<Rightarrow> bpf_state \<Rightarrow> fault + bpf_ctl" where
  "load_h skb k s = load_bytes skb k 2 (\<lambda>bs. s\<lparr>reg_A := ucast (get_unaligned_be16 bs)\<rparr>)"

definition load_b :: "sk_buff \<Rightarrow> int \<Rightarrow> bpf_state \<Rightarrow> fault + bpf_ctl" where
  "load_b skb k s = load_bytes skb k 1 (\<lambda>bs. s\<lparr>reg_A := ucast (bs ! 0)\<rparr>)"

definition mem_load :: "bpf_state \<Rightarrow> u32 \<Rightarrow> (u32 \<Rightarrow> bpf_state) \<Rightarrow> fault + bpf_ctl" where
  "mem_load s K use =
     (if unat K < length (mem s)
      then (case mem s ! unat K of None \<Rightarrow> Inl Mem_uninit | Some v \<Rightarrow> Inr (Next (use v) 0))
      else Inl Mem_oob)"

definition mem_store :: "bpf_state \<Rightarrow> u32 \<Rightarrow> u32 \<Rightarrow> fault + bpf_ctl" where
  "mem_store s K v =
     (if unat K < length (mem s)
      then Inr (Next (s\<lparr>mem := (mem s)[unat K := Some v]\<rparr>) 0) else Inl Mem_oob)"

text \<open>The arithmetic instructions.\<close>

definition exec_alu :: "bpf_env \<Rightarrow> bpf_s \<Rightarrow> u32 \<Rightarrow> bpf_state \<Rightarrow> bpf_ctl option" where
  "exec_alu env c K s =
     (let A = reg_A s; X = reg_X s; setA = (\<lambda>v. Some (Next (s\<lparr>reg_A := v\<rparr>) 0)) in
      case c of
        BPF_S_ALU_ADD_X \<Rightarrow> setA (A + X)
      | BPF_S_ALU_ADD_K \<Rightarrow> setA (A + K)
      | BPF_S_ALU_SUB_X \<Rightarrow> setA (A - X)
      | BPF_S_ALU_SUB_K \<Rightarrow> setA (A - K)
      | BPF_S_ALU_MUL_X \<Rightarrow> setA (A * X)
      | BPF_S_ALU_MUL_K \<Rightarrow> setA (A * K)
      | BPF_S_ALU_DIV_X \<Rightarrow> if X = 0 then Some (Return 0) else setA (A div X)
      | BPF_S_ALU_DIV_K \<Rightarrow> setA (reciprocal_divide A K)
      | BPF_S_ALU_AND_X \<Rightarrow> setA (A AND X)
      | BPF_S_ALU_AND_K \<Rightarrow> setA (A AND K)
      | BPF_S_ALU_OR_X \<Rightarrow> setA (A OR X)
      | BPF_S_ALU_OR_K \<Rightarrow> setA (A OR K)
      | BPF_S_ALU_LSH_X \<Rightarrow> setA (shl_u32 env A X)
      | BPF_S_ALU_LSH_K \<Rightarrow> setA (shl_u32 env A K)
      | BPF_S_ALU_RSH_X \<Rightarrow> setA (shr_u32 env A X)
      | BPF_S_ALU_RSH_K \<Rightarrow> setA (shr_u32 env A K)
      | BPF_S_ALU_NEG \<Rightarrow> setA (- A)
      | _ \<Rightarrow> None)"

text \<open>The jumps: the offset added to \<open>fentry\<close> before the loop's increment.\<close>

definition exec_jmp :: "bpf_s \<Rightarrow> sock_filter \<Rightarrow> bpf_state \<Rightarrow> bpf_ctl option" where
  "exec_jmp c f s =
     (let A = reg_A s; X = reg_X s; K = sf_k f;
          cond = (\<lambda>b. Some (Next s (if b then unat (sf_jt f) else unat (sf_jf f)))) in
      case c of
        BPF_S_JMP_JA \<Rightarrow> Some (Next s (unat K))
      | BPF_S_JMP_JGT_K \<Rightarrow> cond (A > K)
      | BPF_S_JMP_JGE_K \<Rightarrow> cond (A \<ge> K)
      | BPF_S_JMP_JEQ_K \<Rightarrow> cond (A = K)
      | BPF_S_JMP_JSET_K \<Rightarrow> cond (A AND K \<noteq> 0)
      | BPF_S_JMP_JGT_X \<Rightarrow> cond (A > X)
      | BPF_S_JMP_JGE_X \<Rightarrow> cond (A \<ge> X)
      | BPF_S_JMP_JEQ_X \<Rightarrow> cond (A = X)
      | BPF_S_JMP_JSET_X \<Rightarrow> cond (A AND X \<noteq> 0)
      | _ \<Rightarrow> None)"

text \<open>Loads, stores, register moves and returns.\<close>

definition exec_ld_st :: "sk_buff \<Rightarrow> bpf_s \<Rightarrow> u32 \<Rightarrow> bpf_state \<Rightarrow> (fault + bpf_ctl) option" where
  "exec_ld_st skb c K s =
     (let A = reg_A s; X = reg_X s; go = (\<lambda>s'. Some (Inr (Next s' 0))) in
      case c of
        BPF_S_LD_W_ABS \<Rightarrow> Some (load_w skb (sint K) s)
      | BPF_S_LD_H_ABS \<Rightarrow> Some (load_h skb (sint K) s)
      | BPF_S_LD_B_ABS \<Rightarrow> Some (load_b skb (sint K) s)
      | BPF_S_LD_W_LEN \<Rightarrow> go (s\<lparr>reg_A := sb_len skb\<rparr>)
      | BPF_S_LDX_W_LEN \<Rightarrow> go (s\<lparr>reg_X := sb_len skb\<rparr>)
      | BPF_S_LD_W_IND \<Rightarrow> Some (load_w skb (sint (X + K)) s)
      | BPF_S_LD_H_IND \<Rightarrow> Some (load_h skb (sint (X + K)) s)
      | BPF_S_LD_B_IND \<Rightarrow> Some (load_b skb (sint (X + K)) s)
      | BPF_S_LDX_B_MSH \<Rightarrow>
          Some (load_bytes skb (sint K) 1 (\<lambda>bs. s\<lparr>reg_X := push_bit 2 (ucast (bs ! 0 AND 0xf))\<rparr>))
      | BPF_S_LD_IMM \<Rightarrow> go (s\<lparr>reg_A := K\<rparr>)
      | BPF_S_LDX_IMM \<Rightarrow> go (s\<lparr>reg_X := K\<rparr>)
      | BPF_S_LD_MEM \<Rightarrow> Some (mem_load s K (\<lambda>v. s\<lparr>reg_A := v\<rparr>))
      | BPF_S_LDX_MEM \<Rightarrow> Some (mem_load s K (\<lambda>v. s\<lparr>reg_X := v\<rparr>))
      | BPF_S_MISC_TAX \<Rightarrow> go (s\<lparr>reg_X := A\<rparr>)
      | BPF_S_MISC_TXA \<Rightarrow> go (s\<lparr>reg_A := X\<rparr>)
      | BPF_S_RET_K \<Rightarrow> Some (Inr (Return K))
      | BPF_S_RET_A \<Rightarrow> Some (Inr (Return A))
      | BPF_S_ST \<Rightarrow> Some (mem_store s K A)
      | BPF_S_STX \<Rightarrow> Some (mem_store s K X)
      | _ \<Rightarrow> None)"

text \<open>The ancillary loads: packet metadata and netlink attributes.\<close>

definition exec_nlattr :: "sk_buff \<Rightarrow> bpf_state \<Rightarrow> fault + bpf_ctl" where
  "exec_nlattr skb s =
     (let A = reg_A s; X = reg_X s in
      if skb_is_nonlinear skb then Inr (Return 0)
      else if A > sb_len skb - 4 then Inr (Return 0)
      else bind_fault (nla_find skb (uint A) (sint (sb_len skb - A)) (sint X)) (\<lambda>nla.
        case nla of
          Some p \<Rightarrow> Inr (Next (s\<lparr>reg_A := of_int p\<rparr>) 0)
        | None \<Rightarrow> Inr (Next (s\<lparr>reg_A := 0\<rparr>) 0)))"

definition exec_nlattr_nest :: "sk_buff \<Rightarrow> bpf_state \<Rightarrow> fault + bpf_ctl" where
  "exec_nlattr_nest skb s =
     (let A = reg_A s; X = reg_X s in
      if skb_is_nonlinear skb then Inr (Return 0)
      else if A > sb_len skb - 4 then Inr (Return 0)
      else bind_fault (read_u16 skb (uint A)) (\<lambda>nla_len.
        if ucast nla_len > A - sb_len skb then Inr (Return 0)
        else bind_fault (nla_find_nested skb (uint A) nla_len (sint X)) (\<lambda>nla.
          case nla of
            Some p \<Rightarrow> Inr (Next (s\<lparr>reg_A := of_int p\<rparr>) 0)
          | None \<Rightarrow> Inr (Next (s\<lparr>reg_A := 0\<rparr>) 0))))"

definition exec_anc :: "bpf_env \<Rightarrow> sk_buff \<Rightarrow> bpf_s \<Rightarrow> bpf_state \<Rightarrow> (fault + bpf_ctl) option" where
  "exec_anc env skb c s =
     (let setA = (\<lambda>v. Some (Inr (Next (s\<lparr>reg_A := v\<rparr>) 0))) in
      case c of
        BPF_S_ANC_PROTOCOL \<Rightarrow> setA (ucast (ntohs (protocol skb)))
      | BPF_S_ANC_PKTTYPE \<Rightarrow> setA (ucast (pkt_type skb))
      | BPF_S_ANC_IFINDEX \<Rightarrow>
          (case sb_dev skb of None \<Rightarrow> Some (Inr (Return 0)) | Some d \<Rightarrow> setA (ifindex d))
      | BPF_S_ANC_MARK \<Rightarrow> setA (sb_mark skb)
      | BPF_S_ANC_QUEUE \<Rightarrow> setA (ucast (queue_mapping skb))
      | BPF_S_ANC_HATYPE \<Rightarrow>
          (case sb_dev skb of None \<Rightarrow> Some (Inr (Return 0)) | Some d \<Rightarrow> setA (ucast (dev_type d)))
      | BPF_S_ANC_RXHASH \<Rightarrow> setA (rxhash skb)
      | BPF_S_ANC_CPU \<Rightarrow> setA (raw_smp_processor_id env)
      | BPF_S_ANC_NLATTR \<Rightarrow> Some (exec_nlattr skb s)
      | BPF_S_ANC_NLATTR_NEST \<Rightarrow> Some (exec_nlattr_nest skb s)
      | _ \<Rightarrow> None)"

text \<open>One turn of the loop; an unknown code returns \<open>0\<close> after a warning.\<close>

definition exec_insn :: "bpf_env \<Rightarrow> sk_buff \<Rightarrow> sock_filter \<Rightarrow> bpf_state \<Rightarrow> fault + bpf_ctl" where
  "exec_insn env skb f s =
     (case bpf_s_of (sf_code f) of
        None \<Rightarrow> Inr (Return 0)
      | Some c \<Rightarrow>
          (case exec_alu env c (sf_k f) s of Some r \<Rightarrow> Inr r | None \<Rightarrow>
          (case exec_jmp c f s of Some r \<Rightarrow> Inr r | None \<Rightarrow>
          (case exec_ld_st skb c (sf_k f) s of Some r \<Rightarrow> r | None \<Rightarrow>
          (case exec_anc env skb c s of Some r \<Rightarrow> r | None \<Rightarrow> Inr (Return 0))))))"

definition bpf_init :: bpf_state where
  "bpf_init = \<lparr>reg_A = 0, reg_X = 0, mem = replicate BPF_MEMWORDS None\<rparr>"

function run_from :: "bpf_env \<Rightarrow> sk_buff \<Rightarrow> sock_filter list \<Rightarrow> nat \<Rightarrow> bpf_state \<Rightarrow> fault + u32" where
  "run_from env skb fentry pc s =
     (if pc < length fentry then
        (case exec_insn env skb (fentry ! pc) s of
           Inl e \<Rightarrow> Inl e
         | Inr (Return v) \<Rightarrow> Inr v
         | Inr (Next s' off) \<Rightarrow> run_from env skb fentry (pc + off + 1) s')
      else Inl Pc_oob)"
  by pat_completeness auto
termination
  by (relation "measure (\<lambda>(env, skb, fentry, pc, s). length fentry - pc)") auto

declare run_from.simps [simp del]

definition sk_run_filter :: "bpf_env \<Rightarrow> sk_buff \<Rightarrow> sock_filter list \<Rightarrow> fault + u32" where
  "sk_run_filter env skb fentry = run_from env skb fentry 0 bpf_init"

subsection \<open>The checker\<close>

text \<open>
  \<open>check_load_and_stores\<close>: one bit of \<open>memvalid\<close> per cell of \<open>mem\<close>, one mask per
  instruction for what holds at a jump target. \<open>kmalloc_ok\<close> says whether the allocation
  of the masks succeeds. An index outside \<open>masks\<close> is a fault.
\<close>

definition mask_and :: "u16 list \<Rightarrow> nat \<Rightarrow> u16 \<Rightarrow> fault + u16 list" where
  "mask_and masks i v =
     (if i < length masks then Inr (masks[i := masks ! i AND v]) else Inl Mem_oob)"

text \<open>The groups of \<open>case\<close> labels that the two passes treat alike.\<close>

definition store_ops :: "bpf_s set" where
  "store_ops = {BPF_S_ST, BPF_S_STX}"

definition load_ops :: "bpf_s set" where
  "load_ops = {BPF_S_LD_MEM, BPF_S_LDX_MEM}"

definition cond_jumps :: "bpf_s set" where
  "cond_jumps =
     {BPF_S_JMP_JEQ_K, BPF_S_JMP_JEQ_X, BPF_S_JMP_JGE_K, BPF_S_JMP_JGE_X,
      BPF_S_JMP_JGT_K, BPF_S_JMP_JGT_X, BPF_S_JMP_JSET_X, BPF_S_JMP_JSET_K}"

fun check_loop :: "sock_filter list \<Rightarrow> nat \<Rightarrow> u16 list \<Rightarrow> u16 \<Rightarrow> fault + errno option" where
  "check_loop [] pc masks memvalid = Inr None"
| "check_loop (f # fs) pc masks memvalid =
     (let memvalid = memvalid AND masks ! pc in
      case bpf_s_of (sf_code f) of
        None \<Rightarrow> check_loop fs (pc + 1) masks memvalid
      | Some c \<Rightarrow>
          (if c \<in> store_ops then
             check_loop fs (pc + 1) masks (memvalid OR push_bit (unat (sf_k f)) 1)
           else if c \<in> load_ops then
             (if memvalid AND push_bit (unat (sf_k f)) 1 = 0 then Inr (Some EINVAL)
              else check_loop fs (pc + 1) masks memvalid)
           else if c = BPF_S_JMP_JA then
             bind_fault (mask_and masks (pc + 1 + unat (sf_k f)) memvalid)
               (\<lambda>masks. check_loop fs (pc + 1) masks (NOT 0))
           else if c \<in> cond_jumps then
             bind_fault (mask_and masks (pc + 1 + unat (sf_jt f)) memvalid) (\<lambda>masks.
             bind_fault (mask_and masks (pc + 1 + unat (sf_jf f)) memvalid) (\<lambda>masks.
               check_loop fs (pc + 1) masks (NOT 0)))
           else check_loop fs (pc + 1) masks memvalid))"

definition check_load_and_stores :: "bool \<Rightarrow> sock_filter list \<Rightarrow> fault + errno option" where
  "check_load_and_stores kmalloc_ok insns =
     (if \<not> kmalloc_ok then Inr (Some ENOMEM)
      else check_loop insns 0 (replicate (length insns) (NOT 0)) 0)"

text \<open>
  The table \<open>codes[]\<close> of \<open>sk_chk_filter\<close>, from the user's codes (\<open>BPF_ALU|BPF_ADD|BPF_K\<close> is
  \<open>0x04\<close>, and so on) to the internal ones; entries not named are \<open>0\<close>, invalid.
\<close>

definition codes_table :: "(u16 \<times> bpf_s) list" where
  "codes_table =
     [(0x04, BPF_S_ALU_ADD_K), (0x0c, BPF_S_ALU_ADD_X), (0x14, BPF_S_ALU_SUB_K),
      (0x1c, BPF_S_ALU_SUB_X), (0x24, BPF_S_ALU_MUL_K), (0x2c, BPF_S_ALU_MUL_X),
      (0x3c, BPF_S_ALU_DIV_X), (0x54, BPF_S_ALU_AND_K), (0x5c, BPF_S_ALU_AND_X),
      (0x44, BPF_S_ALU_OR_K), (0x4c, BPF_S_ALU_OR_X), (0x64, BPF_S_ALU_LSH_K),
      (0x6c, BPF_S_ALU_LSH_X), (0x74, BPF_S_ALU_RSH_K), (0x7c, BPF_S_ALU_RSH_X),
      (0x84, BPF_S_ALU_NEG), (0x20, BPF_S_LD_W_ABS), (0x28, BPF_S_LD_H_ABS),
      (0x30, BPF_S_LD_B_ABS), (0x80, BPF_S_LD_W_LEN), (0x40, BPF_S_LD_W_IND),
      (0x48, BPF_S_LD_H_IND), (0x50, BPF_S_LD_B_IND), (0x00, BPF_S_LD_IMM),
      (0x81, BPF_S_LDX_W_LEN), (0xb1, BPF_S_LDX_B_MSH), (0x01, BPF_S_LDX_IMM),
      (0x07, BPF_S_MISC_TAX), (0x87, BPF_S_MISC_TXA), (0x06, BPF_S_RET_K),
      (0x16, BPF_S_RET_A), (0x34, BPF_S_ALU_DIV_K), (0x60, BPF_S_LD_MEM),
      (0x61, BPF_S_LDX_MEM), (0x02, BPF_S_ST), (0x03, BPF_S_STX),
      (0x05, BPF_S_JMP_JA), (0x15, BPF_S_JMP_JEQ_K), (0x1d, BPF_S_JMP_JEQ_X),
      (0x35, BPF_S_JMP_JGE_K), (0x3d, BPF_S_JMP_JGE_X), (0x25, BPF_S_JMP_JGT_K),
      (0x2d, BPF_S_JMP_JGT_X), (0x45, BPF_S_JMP_JSET_K), (0x4d, BPF_S_JMP_JSET_X)]"

definition ARRAY_SIZE_codes :: nat where
  "ARRAY_SIZE_codes = 0xb2"

text \<open>The \<open>ANCILLARY\<close> cases: loads at \<open>SKF_AD_OFF + SKF_AD_...\<close>.\<close>

definition ancillary :: "(int \<times> bpf_s) list" where
  "ancillary =
     [(0, BPF_S_ANC_PROTOCOL), (4, BPF_S_ANC_PKTTYPE), (8, BPF_S_ANC_IFINDEX),
      (12, BPF_S_ANC_NLATTR), (16, BPF_S_ANC_NLATTR_NEST), (20, BPF_S_ANC_MARK),
      (24, BPF_S_ANC_QUEUE), (28, BPF_S_ANC_HATYPE), (32, BPF_S_ANC_RXHASH),
      (36, BPF_S_ANC_CPU)]"

text \<open>
  The body of the loop on the instruction at \<open>pc\<close>: \<open>None\<close> is \<open>-EINVAL\<close>, otherwise the
  rewritten instruction.
\<close>

definition chk_insn :: "nat \<Rightarrow> nat \<Rightarrow> sock_filter \<Rightarrow> sock_filter option" where
  "chk_insn flen pc ftest =
     (if unat (sf_code ftest) \<ge> ARRAY_SIZE_codes then None
      else case map_of codes_table (sf_code ftest) of
        None \<Rightarrow> None
      | Some c \<Rightarrow>
          (let done = Some (ftest\<lparr>sf_code := bpf_s_code c\<rparr>) in
           if c = BPF_S_ALU_DIV_K then
             (if sf_k ftest = 0 then None
              else Some (ftest\<lparr>sf_code := bpf_s_code c, sf_k := reciprocal_value (sf_k ftest)\<rparr>))
           else if c \<in> load_ops \<union> store_ops then
             (if unat (sf_k ftest) \<ge> BPF_MEMWORDS then None else done)
           else if c = BPF_S_JMP_JA then
             (if unat (sf_k ftest) \<ge> flen - pc - 1 then None else done)
           else if c \<in> cond_jumps then
             (if pc + unat (sf_jt ftest) + 1 \<ge> flen \<or> pc + unat (sf_jf ftest) + 1 \<ge> flen
              then None else done)
           else if c \<in> {BPF_S_LD_W_ABS, BPF_S_LD_H_ABS, BPF_S_LD_B_ABS} then
             (case map_of ancillary (sint (sf_k ftest) - SKF_AD_OFF) of
                None \<Rightarrow> done
              | Some anc \<Rightarrow> Some (ftest\<lparr>sf_code := bpf_s_code anc\<rparr>))
           else done))"

text \<open>The loop over the instructions, with the rewritten prefix kept when it stops early.\<close>

fun chk_loop :: "nat \<Rightarrow> nat \<Rightarrow> sock_filter list \<Rightarrow> bool \<times> sock_filter list" where
  "chk_loop flen pc [] = (True, [])"
| "chk_loop flen pc (f # fs) =
     (case chk_insn flen pc f of
        None \<Rightarrow> (False, f # fs)
      | Some f' \<Rightarrow> (let (ok, fs') = chk_loop flen (pc + 1) fs in (ok, f' # fs')))"

definition sk_chk_filter :: "bool \<Rightarrow> sock_filter list \<Rightarrow> (fault + errno option) \<times> sock_filter list" where
  "sk_chk_filter kmalloc_ok insns =
     (let flen = length insns in
      if flen = 0 \<or> flen > BPF_MAXINSNS then (Inr (Some EINVAL), insns)
      else
        let (ok, insns') = chk_loop flen 0 insns in
        if \<not> ok then (Inr (Some EINVAL), insns')
        else if bpf_s_of (sf_code (insns' ! (flen - 1))) \<in> {Some BPF_S_RET_K, Some BPF_S_RET_A}
        then (check_load_and_stores kmalloc_ok insns', insns')
        else (Inr (Some EINVAL), insns'))"

end
