(* ===== verification/Bpf_Safety.thy ===== *)
theory Bpf_Safety
  imports Bpf_Filter
begin

text \<open>
  What the checker of the socket filter (\<open>net/core/filter.c\<close>) promises to the interpreter.  The
  checker's bit masks are turned into a flow-insensitive assignment \<open>V\<close> of initialised scratch words
  to program counters (\<open>flow_from\<close>); an accepted program keeps \<open>mem_inv\<close> along every step, so the
  interpreter never leaves the program, never indexes outside the sixteen scratch words and never reads
  one of them before it is written.  On a well-formed packet it also stays inside the packet, apart from
  the two netlink instructions, whose tests are wrong and for which concrete programs are given.
\<close>

text \<open>Concrete inputs: a linear packet holding the given bytes, and an instruction without jump offsets.\<close>

definition some_env :: bpf_env where
  "some_env = \<lparr>raw_smp_processor_id = 0, undef_lsh = (\<lambda>_ _. 0), undef_rsh = (\<lambda>_ _. 0)\<rparr>"

definition linear_skb :: "u8 list \<Rightarrow> sk_buff" where
  "linear_skb bs = \<lparr>sb_data = Skb_data (of_nat (length bs)) 0 bs [] [], sb_headroom = [],
     network_header = 0, mac_header = 0, protocol = (8, 0), pkt_type = 0, sb_dev = None,
     sb_mark = 0, queue_mapping = 0, rxhash = 0\<rparr>"

definition insn :: "u16 \<Rightarrow> u32 \<Rightarrow> sock_filter" where
  "insn c kk = \<lparr>sf_code = c, sf_jt = 0, sf_jf = 0, sf_k = kk\<rparr>"

definition nlattr_prog :: "u32 \<Rightarrow> u32 \<Rightarrow> sock_filter list" where
  "nlattr_prog a anc = [insn 0x00 a, insn 0x01 7, insn 0x20 anc, insn 0x16 0]"

definition branch_prog :: "sock_filter list" where
  "branch_prog = [insn 0x30 0, insn 0x02 3, \<lparr>sf_code = 0x15, sf_jt = 0, sf_jf = 1, sf_k = 7\<rparr>,
     insn 0x60 3, insn 0x16 0]"

definition insn_ok :: "nat \<Rightarrow> nat \<Rightarrow> sock_filter \<Rightarrow> bool" where
  "insn_ok n pc f \<longleftrightarrow>
     (case bpf_s_of (sf_code f) of
        None \<Rightarrow> False
      | Some c \<Rightarrow>
          (c \<in> load_ops \<union> store_ops \<longrightarrow> unat (sf_k f) < BPF_MEMWORDS)
        \<and> (c = BPF_S_JMP_JA \<longrightarrow> pc + unat (sf_k f) + 1 < n)
        \<and> (c \<in> cond_jumps \<longrightarrow> pc + unat (sf_jt f) + 1 < n \<and> pc + unat (sf_jf f) + 1 < n))"

definition sub16 :: "u16 \<Rightarrow> u16 \<Rightarrow> bool" where
  "sub16 x y \<longleftrightarrow> (\<forall>b. bit x b \<longrightarrow> bit y b)"

definition flow_ok :: "(nat \<Rightarrow> u16) \<Rightarrow> nat \<Rightarrow> sock_filter \<Rightarrow> bool" where
  "flow_ok V i f \<longleftrightarrow>
     (case bpf_s_of (sf_code f) of
        None \<Rightarrow> True
      | Some c \<Rightarrow>
         (if c \<in> store_ops then sub16 (V (i + 1)) (V i OR push_bit (unat (sf_k f)) 1)
          else if c \<in> load_ops then bit (V i) (unat (sf_k f)) \<and> sub16 (V (i + 1)) (V i)
          else if c = BPF_S_JMP_JA then sub16 (V (i + 1 + unat (sf_k f))) (V i)
          else if c \<in> cond_jumps then sub16 (V (i + 1 + unat (sf_jt f))) (V i) \<and> sub16 (V (i + 1 + unat (sf_jf f))) (V i)
          else sub16 (V (i + 1)) (V i)))"

definition flow_from :: "sock_filter list \<Rightarrow> nat \<Rightarrow> u16 list \<Rightarrow> u16 \<Rightarrow> (nat \<Rightarrow> u16) \<Rightarrow> bool" where
  "flow_from fs pc masks mv V \<longleftrightarrow>
     sub16 (V pc) mv \<and> (\<forall>j. pc \<le> j \<longrightarrow> j < length masks \<longrightarrow> sub16 (V j) (masks ! j))
     \<and> (\<forall>i < length fs. flow_ok V (pc + i) (fs ! i))"

definition mem_inv :: "(nat \<Rightarrow> u16) \<Rightarrow> nat \<Rightarrow> bpf_state \<Rightarrow> bool" where
  "mem_inv V pc s \<longleftrightarrow> length (mem s) = BPF_MEMWORDS
     \<and> (\<forall>b < BPF_MEMWORDS. bit (V pc) b \<longrightarrow> mem s ! b \<noteq> None)"

definition prog_ok :: "(nat \<Rightarrow> u16) \<Rightarrow> sock_filter list \<Rightarrow> bool" where
  "prog_ok V prog \<longleftrightarrow> prog \<noteq> [] \<and>
     (\<forall>i < length prog. insn_ok (length prog) i (prog ! i) \<and> flow_ok V i (prog ! i))
     \<and> bpf_s_of (sf_code (last prog)) \<in> {Some BPF_S_RET_K, Some BPF_S_RET_A}"

definition uses_op :: "bpf_s \<Rightarrow> sock_filter list \<Rightarrow> bool" where
  "uses_op c prog \<longleftrightarrow> list_ex (\<lambda>f. bpf_s_of (sf_code f) = Some c) prog"

lemma bpf_s_of_code [simp]: "bpf_s_of (bpf_s_code c) = Some c"
  by (cases c) (simp_all add: bpf_s_of_def bpf_s_code_def bpf_s_enum_def)

lemmas op_groups = store_ops_def load_ops_def cond_jumps_def

lemma ancillary_range: "map_of ancillary i = Some a \<Longrightarrow> a \<notin> load_ops \<union> store_ops \<union> cond_jumps \<union> {BPF_S_JMP_JA}"
  by (auto simp: ancillary_def op_groups split: if_splits)

lemma op_disjoint: "BPF_S_ALU_DIV_K \<notin> load_ops" "BPF_S_ALU_DIV_K \<notin> store_ops" "BPF_S_ALU_DIV_K \<notin> cond_jumps"
   "BPF_S_JMP_JA \<notin> load_ops" "BPF_S_JMP_JA \<notin> store_ops" "BPF_S_JMP_JA \<notin> cond_jumps"
   "c \<in> cond_jumps \<Longrightarrow> c \<notin> load_ops" "c \<in> cond_jumps \<Longrightarrow> c \<notin> store_ops" "c \<in> store_ops \<Longrightarrow> c \<notin> load_ops"
   "c \<in> cond_jumps \<Longrightarrow> c \<noteq> BPF_S_JMP_JA"
  by (auto simp: op_groups)

lemma chk_insn_ok: "chk_insn n pc f = Some f' \<Longrightarrow> insn_ok n pc f'"
  by (auto simp: chk_insn_def Let_def insn_ok_def op_disjoint split: if_splits option.splits
      dest!: ancillary_range)

lemma chk_loop_ok:
  "chk_loop n pc fs = (True, fs') \<Longrightarrow>
     length fs' = length fs \<and> (\<forall>i < length fs'. insn_ok n (pc + i) (fs' ! i))"
proof (induction n pc fs arbitrary: fs' rule: chk_loop.induct)
  case (1 flen pc)
  then show ?case by simp
next
  case (2 flen pc f fs)
  then obtain f' gs where f': "chk_insn flen pc f = Some f'" and gs: "chk_loop flen (pc + 1) fs = (True, gs)"
    and fs': "fs' = f' # gs"
    by (auto split: option.splits prod.splits)
  from 2(1) [OF f' gs] have IH: "length gs = length fs" "\<And>i. i < length gs \<Longrightarrow> insn_ok flen (pc + 1 + i) (gs ! i)"
    by auto
  show ?case using IH chk_insn_ok [OF f'] by (auto simp: fs' nth_Cons split: nat.splits)
qed

lemma sub16_simps [simp]: "sub16 x x" "sub16 0 x" "sub16 x (NOT 0)"
   "sub16 x (y AND z) \<longleftrightarrow> sub16 x y \<and> sub16 x z" "sub16 (x AND y) x" "sub16 (x AND y) y"
  by (auto simp: sub16_def bit_simps dest: bit_imp_le_length)

lemma sub16_trans: "sub16 x y \<Longrightarrow> sub16 y z \<Longrightarrow> sub16 x z"
  by (auto simp: sub16_def)

lemma flow_ok_cong: "(\<And>j. i \<le> j \<Longrightarrow> V j = W j) \<Longrightarrow> flow_ok V i f = flow_ok W i f"
  by (auto simp: flow_ok_def split: option.splits)

lemma mask_and_Inr:
  "mask_and masks i v = Inr ms \<Longrightarrow> length ms = length masks \<and> i < length masks
     \<and> (\<forall>j < length masks. sub16 (ms ! j) (masks ! j)) \<and> sub16 (ms ! i) v"
  by (auto simp: mask_and_def nth_list_update split: if_splits)

lemma and_bit_nonzero: "(w :: u16) AND push_bit n 1 \<noteq> 0 \<Longrightarrow> bit w n"
  by (rule ccontr, erule notE, rule bit_word_eqI) (auto simp: bit_simps)

lemma flow_from_mask:
  assumes "mask_and masks t v = Inr ms" "flow_from fs p ms mv V" "p \<le> t"
  shows "sub16 (V t) v" "flow_from fs p masks mv V"
proof -
  note m = mask_and_Inr [OF assms(1)]
  have sub: "sub16 (V j) (ms ! j)" if "p \<le> j" "j < length masks" for j
    using assms(2) that m by (simp add: flow_from_def)
  show "sub16 (V t) v" using m sub [of t] assms(3) by (blast intro: sub16_trans)
  show "flow_from fs p masks mv V"
    using assms(2) m sub unfolding flow_from_def by (blast intro: sub16_trans)
qed

lemma flow_from_Cons:
  assumes V: "flow_from fs (pc + 1) masks mv' V"
    and ok: "\<And>V'. V' pc = mv AND masks ! pc \<Longrightarrow> (\<And>j. pc + 1 \<le> j \<Longrightarrow> V' j = V j) \<Longrightarrow> flow_ok V' pc f"
  shows "\<exists>V. flow_from (f # fs) pc masks mv V"
proof (intro exI [of _ "V(pc := mv AND masks ! pc)"])
  let ?W = "V(pc := mv AND masks ! pc)"
  have "flow_ok ?W (pc + i) ((f # fs) ! i)" if "i < length (f # fs)" for i
  proof (cases i)
    case 0
    then show ?thesis using ok by simp
  next
    case (Suc i')
    have "flow_ok V (pc + 1 + i') (fs ! i')" using V that Suc by (simp add: flow_from_def)
    moreover have "flow_ok ?W (pc + 1 + i') (fs ! i') = flow_ok V (pc + 1 + i') (fs ! i')"
      by (rule flow_ok_cong) auto
    ultimately show ?thesis using Suc by simp
  qed
  moreover have "sub16 (?W j) (masks ! j)" if "pc \<le> j" "j < length masks" for j
    using V that by (cases "j = pc") (auto simp: flow_from_def)
  ultimately show "flow_from (f # fs) pc masks mv ?W" by (simp add: flow_from_def)
qed

lemma check_loop_cases:
  assumes "check_loop (f # fs) pc masks mv = Inr None"
  defines "v \<equiv> mv AND masks ! pc"
  obtains (straight) mv' where "check_loop fs (pc + 1) masks mv' = Inr None"
      "\<And>V W. flow_from fs (pc + 1) masks mv' V \<Longrightarrow> W pc = v \<Longrightarrow> (\<And>j. pc + 1 \<le> j \<Longrightarrow> W j = V j)
         \<Longrightarrow> flow_ok W pc f"
  | (jump) ms where "mask_and masks (pc + 1 + unat (sf_k f)) v = Inr ms"
      "check_loop fs (pc + 1) ms (NOT 0) = Inr None" "bpf_s_of (sf_code f) = Some BPF_S_JMP_JA"
  | (cond) c ms ms2 where "mask_and masks (pc + 1 + unat (sf_jt f)) v = Inr ms"
      "mask_and ms (pc + 1 + unat (sf_jf f)) v = Inr ms2"
      "check_loop fs (pc + 1) ms2 (NOT 0) = Inr None" "bpf_s_of (sf_code f) = Some c" "c \<in> cond_jumps"
proof (cases "bpf_s_of (sf_code f)")
  case None
  then show ?thesis using assms by (intro straight [of v]) (simp_all add: flow_ok_def Let_def)
next
  case (Some c)
  note chk = assms(1) [unfolded check_loop.simps Some Let_def option.case, folded v_def]
  consider (st) "c \<in> store_ops" | (ld) "c \<in> load_ops" "c \<notin> store_ops" | (ja) "c = BPF_S_JMP_JA"
    | (cj) "c \<in> cond_jumps" | (oth) "c \<notin> store_ops" "c \<notin> load_ops" "c \<noteq> BPF_S_JMP_JA" "c \<notin> cond_jumps"
    by blast
  then show ?thesis
  proof cases
    case st
    then show ?thesis using chk
      by (intro straight [of "v OR push_bit (unat (sf_k f)) 1"]) (simp_all add: flow_ok_def Some flow_from_def)
  next
    case ld
    then have "bit v (unat (sf_k f))" "check_loop fs (pc + 1) masks v = Inr None"
      using chk by (auto intro: and_bit_nonzero split: if_splits)
    then show ?thesis using ld by (intro straight [of v]) (simp_all add: flow_ok_def Some flow_from_def)
  next
    case ja
    then show ?thesis using chk Some by (auto simp: op_disjoint bind_fault_eq_Inr intro: jump)
  next
    case cj
    then show ?thesis using chk Some by (auto simp: op_disjoint bind_fault_eq_Inr intro: cond)
  next
    case oth
    then show ?thesis using chk by (intro straight [of v]) (simp_all add: flow_ok_def Some flow_from_def)
  qed
qed

lemma check_loop_flow:
  assumes "check_loop fs pc masks mv = Inr None" "pc + length fs \<le> length masks"
  shows "\<exists>V. flow_from fs pc masks mv V"
  using assms
proof (induction fs arbitrary: pc masks mv)
  case Nil
  then show ?case by (intro exI [of _ "\<lambda>_. 0"]) (simp add: flow_from_def)
next
  case (Cons f fs)
  have rest: "pc + 1 + length fs \<le> length masks" using Cons.prems by simp
  from Cons.prems(1) show ?case
  proof (cases rule: check_loop_cases)
    case (straight mv')
    with Cons.IH rest obtain V where V: "flow_from fs (pc + 1) masks mv' V" by blast
    show ?thesis by (rule flow_from_Cons [OF V]) (rule straight(2) [OF V])
  next
    case (jump ms)
    with Cons.IH rest mask_and_Inr [OF jump(1)] obtain V where V: "flow_from fs (pc + 1) ms (NOT 0) V" by metis
    show ?thesis
      using flow_from_mask [OF jump(1) V] by (intro flow_from_Cons) (auto simp: flow_ok_def jump op_disjoint)
  next
    case (cond c ms ms2)
    with Cons.IH rest mask_and_Inr [OF cond(1)] mask_and_Inr [OF cond(2)]
    obtain V where V: "flow_from fs (pc + 1) ms2 (NOT 0) V" by metis
    have jf: "sub16 (V (pc + 1 + unat (sf_jf f))) (mv AND masks ! pc)" and V2: "flow_from fs (pc + 1) ms (NOT 0) V"
      using flow_from_mask [OF cond(2) V] by auto
    show ?thesis
      using flow_from_mask [OF cond(1) V2] jf
      by (intro flow_from_Cons) (auto simp: flow_ok_def cond op_disjoint)
  qed
qed

lemma mem_inv_mono: "mem_inv V pc s \<Longrightarrow> sub16 (V pc') (V pc) \<Longrightarrow> mem s' = mem s \<Longrightarrow> mem_inv V pc' s'"
  by (auto simp: mem_inv_def sub16_def)


lemma mem_inv_store:
  assumes "mem_inv V pc s" "sub16 (V pc') (V pc OR push_bit kk 1)" "mem s' = (mem s)[kk := Some v]"
  shows "mem_inv V pc' s'"
proof -
  have "bit (V pc) b \<or> b = kk" if "bit (V pc') b" for b
    using assms(2) that by (force simp: sub16_def bit_simps)
  then show ?thesis using assms(1,3)
    by (auto simp: mem_inv_def) (metis nth_list_update_eq nth_list_update_neq)
qed

lemma mem_slice_Inl: "mem_slice xs a n = Inl e \<Longrightarrow> e = Packet_oob"
  by (auto simp: mem_slice_def split: if_splits)

lemma copy_frags_Inl: "copy_frags fs st a n to = Inl e \<Longrightarrow> e = Packet_oob"
  by (induction fs st a n to rule: copy_frags.induct)
    (auto simp: Let_def bind_fault_def mem_slice_Inl split: if_splits sum.splits)

lemma skb_copy_bits_Inl:
  "skb_copy_bits d a n = Inl e \<Longrightarrow> e = Packet_oob"
  "copy_frag_list ds st a n to = Inl e \<Longrightarrow> e = Packet_oob"
  by (induction d a n and ds st a n to rule: skb_copy_bits_copy_frag_list.induct)
    (auto simp: Let_def bind_fault_def mem_slice_Inl copy_frags_Inl
       split: if_splits sum.splits copy_state.splits option.splits)

lemma read_linear_Inl: "read_linear skb a n = Inl e \<Longrightarrow> e = Packet_oob"
  by (simp add: read_linear_def mem_slice_Inl)

lemma read_u16_Inl: "read_u16 skb a = Inl e \<Longrightarrow> e = Packet_oob"
  by (auto simp: read_u16_def bind_fault_def read_linear_Inl split: sum.splits)

lemma nla_find_Inl: "nla_find skb a n t = Inl e \<Longrightarrow> e = Packet_oob"
proof (induction skb a n t rule: nla_find.induct)
  case (1 skb nla rem attrtype)
  have IH: "nla_find skb (nla + nla_align (uint x)) (rem - nla_align (uint x)) attrtype = Inl e
      \<Longrightarrow> e = Packet_oob"
    if "read_u16 skb nla = Inr x" "\<not> uint x < 4" "\<not> rem < uint x" "read_u16 skb (nla + 2) = Inr y"
      "nla_type_of y \<noteq> attrtype" for x y
    using "1.IH" [OF _ that(1) _ that(4,5) refl] that by auto
  show ?case using "1.prems"
    by (auto simp: nla_find.simps [of skb nla rem attrtype] Let_def split: if_splits sum.splits
        dest: read_u16_Inl IH)
qed

lemma load_bytes_cases:
  "load_bytes skb kk sz use = Inl e \<Longrightarrow> e = Packet_oob"
  "load_bytes skb kk sz use = Inr (Next s' off) \<Longrightarrow> off = 0 \<and> (\<exists>bs. s' = use bs)"
  by (auto simp: load_bytes_def load_pointer_def skb_header_pointer_def ptr_read_def Let_def bind_fault_def
      skb_copy_bits_Inl read_linear_Inl mem_slice_Inl
      split: if_splits sum.splits option.splits skb_ptr.splits)

lemma exec_alu_Next:
  "exec_alu env c K s = Some (Next s' off) \<Longrightarrow> off = 0 \<and> mem s' = mem s \<and> c \<notin> load_ops \<union> store_ops \<union> cond_jumps \<union> {BPF_S_JMP_JA}"
  by (cases c) (auto simp: exec_alu_def op_groups Let_def split: if_splits)

lemma exec_jmp_Next:
  "exec_jmp c f s = Some (Next s' off) \<Longrightarrow> s' = s \<and>
    (c = BPF_S_JMP_JA \<and> off = unat (sf_k f) \<or> c \<in> cond_jumps \<and> (off = unat (sf_jt f) \<or> off = unat (sf_jf f)))"
  by (cases c) (auto simp: exec_jmp_def op_groups Let_def split: if_splits)


lemma exec_anc_cases:
  "exec_anc env skb c s = Some (Inl e) \<Longrightarrow> e = Packet_oob"
  "exec_anc env skb c s = Some (Inr (Next s' off)) \<Longrightarrow> off = 0 \<and> mem s' = mem s \<and> c \<notin> load_ops \<union> store_ops \<union> cond_jumps \<union> {BPF_S_JMP_JA}"
  by (cases c; auto simp: exec_anc_def op_groups Let_def exec_nlattr_def exec_nlattr_nest_def nla_find_nested_def bind_fault_def
       nla_find_Inl read_u16_Inl split: if_splits option.splits sum.splits)+

lemma exec_ld_st_cases:
  assumes "mem_inv V pc s" "c \<in> load_ops \<union> store_ops \<longrightarrow> unat K < BPF_MEMWORDS"
    "c \<in> load_ops \<longrightarrow> bit (V pc) (unat K)"
  shows "exec_ld_st skb c K s = Some (Inl e) \<Longrightarrow> e = Packet_oob"
  "exec_ld_st skb c K s = Some (Inr (Next s' off)) \<Longrightarrow> off = 0 \<and> c \<notin> cond_jumps \<union> {BPF_S_JMP_JA}
     \<and> (c \<notin> store_ops \<and> mem s' = mem s \<or> c \<in> store_ops \<and> (\<exists>v. mem s' = (mem s)[unat K := Some v]))"
  using assms
  by (cases c; auto simp: exec_ld_st_def op_groups Let_def load_w_def load_h_def load_b_def
       mem_load_def mem_store_def mem_inv_def dest: load_bytes_cases split: if_splits option.splits)+


lemma exec_insn_safe:
  assumes ok: "insn_ok n pc f" and inv: "mem_inv V pc s" and flow: "flow_ok V pc f"
  shows "exec_insn env skb f s = Inl e \<Longrightarrow> e = Packet_oob"
    and "exec_insn env skb f s = Inr (Next s' off) \<Longrightarrow> mem_inv V (pc + off + 1) s'
      \<and> (off = 0 \<or> pc + off + 1 < n)"
proof -
  from ok obtain c where c: "bpf_s_of (sf_code f) = Some c"
    and k: "c \<in> load_ops \<union> store_ops \<longrightarrow> unat (sf_k f) < BPF_MEMWORDS"
    and ja: "c = BPF_S_JMP_JA \<longrightarrow> pc + unat (sf_k f) + 1 < n"
    and cj: "c \<in> cond_jumps \<longrightarrow> pc + unat (sf_jt f) + 1 < n \<and> pc + unat (sf_jf f) + 1 < n"
    by (auto simp: insn_ok_def split: option.splits)
  have ld: "c \<in> load_ops \<longrightarrow> bit (V pc) (unat (sf_k f))"
    using flow c by (auto simp: flow_ok_def dest: op_disjoint(9) split: if_splits)
  note ldst = exec_ld_st_cases [OF inv k ld]
  show "exec_insn env skb f s = Inl e \<Longrightarrow> e = Packet_oob"
    using ldst(1) exec_anc_cases(1) by (auto simp: exec_insn_def c split: option.splits)
  assume "exec_insn env skb f s = Inr (Next s' off)"
  then consider
      (alu) "exec_alu env c (sf_k f) s = Some (Next s' off)"
    | (jmp) "exec_jmp c f s = Some (Next s' off)"
    | (ldst) "exec_ld_st skb c (sf_k f) s = Some (Inr (Next s' off))"
    | (anc) "exec_anc env skb c s = Some (Inr (Next s' off))"
    by (auto simp: exec_insn_def c split: option.splits)
  then show "mem_inv V (pc + off + 1) s' \<and> (off = 0 \<or> pc + off + 1 < n)"
  proof cases
    case alu
    then show ?thesis using exec_alu_Next [OF alu] flow inv
      by (auto simp: flow_ok_def c intro: mem_inv_mono)
  next
    case jmp
    then show ?thesis using exec_jmp_Next [OF jmp] flow inv ja cj
      by (auto simp: flow_ok_def c op_disjoint add.commute add.left_commute intro: mem_inv_mono)
  next
    case ldst
    note r = exec_ld_st_cases(2) [OF inv k ld ldst]
    show ?thesis
    proof (cases "c \<in> store_ops")
      case True
      with r obtain v where "mem s' = (mem s)[unat (sf_k f) := Some v]" by auto
      with r flow c True inv show ?thesis by (auto simp: flow_ok_def intro: mem_inv_store)
    next
      case False
      with r have "mem s' = mem s" "off = 0" "c \<noteq> BPF_S_JMP_JA" "c \<notin> cond_jumps" by auto
      moreover from this flow c False have "sub16 (V (pc + 1)) (V pc)"
        by (auto simp: flow_ok_def split: if_splits)
      ultimately show ?thesis using inv by (auto intro: mem_inv_mono)
    qed
  next
    case anc
    then show ?thesis using exec_anc_cases(2) [OF anc] flow inv
      by (auto simp: flow_ok_def c intro: mem_inv_mono)
  qed
qed

lemma exec_ret: "bpf_s_of (sf_code f) \<in> {Some BPF_S_RET_K, Some BPF_S_RET_A} \<Longrightarrow> \<exists>v. exec_insn env skb f s = Inr (Return v)"
  by (auto simp: exec_insn_def exec_alu_def exec_jmp_def exec_ld_st_def Let_def)

lemma run_from_safe:
  "prog_ok V prog \<Longrightarrow> pc < length prog \<Longrightarrow> mem_inv V pc s \<Longrightarrow> run_from env skb prog pc s = Inl e \<Longrightarrow> e = Packet_oob"
proof (induction env skb prog pc s rule: run_from.induct)
  case (1 env skb prog pc s)
  note ok = "1.prems"(1)
  have i: "insn_ok (length prog) pc (prog ! pc)" "flow_ok V pc (prog ! pc)"
    using ok "1.prems"(2) by (auto simp: prog_ok_def)
  note safe = exec_insn_safe [OF i(1) "1.prems"(3) i(2), of env skb]
  show ?case
  proof (cases "exec_insn env skb (prog ! pc) s")
    case (Inl e')
    then show ?thesis using "1.prems"(2,4) safe(1) by (simp add: run_from.simps [of env skb prog pc s])
  next
    case (Inr r)
    show ?thesis
    proof (cases r)
      case (Return v)
      then show ?thesis using Inr "1.prems"(2,4) by (simp add: run_from.simps [of env skb prog pc s])
    next
      case (Next s' off)
      note nx = safe(2) [of s' off, OF Inr [unfolded Next]]
      have "pc + off + 1 < length prog"
      proof (cases "pc + 1 = length prog")
        case True
        then have "prog ! pc = last prog" using ok by (metis add_diff_cancel_right' last_conv_nth prog_ok_def)
        then have "\<exists>v. exec_insn env skb (prog ! pc) s = Inr (Return v)"
          using ok by (intro exec_ret) (auto simp: prog_ok_def)
        then show ?thesis using Inr Next by simp
      next
        case False
        then show ?thesis using nx "1.prems"(2) by auto
      qed
      moreover have "run_from env skb prog (pc + off + 1) s' = Inl e"
        using Inr Next "1.prems"(2,4) by (simp add: run_from.simps [of env skb prog pc s])
      ultimately show ?thesis using "1.IH" [OF "1.prems"(2) Inr Next ok] nx by simp
    qed
  qed
qed

lemma check_loop_no_fault:
  assumes "pc + length fs = length masks" "\<forall>i < length fs. insn_ok (length masks) (pc + i) (fs ! i)"
  shows "\<exists>r. check_loop fs pc masks mv = Inr r"
  using assms
proof (induction fs arbitrary: pc masks mv)
  case Nil
  then show ?case by simp
next
  case (Cons f fs)
  have f: "insn_ok (length masks) pc f" using Cons.prems(2) by force
  have rest: "\<forall>i < length fs. insn_ok (length masks) (pc + 1 + i) (fs ! i)"
    using Cons.prems(2) by force
  have IH: "\<exists>r. check_loop fs (pc + 1) ms mv' = Inr r" if "length ms = length masks" for ms mv'
    using Cons.prems(1) rest that by (intro Cons.IH) auto
  show ?case
    using f IH by (auto simp: insn_ok_def Let_def mask_and_def bind_fault_def split: option.splits)
qed

lemma sk_chk_filter_cases:
  assumes "sk_chk_filter kok raw = (r, prog)"
  obtains (early) "r = Inr (Some EINVAL)"
  | (loop) "length prog = length raw" "raw \<noteq> []" "r = check_load_and_stores kok prog"
      "\<forall>i < length prog. insn_ok (length prog) i (prog ! i)"
      "bpf_s_of (sf_code (last prog)) \<in> {Some BPF_S_RET_K, Some BPF_S_RET_A}"
proof (cases "length raw = 0 \<or> length raw > BPF_MAXINSNS \<or> \<not> fst (chk_loop (length raw) 0 raw)")
  case True
  then show ?thesis using assms early by (auto simp: sk_chk_filter_def Let_def split: prod.splits if_splits)
next
  case False
  then obtain fs' where fs': "chk_loop (length raw) 0 raw = (True, fs')"
    by (cases "chk_loop (length raw) 0 raw") auto
  note ok = chk_loop_ok [OF fs']
  show ?thesis
  proof (cases "bpf_s_of (sf_code (fs' ! (length raw - 1))) \<in> {Some BPF_S_RET_K, Some BPF_S_RET_A}")
    case True
    with assms fs' False have "r = check_load_and_stores kok prog" "prog = fs'"
      by (auto simp: sk_chk_filter_def Let_def)
    moreover have "last fs' = fs' ! (length raw - 1)" using ok False by (subst last_conv_nth) auto
    ultimately show ?thesis using ok False True by (intro loop) auto
  next
    case ret: False
    with assms fs' False show ?thesis by (intro early) (auto simp: sk_chk_filter_def Let_def)
  qed
qed

lemma sk_chk_filter_prog_ok:
  assumes "sk_chk_filter kok raw = (Inr None, prog)"
  shows "\<exists>V. prog_ok V prog \<and> mem_inv V 0 bpf_init"
  using assms
proof (cases rule: sk_chk_filter_cases)
  case loop
  then have "check_loop prog 0 (replicate (length prog) (NOT 0)) 0 = Inr None"
    by (auto simp: check_load_and_stores_def split: if_splits)
  from check_loop_flow [OF this] obtain V where V: "flow_from prog 0 (replicate (length prog) (NOT 0)) 0 V"
    by auto
  then have "prog_ok V prog" using loop by (auto simp: prog_ok_def flow_from_def)
  moreover have "mem_inv V 0 bpf_init"
    using V by (auto simp: mem_inv_def bpf_init_def flow_from_def sub16_def)
  ultimately show ?thesis by blast
qed simp

lemma skb_wf_linear:
  "skb_wf d \<Longrightarrow> sint (skb_headlen d) = int (length (skb_linear d)) \<and> sint (skb_len d) = int (unat (skb_len d))
     \<and> length (skb_linear d) \<le> unat (skb_len d)"
proof (cases d)
  case (Skb_data slen sdlen lin frags flist)
  assume wf: "skb_wf d"
  have "unat (slen - sdlen) = length lin"
    using wf Skb_data by (simp add: unat_sub word_le_nat_alt)
  then show ?thesis using wf Skb_data by (simp add: skb_headlen_def sint_u32_small)
qed

lemma read_linear_ok:
  assumes "- int (length (sb_headroom skb)) \<le> a" "0 \<le> n" "a + n \<le> int (length (skb_linear (sb_data skb)))"
  shows "\<exists>bs. read_linear skb a n = Inr bs"
  using assms by (auto simp: read_linear_def linear_mem_def mem_slice_def)

lemma load_bytes_ok:
  assumes wf: "skb_wf (sb_data skb)" and n: "0 < n"
  shows "load_bytes skb kk (int n) use \<noteq> Inl e"
proof -
  have "\<exists>r. bind_fault (ptr_read skb p (int n)) (\<lambda>bs. Inr (Next (use bs) 0)) = Inr r"
    if p: "load_pointer skb kk (int n) = Inr (Some p)" for p
  proof (cases "kk \<ge> 0")
    case True
    show ?thesis
    proof (cases "sint (skb_headlen (sb_data skb)) - kk \<ge> int n")
      case hd: True
      then have "p = In_linear kk" using p True by (simp add: load_pointer_def skb_header_pointer_def Let_def)
      moreover have "\<exists>bs. read_linear skb kk (int n) = Inr bs"
        using hd True skb_wf_linear [OF wf] by (intro read_linear_ok) auto
      ultimately show ?thesis by (auto simp: ptr_read_def)
    next
      case False
      then obtain bs where bs: "skb_copy_bits (sb_data skb) (int (nat kk)) (int n) = Inr (Some bs)" "p = In_buffer bs"
        using p True by (auto simp: load_pointer_def skb_header_pointer_def Let_def bind_fault_eq_Inr)
      then have "length bs = n" using skb.copy_length [OF wf n, of "nat kk"] by simp
      then show ?thesis using bs by (simp add: ptr_read_def mem_slice_def)
    qed
  next
    case False
    then show ?thesis using p read_linear_ok [of skb _ "int n"]
      by (auto simp: load_pointer_def load_pointer_neg_def Let_def ptr_read_def split: if_splits option.splits) force+
  qed
  moreover have "load_pointer skb kk (int n) \<noteq> Inl e"
    using skb.copy_no_fault [OF wf n, of "nat kk" e]
    by (auto simp: load_pointer_def skb_header_pointer_def Let_def bind_fault_def split: sum.splits)
  ultimately show ?thesis
    by (auto simp: load_bytes_def bind_fault_def split: sum.splits option.splits) 
qed

lemma read_u16_ok:
  assumes "0 \<le> a" "a + 2 \<le> int (length (skb_linear (sb_data skb)))"
  shows "\<exists>w. read_u16 skb a = Inr w"
  using read_linear_ok [of skb a 2] assms by (auto simp: read_u16_def)

lemma nla_find_ok:
  "0 \<le> nla \<Longrightarrow> nla + rem \<le> int (length (skb_linear (sb_data skb))) \<Longrightarrow> nla_find skb nla rem t \<noteq> Inl e"
proof (induction skb nla rem t rule: nla_find.induct)
  case (1 skb nla rem attrtype)
  show ?case
  proof (cases "rem < 4")
    case True
    then show ?thesis by (simp add: nla_find.simps [of skb nla rem attrtype])
  next
    case False
    obtain x where x: "read_u16 skb nla = Inr x" using read_u16_ok [of nla skb] "1.prems" False by auto
    obtain y where y: "read_u16 skb (nla + 2) = Inr y" using read_u16_ok [of "nla + 2" skb] "1.prems" False by auto
    show ?thesis
    proof (cases "uint x < 4 \<or> rem < uint x \<or> nla_type_of y = attrtype")
      case True
      then show ?thesis using x y False by (auto simp: nla_find.simps [of skb nla rem attrtype])
    next
      case go: False
      have "0 \<le> nla_align (uint x)" using uint_ge_0 [of x] by (simp add: nla_align_eq pos_imp_zdiv_nonneg_iff)
      then have "nla_find skb (nla + nla_align (uint x)) (rem - nla_align (uint x)) attrtype \<noteq> Inl e"
        using go by (intro "1.IH" [OF False x _ y _ refl]) (use "1.prems" in auto)
      then show ?thesis using x y False go by (simp add: nla_find.simps [of skb nla rem attrtype] Let_def)
    qed
  qed
qed

lemma exec_nlattr_ok:
  assumes wf: "skb_wf (sb_data skb)" and len: "4 \<le> unat (sb_len skb)"
  shows "exec_nlattr skb s \<noteq> Inl e"
proof (cases "skb_is_nonlinear skb \<or> reg_A s > sb_len skb - 4")
  case True
  then show ?thesis by (auto simp: exec_nlattr_def Let_def)
next
  case False
  let ?A = "reg_A s" and ?L = "sb_len skb"
  have L4: "unat (?L - 4) = unat ?L - 4" using len by (simp add: unat_sub word_le_nat_alt)
  have AL: "unat ?A \<le> unat ?L - 4" using False L4 by (simp add: word_le_nat_alt not_less)
  have small: "unat ?L < 2 ^ 31" using wf by (cases "sb_data skb") simp
  have lin: "length (skb_linear (sb_data skb)) = unat ?L"
    using wf False by (cases "sb_data skb") (simp add: skb_is_nonlinear_def)
  have "unat (?L - ?A) = unat ?L - unat ?A" using AL len by (simp add: unat_sub word_le_nat_alt)
  then have "sint (?L - ?A) = int (unat ?L) - int (unat ?A)" using small AL len
    by (subst sint_u32_small) auto
  then have "uint ?A + sint (?L - ?A) \<le> int (length (skb_linear (sb_data skb)))"
    using lin by simp
  then have "nla_find skb (uint ?A) (sint (?L - ?A)) (sint (reg_X s)) \<noteq> Inl e'" for e'
    by (intro nla_find_ok) simp_all
  then show ?thesis using False
    by (auto simp: exec_nlattr_def Let_def bind_fault_def split: sum.splits option.splits)
qed

lemma exec_insn_packet_ok:
  assumes wf: "skb_wf (sb_data skb)" and nest: "bpf_s_of (sf_code f) \<noteq> Some BPF_S_ANC_NLATTR_NEST"
    and nl: "bpf_s_of (sf_code f) = Some BPF_S_ANC_NLATTR \<Longrightarrow> 4 \<le> unat (sb_len skb)"
  shows "exec_insn env skb f s \<noteq> Inl Packet_oob"
proof (cases "bpf_s_of (sf_code f)")
  case None
  then show ?thesis by (simp add: exec_insn_def)
next
  case (Some c)
  note ld = load_bytes_ok [OF wf, of 4, simplified] load_bytes_ok [OF wf, of 2, simplified]
    load_bytes_ok [OF wf, of 1, simplified]
  have "exec_ld_st skb c (sf_k f) s \<noteq> Some (Inl Packet_oob)"
    using ld by (cases c) (auto simp: exec_ld_st_def Let_def load_w_def load_h_def load_b_def
        mem_load_def mem_store_def split: option.splits)
  moreover have "exec_anc env skb c s \<noteq> Some (Inl Packet_oob)"
    using nest nl exec_nlattr_ok [OF wf] Some
    by (cases c) (auto simp: exec_anc_def Let_def split: option.splits)
  ultimately show ?thesis by (auto simp: exec_insn_def Some split: option.splits)
qed

lemma run_from_packet_ok:
  assumes "skb_wf (sb_data skb)" "\<not> uses_op BPF_S_ANC_NLATTR_NEST prog"
    "uses_op BPF_S_ANC_NLATTR prog \<Longrightarrow> 4 \<le> unat (sb_len skb)"
  shows "run_from env skb prog pc s \<noteq> Inl Packet_oob"
  using assms
proof (induction env skb prog pc s rule: run_from.induct)
  case (1 env skb prog pc s)
  show ?case
  proof (cases "pc < length prog")
    case True
    then have "prog ! pc \<in> set prog" by simp
    then have "exec_insn env skb (prog ! pc) s \<noteq> Inl Packet_oob"
      using "1.prems" unfolding uses_op_def list_ex_iff by (intro exec_insn_packet_ok) blast+
    then show ?thesis using True 1 
      by (auto simp: run_from.simps [of env skb prog pc s] split: sum.splits bpf_ctl.splits)
  qed (simp add: run_from.simps)
qed

lemma sk_chk_filter_no_fault: "\<exists>err. fst (sk_chk_filter kmalloc_ok raw) = Inr err"
proof (cases "sk_chk_filter kmalloc_ok raw")
  case (Pair r prog)
  then show ?thesis
  proof (cases rule: sk_chk_filter_cases)
    case loop
    then show ?thesis using Pair check_loop_no_fault [of 0 prog "replicate (length prog) (NOT 0)" 0]
      by (auto simp: check_load_and_stores_def)
  qed (simp add: Pair)
qed

lemma sk_run_filter_accepted:
  assumes "sk_chk_filter kmalloc_ok raw = (Inr None, prog)" "sk_run_filter env skb prog = Inl e"
  shows "e = Packet_oob"
proof -
  from sk_chk_filter_prog_ok [OF assms(1)] obtain V where V: "prog_ok V prog" "mem_inv V 0 bpf_init" by blast
  have "0 < length prog" using V(1) by (simp add: prog_ok_def)
  then show ?thesis using run_from_safe [OF V(1) _ V(2), of env skb] assms(2) by (auto simp: sk_run_filter_def)
qed

lemma branch_prog_ok: "fst (sk_chk_filter True branch_prog) = Inr None"
  by code_simp

lemma nlattr_prog_ok: "fst (sk_chk_filter True (nlattr_prog 0 0xfffff00c)) = Inr None"
  by code_simp

text \<open>
  C1. A filter accepted by \<open>sk_chk_filter\<close> is safe to interpret whatever the packet: the program
  counter stays inside the program (so it ends with a \<open>RET\<close>), the scratch memory is indexed below
  \<open>BPF_MEMWORDS\<close>, and no scratch word is read before it was written.
\<close>

theorem sk_run_filter_safe:
  assumes "sk_chk_filter kmalloc_ok raw = (Inr None, prog)"
  shows "sk_run_filter env skb prog \<notin> {Inl Pc_oob, Inl Mem_oob, Inl Mem_uninit}"
  using sk_run_filter_accepted [OF assms, of env skb] by auto

theorem sk_run_filter_safe_witness:
  "sk_chk_filter True branch_prog = (Inr None, snd (sk_chk_filter True branch_prog))
   \<and> sk_run_filter some_env (linear_skb [7]) (snd (sk_chk_filter True branch_prog))
       \<notin> {Inl Pc_oob, Inl Mem_oob, Inl Mem_uninit}"
proof -
  have chk: "sk_chk_filter True branch_prog = (Inr None, snd (sk_chk_filter True branch_prog))"
    using branch_prog_ok by (simp add: prod_eq_iff)
  from sk_run_filter_safe [OF this] chk show ?thesis by blast
qed

text \<open>
  C2. On a well-formed packet an accepted filter returns a length: with the netlink instruction
  \<open>NLATTR_NEST\<close> absent, and \<open>NLATTR\<close> used only on packets of at least \<open>sizeof(struct nlattr)\<close> bytes,
  no load leaves the packet and the interpreter ends.
\<close>

theorem sk_run_filter_returns:
  assumes chk: "sk_chk_filter kmalloc_ok raw = (Inr None, prog)" and wf: "skb_wf (sb_data skb)"
    and nest: "\<not> uses_op BPF_S_ANC_NLATTR_NEST prog"
    and nlattr: "uses_op BPF_S_ANC_NLATTR prog \<longrightarrow> 4 \<le> unat (sb_len skb)"
  shows "\<exists>len. sk_run_filter env skb prog = Inr len"
proof -
  have "sk_run_filter env skb prog \<noteq> Inl Packet_oob"
    using run_from_packet_ok [OF wf nest] nlattr by (simp add: sk_run_filter_def)
  then show ?thesis using sk_run_filter_accepted [OF chk] by (cases "sk_run_filter env skb prog") auto
qed

theorem sk_run_filter_returns_witness:
  "\<exists>len. sk_run_filter some_env (linear_skb [4, 0, 7, 0]) (snd (sk_chk_filter True (nlattr_prog 0 0xfffff00c)))
     = Inr len"
proof -
  have "sk_chk_filter True (nlattr_prog 0 0xfffff00c) = (Inr None, snd (sk_chk_filter True (nlattr_prog 0 0xfffff00c)))"
    using nlattr_prog_ok by (simp add: prod_eq_iff)
  moreover have "skb_wf (sb_data (linear_skb [4, 0, 7, 0]))" "4 \<le> unat (sb_len (linear_skb [4, 0, 7, 0]))"
    by (simp_all add: linear_skb_def)
  moreover have "\<not> uses_op BPF_S_ANC_NLATTR_NEST (snd (sk_chk_filter True (nlattr_prog 0 0xfffff00c)))"
    by code_simp
  ultimately show ?thesis by (intro sk_run_filter_returns) simp_all
qed


text \<open>
  The checker itself is memory safe on every program: its mask array is never indexed outside
  its bounds, and it answers zero or an error number.
\<close>

lemma sk_chk_filter_total: "\<exists>err. fst (sk_chk_filter kmalloc_ok raw) = Inr err"
  by (rule sk_chk_filter_no_fault)

end
