(* ===== verification/Sock_Filter.thy ===== *)
theory Sock_Filter
  imports Bpf_Safety Skb_Trim
begin

text \<open>
  Socket filters as objects: \<open>sk_attach_filter\<close>, \<open>sk_detach_filter\<close> and \<open>sk_filter\<close>
  (\<open>net/core/filter.c\<close>), the charge of a filter to the option memory of its sockets and its reference
  count (\<open>include/net/sock.h\<close>), and the places of \<open>net/core/sock.c\<close> that share or drop a filter:
  \<open>sk_clone\<close> and \<open>__sk_free\<close>.

  Filters live in a store indexed by address; the invariant relates the reference count of each filter
  to the sockets that point at it.
\<close>

subsection \<open>Data\<close>

record sk_filter_obj =
  refcnt :: u32
  fp_len :: u32
  insns :: "sock_filter list"

record sock =
  sk_filter_ptr :: "nat option"
  sk_omem_alloc :: u32

text \<open>\<open>socks\<close> holds \<open>None\<close> at the index of a socket that was freed.\<close>

record net_state =
  socks :: "sock option list"
  filters :: "nat \<Rightarrow> sk_filter_obj option"

text \<open>
  \<open>struct sock_fprog\<close>: \<open>fprog_filter\<close> is \<open>None\<close> for a null pointer, otherwise the instructions readable
  at that user address; \<open>copy_from_user\<close> fails when there are fewer than \<open>fprog_len\<close>.
\<close>

record sock_fprog =
  fprog_len :: u16
  fprog_filter :: "sock_filter list option"

subsection \<open>Option memory and reference counts\<close>

text \<open>\<open>sizeof(struct sock_filter)\<close> is 8 and \<open>sizeof(struct sk_filter)\<close> is 20 on this 32-bit target.\<close>

definition sizeof_sock_filter :: u32 where "sizeof_sock_filter = 8"
definition sizeof_sk_filter :: u32 where "sizeof_sk_filter = 20"

definition sk_filter_len :: "sk_filter_obj \<Rightarrow> u32" where
  "sk_filter_len fp = fp_len fp * sizeof_sock_filter + sizeof_sk_filter"

definition sock_kmalloc :: "u32 \<Rightarrow> nat option \<Rightarrow> sock \<Rightarrow> u32 \<Rightarrow> nat option \<times> sock" where
  "sock_kmalloc sysctl_optmem_max kmalloc sk sz =
     (if sz \<le> sysctl_optmem_max \<and> sint (sk_omem_alloc sk + sz) < sint sysctl_optmem_max then
        (let sk = sk\<lparr>sk_omem_alloc := sk_omem_alloc sk + sz\<rparr> in
         case kmalloc of
           Some m \<Rightarrow> (Some m, sk)
         | None \<Rightarrow> (None, sk\<lparr>sk_omem_alloc := sk_omem_alloc sk - sz\<rparr>))
      else (None, sk))"

definition sock_kfree_s :: "sock \<Rightarrow> u32 \<Rightarrow> sock" where
  "sock_kfree_s sk sz = sk\<lparr>sk_omem_alloc := sk_omem_alloc sk - sz\<rparr>"

definition sk_filter_release :: "(nat \<Rightarrow> sk_filter_obj option) \<Rightarrow> nat \<Rightarrow> nat \<Rightarrow> sk_filter_obj option" where
  "sk_filter_release heap a =
     (case heap a of
        None \<Rightarrow> heap
      | Some fp \<Rightarrow>
          if refcnt fp - 1 = 0 then heap(a := None) else heap(a \<mapsto> fp\<lparr>refcnt := refcnt fp - 1\<rparr>))"

definition sk_filter_uncharge ::
    "sock \<Rightarrow> (nat \<Rightarrow> sk_filter_obj option) \<Rightarrow> nat \<Rightarrow> sock \<times> (nat \<Rightarrow> sk_filter_obj option)" where
  "sk_filter_uncharge sk heap a =
     (case heap a of
        None \<Rightarrow> (sk, heap)
      | Some fp \<Rightarrow> (sk\<lparr>sk_omem_alloc := sk_omem_alloc sk - sk_filter_len fp\<rparr>, sk_filter_release heap a))"

definition sk_filter_charge ::
    "sock \<Rightarrow> (nat \<Rightarrow> sk_filter_obj option) \<Rightarrow> nat \<Rightarrow> sock \<times> (nat \<Rightarrow> sk_filter_obj option)" where
  "sk_filter_charge sk heap a =
     (case heap a of
        None \<Rightarrow> (sk, heap)
      | Some fp \<Rightarrow> (sk\<lparr>sk_omem_alloc := sk_omem_alloc sk + sk_filter_len fp\<rparr>,
                   heap(a \<mapsto> fp\<lparr>refcnt := refcnt fp + 1\<rparr>)))"

subsection \<open>Attaching, detaching, sharing and dropping a filter\<close>

text \<open>
  The environment of an attach: the sysctl, the address \<open>kmalloc\<close> returns for the filter, and whether
  it finds memory for the checker's masks.
\<close>

record attach_env =
  sysctl_optmem_max :: u32
  ae_kmalloc :: "nat option"
  ae_masks_ok :: bool

definition sk_attach_filter ::
    "attach_env \<Rightarrow> sock_fprog \<Rightarrow> sock \<Rightarrow> (nat \<Rightarrow> sk_filter_obj option)
       \<Rightarrow> fault + (errno option \<times> sock \<times> (nat \<Rightarrow> sk_filter_obj option))" where
  "sk_attach_filter ae fprog sk heap =
     (let fsize = sizeof_sock_filter * ucast (fprog_len fprog) in
      case fprog_filter fprog of
        None \<Rightarrow> Inr (Some EINVAL, sk, heap)
      | Some user \<Rightarrow>
          (case sock_kmalloc (sysctl_optmem_max ae) (ae_kmalloc ae) sk (fsize + sizeof_sk_filter) of
             (None, sk) \<Rightarrow> Inr (Some ENOMEM, sk, heap)
           | (Some a, sk) \<Rightarrow>
               if length user < unat (fprog_len fprog) then
                 Inr (Some EFAULT, sock_kfree_s sk (fsize + sizeof_sk_filter), heap)
               else
                 (let (err, prog) = sk_chk_filter (ae_masks_ok ae) (take (unat (fprog_len fprog)) user);
                      fp = \<lparr>refcnt = 1, fp_len = ucast (fprog_len fprog), insns = prog\<rparr>;
                      heap = heap(a \<mapsto> fp)
                  in case err of
                       Inl f \<Rightarrow> Inl f
                     | Inr (Some e) \<Rightarrow>
                         (let (sk, heap) = sk_filter_uncharge sk heap a in Inr (Some e, sk, heap))
                     | Inr None \<Rightarrow>
                         (let old_fp = sk_filter_ptr sk; sk = sk\<lparr>sk_filter_ptr := Some a\<rparr> in
                          case old_fp of
                            None \<Rightarrow> Inr (None, sk, heap)
                          | Some old \<Rightarrow>
                              (let (sk, heap) = sk_filter_uncharge sk heap old in Inr (None, sk, heap))))))"

definition sk_detach_filter ::
    "sock \<Rightarrow> (nat \<Rightarrow> sk_filter_obj option) \<Rightarrow> errno option \<times> sock \<times> (nat \<Rightarrow> sk_filter_obj option)" where
  "sk_detach_filter sk heap =
     (case sk_filter_ptr sk of
        None \<Rightarrow> (Some ENOENT, sk, heap)
      | Some a \<Rightarrow>
          (let (sk, heap) = sk_filter_uncharge (sk\<lparr>sk_filter_ptr := None\<rparr>) heap a in (None, sk, heap)))"

text \<open>What \<open>sk_clone\<close> does to the copied filter pointer and option memory of the new socket.\<close>

definition sk_clone ::
    "sock \<Rightarrow> (nat \<Rightarrow> sk_filter_obj option) \<Rightarrow> sock \<times> (nat \<Rightarrow> sk_filter_obj option)" where
  "sk_clone sk heap =
     (let newsk = sk\<lparr>sk_omem_alloc := 0\<rparr> in
      case sk_filter_ptr newsk of
        None \<Rightarrow> (newsk, heap)
      | Some a \<Rightarrow> sk_filter_charge newsk heap a)"

text \<open>
  What \<open>__sk_free\<close> does to the filter; the boolean says whether the optmem leakage message is printed.
\<close>

definition sk_free :: "sock \<Rightarrow> (nat \<Rightarrow> sk_filter_obj option) \<Rightarrow> bool \<times> (nat \<Rightarrow> sk_filter_obj option)" where
  "sk_free sk heap =
     (case sk_filter_ptr sk of
        None \<Rightarrow> (sk_omem_alloc sk \<noteq> 0, heap)
      | Some a \<Rightarrow>
          (let (sk, heap) = sk_filter_uncharge sk heap a; sk = sk\<lparr>sk_filter_ptr := None\<rparr>
           in (sk_omem_alloc sk \<noteq> 0, heap)))"

text \<open>
  A packet through the filter of its socket.  \<open>rcv_hook\<close> is the answer of the security module
  (\<open>security_sock_rcv_skb\<close>).
\<close>

definition sk_filter ::
    "errno option \<Rightarrow> bpf_env \<Rightarrow> skb_alloc \<Rightarrow> (nat \<Rightarrow> sk_filter_obj option) \<Rightarrow> sock \<Rightarrow> sk_buff
       \<Rightarrow> fault + (errno option \<times> sk_buff)" where
  "sk_filter rcv_hook env al heap sk skb =
     (case rcv_hook of
        Some err \<Rightarrow> Inr (Some err, skb)
      | None \<Rightarrow>
          (case Option.bind (sk_filter_ptr sk) heap of
             None \<Rightarrow> Inr (None, skb)
           | Some fp \<Rightarrow>
               bind_fault (sk_run_filter env skb (insns fp)) (\<lambda>pkt_len.
                 if pkt_len \<noteq> 0 then
                   (case pskb_trim al (sb_data skb) pkt_len of
                      Inl err \<Rightarrow> Inr (Some err, skb)
                    | Inr d \<Rightarrow> Inr (None, skb\<lparr>sb_data := d\<rparr>))
                 else Inr (Some EPERM, skb))))"

subsection \<open>The socket layer as a transition system\<close>

datatype sock_op = Attach attach_env sock_fprog nat | Detach nat | Clone nat | Free nat | Create

text \<open>
  One step of the socket layer.  The address \<open>kmalloc\<close> returns is not that of a live filter, and fewer
  than \<open>2^32\<close> sockets exist at any time, each of them taking at least one byte of a 32-bit address space.
\<close>

inductive sock_step :: "net_state \<Rightarrow> sock_op \<Rightarrow> net_state \<Rightarrow> bool" where
  create: "length (socks st) + 1 < 2 ^ 32 \<Longrightarrow>
    sock_step st Create (st\<lparr>socks := socks st @ [Some \<lparr>sk_filter_ptr = None, sk_omem_alloc = 0\<rparr>]\<rparr>)"
| attach: "i < length (socks st) \<Longrightarrow> socks st ! i = Some sk \<Longrightarrow>
    \<forall>a. ae_kmalloc ae = Some a \<longrightarrow> filters st a = None \<Longrightarrow>
    sk_attach_filter ae fprog sk (filters st) = Inr (err, sk', heap) \<Longrightarrow>
    sock_step st (Attach ae fprog i) (st\<lparr>socks := (socks st)[i := Some sk'], filters := heap\<rparr>)"
| detach: "i < length (socks st) \<Longrightarrow> socks st ! i = Some sk \<Longrightarrow>
    sk_detach_filter sk (filters st) = (err, sk', heap) \<Longrightarrow>
    sock_step st (Detach i) (st\<lparr>socks := (socks st)[i := Some sk'], filters := heap\<rparr>)"
| clone: "i < length (socks st) \<Longrightarrow> socks st ! i = Some sk \<Longrightarrow> length (socks st) + 1 < 2 ^ 32 \<Longrightarrow>
    sk_clone sk (filters st) = (newsk, heap) \<Longrightarrow>
    sock_step st (Clone i) (st\<lparr>socks := socks st @ [Some newsk], filters := heap\<rparr>)"
| free: "i < length (socks st) \<Longrightarrow> socks st ! i = Some sk \<Longrightarrow>
    sk_free sk (filters st) = (leak, heap) \<Longrightarrow>
    sock_step st (Free i) (st\<lparr>socks := (socks st)[i := None], filters := heap\<rparr>)"

definition sock_init :: net_state where
  "sock_init = \<lparr>socks = [], filters = (\<lambda>_. None)\<rparr>"

subsection \<open>The invariant\<close>

definition points :: "nat \<Rightarrow> sock option \<Rightarrow> bool" where
  "points a s \<longleftrightarrow> (case s of None \<Rightarrow> False | Some sk \<Rightarrow> sk_filter_ptr sk = Some a)"

definition sock_ok :: "(nat \<Rightarrow> sk_filter_obj option) \<Rightarrow> sock \<Rightarrow> bool" where
  "sock_ok heap sk \<longleftrightarrow>
     (case sk_filter_ptr sk of
        None \<Rightarrow> sk_omem_alloc sk = 0
      | Some a \<Rightarrow> (case heap a of None \<Rightarrow> False | Some fp \<Rightarrow> sk_omem_alloc sk = sk_filter_len fp))"

definition accepted :: "sock_filter list \<Rightarrow> bool" where
  "accepted prog \<longleftrightarrow> (\<exists>raw kmalloc_ok. sk_chk_filter kmalloc_ok raw = (Inr None, prog))"

definition net_ok :: "sock option list \<Rightarrow> (nat \<Rightarrow> sk_filter_obj option) \<Rightarrow> bool" where
  "net_ok xs heap \<longleftrightarrow>
     length xs < 2 ^ 32
     \<and> (\<forall>sk. Some sk \<in> set xs \<longrightarrow> sock_ok heap sk)
     \<and> (\<forall>a fp. heap a = Some fp \<longrightarrow>
          unat (refcnt fp) = count_if (points a) xs \<and> refcnt fp \<noteq> 0 \<and> accepted (insns fp))"

definition net_inv :: "net_state \<Rightarrow> bool" where
  "net_inv st \<longleftrightarrow> net_ok (socks st) (filters st)"

lemma points_simps [simp]:
  "\<not> points a None" "points a (Some sk) \<longleftrightarrow> sk_filter_ptr sk = Some a"
  by (simp_all add: points_def)

lemma sock_ok_live: "sock_ok heap sk \<Longrightarrow> sk_filter_ptr sk = Some a \<Longrightarrow> \<exists>fp. heap a = Some fp \<and> sk_omem_alloc sk = sk_filter_len fp"
  by (auto simp: sock_ok_def split: option.splits)

lemma sock_ok_cong:
  "sk_filter_ptr sk = None \<or> (\<exists>a fp fp'. sk_filter_ptr sk = Some a \<and> heap a = Some fp \<and> heap' a = Some fp'
      \<and> fp_len fp = fp_len fp') \<Longrightarrow> sock_ok heap sk \<Longrightarrow> sock_ok heap' sk"
  by (auto simp: sock_ok_def sk_filter_len_def)

lemma sock_ok_upd:
  assumes "sock_ok heap sk" "sk_filter_ptr sk \<noteq> Some a \<or> (\<exists>fp. heap a = Some fp \<and> fp_len fp = fp_len fp')"
  shows "sock_ok (heap(a \<mapsto> fp')) sk"
  using assms by (auto simp: sock_ok_def sk_filter_len_def split: option.splits)

lemma net_ok_nth: "net_ok xs heap \<Longrightarrow> i < length xs \<Longrightarrow> xs ! i = Some sk \<Longrightarrow> sock_ok heap sk"
  by (metis net_ok_def nth_mem)

lemma set_update_memD: "x \<in> set (xs[i := v]) \<Longrightarrow> x \<in> set xs \<or> x = v"
  using set_update_subset_insert [of xs i v] by auto

text \<open>Dropping the reference of one socket.\<close>

lemma net_ok_release:
  assumes ok: "net_ok xs heap" and i: "i < length xs" "xs ! i = Some sk" "sk_filter_ptr sk = Some a"
    and v: "\<And>sk'. v = Some sk' \<Longrightarrow> sk_filter_ptr sk' = None \<and> sk_omem_alloc sk' = 0"
  shows "net_ok (xs[i := v]) (sk_filter_release heap a)"
proof -
  obtain fp where fp: "heap a = Some fp" using net_ok_nth [OF ok i(1,2)] sock_ok_live i(3) by blast
  have nv: "\<not> points b v" for b using v by (cases v) auto
  have cnt: "count_if (points b) (xs[i := v]) + of_bool (b = a) = count_if (points b) xs" for b
    using count_if_update [OF i(1), of "points b" v] nv i by (simp add: eq_commute)
  have ra: "unat (refcnt fp) = count_if (points a) xs" "refcnt fp \<noteq> 0" using ok fp by (auto simp: net_ok_def)
  then have dec: "unat (refcnt fp - 1) = count_if (points a) (xs[i := v])"
    using cnt [of a] by (simp add: unat_minus_one)
  have live: "\<exists>fp'. sk_filter_release heap a b = Some fp' \<and> (\<exists>fp. heap b = Some fp \<and> fp_len fp = fp_len fp')"
    if mem: "Some sk' \<in> set (xs[i := v])" and ptr: "sk_filter_ptr sk' = Some b" for sk' b
  proof -
    from mem ptr v have "Some sk' \<in> set xs" using set_update_memD [OF mem] by auto
    then have "sock_ok heap sk'" using ok by (simp add: net_ok_def)
    then obtain fb where fb: "heap b = Some fb" using sock_ok_live ptr by blast
    have "0 < count_if (points b) (xs[i := v])"
      using mem ptr by (auto simp: in_set_conv_nth intro!: count_if_pos)
    then have "b = a \<Longrightarrow> refcnt fp - 1 \<noteq> 0" using dec by force
    then show ?thesis using fp fb by (auto simp: sk_filter_release_def)
  qed
  have "sock_ok (sk_filter_release heap a) sk'" if s: "Some sk' \<in> set (xs[i := v])" for sk'
  proof (cases "sk_filter_ptr sk'")
    case (Some b)
    with s v have "Some sk' \<in> set xs" using set_update_memD [OF s] by auto
    then have "sock_ok heap sk'" using ok by (auto simp: net_ok_def)
    then show ?thesis using live [OF s Some] Some by (auto intro: sock_ok_cong)
  next
    case None
    have "Some sk' \<in> set xs \<or> Some sk' = v" using s by (rule set_update_memD)
    then have "sk_omem_alloc sk' = 0" using None v ok by (auto simp: net_ok_def sock_ok_def)
    then show ?thesis using None by (simp add: sock_ok_def)
  qed
  moreover have "unat (refcnt fb) = count_if (points b) (xs[i := v]) \<and> refcnt fb \<noteq> 0 \<and> accepted (insns fb)"
    if "sk_filter_release heap a b = Some fb" for b fb
    using that fp dec cnt [of b] ok by (auto simp: sk_filter_release_def net_ok_def split: if_splits)
  moreover have "length (xs[i := v]) < 2 ^ 32" using ok by (simp add: net_ok_def)
  ultimately show ?thesis unfolding net_ok_def by blast
qed

text \<open>A new filter for a socket that has none, and a further reference to a live one.\<close>

lemma net_ok_fresh:
  assumes ok: "net_ok xs heap" and i: "i < length xs" "xs ! i = Some sk" "sk_filter_ptr sk = None"
    and a: "heap a = None" and fp: "refcnt fp = 1" "accepted (insns fp)"
    and sk': "sk_filter_ptr sk' = Some a" "sk_omem_alloc sk' = sk_filter_len fp"
  shows "net_ok (xs[i := Some sk']) (heap(a \<mapsto> fp))"
proof -
  have dead: "\<not> points a (Some s)" if "Some s \<in> set xs" for s
    using ok that a sock_ok_live [of heap s a] by (auto simp: net_ok_def)
  then have none: "count_if (points a) xs = 0"
    by (auto simp: count_if_def filter_empty_conv) (metis not_None_eq points_simps)
  have "count_if (points b) (xs[i := Some sk']) = count_if (points b) xs + of_bool (b = a)" for b
    using count_if_update [OF i(1), of "points b" "Some sk'"] i sk' by (simp add: eq_commute)
  then have "unat (refcnt fb) = count_if (points b) (xs[i := Some sk']) \<and> refcnt fb \<noteq> 0 \<and> accepted (insns fb)"
    if "(heap(a \<mapsto> fp)) b = Some fb" for b fb
    using that ok fp none by (auto simp: net_ok_def split: if_splits)
  moreover have "sock_ok (heap(a \<mapsto> fp)) s" if "Some s \<in> set (xs[i := Some sk'])" for s
  proof (cases "s = sk'")
    case True
    then show ?thesis using sk' by (simp add: sock_ok_def)
  next
    case False
    then have "Some s \<in> set xs" using set_update_memD [OF that] by auto
    then show ?thesis using ok dead [of s] by (intro sock_ok_upd) (auto simp: net_ok_def)
  qed
  ultimately show ?thesis using ok unfolding net_ok_def by auto
qed

lemma net_ok_append:
  assumes "net_ok xs heap" "length xs + 1 < 2 ^ 32" "sk_filter_ptr sk = None" "sk_omem_alloc sk = 0"
  shows "net_ok (xs @ [Some sk]) heap"
  using assms by (auto simp: net_ok_def sock_ok_def)

lemma net_ok_share:
  assumes ok: "net_ok xs heap" and len: "length xs + 1 < 2 ^ 32" and fp: "heap a = Some fp"
    and sk: "sk_filter_ptr sk = Some a" "sk_omem_alloc sk = sk_filter_len fp"
  shows "net_ok (xs @ [Some sk]) (heap(a \<mapsto> fp\<lparr>refcnt := refcnt fp + 1\<rparr>))"
proof -
  have r: "unat (refcnt fp) = count_if (points a) xs" using ok fp by (simp add: net_ok_def)
  then have "unat (refcnt fp) + 1 < 2 ^ 32" using count_if_le [of "points a" xs] len by simp
  then have "unat (refcnt fp + 1) = unat (refcnt fp) + 1" by (subst unat_add_lem [THEN iffD1]) simp_all
  moreover from this have "refcnt fp + 1 \<noteq> 0" by (metis Suc_eq_plus1 nat.distinct(1) unat_0)
  moreover have "sock_ok (heap(a \<mapsto> fp\<lparr>refcnt := refcnt fp + 1\<rparr>)) s" if "Some s \<in> set (xs @ [Some sk])" for s
  proof (cases "s = sk")
    case True
    then show ?thesis using sk by (simp add: sock_ok_def sk_filter_len_def)
  next
    case False
    then have "sock_ok heap s" using that ok by (auto simp: net_ok_def)
    then show ?thesis using fp by (intro sock_ok_upd) auto
  qed
  ultimately show ?thesis using ok fp len sk r by (auto simp: net_ok_def)
qed

lemma sk_filter_uncharge_eq:
  "heap a = Some fp \<Longrightarrow>
     sk_filter_uncharge sk heap a = (sk\<lparr>sk_omem_alloc := sk_omem_alloc sk - sk_filter_len fp\<rparr>, sk_filter_release heap a)"
  by (simp add: sk_filter_uncharge_def)

lemma sk_filter_release_upd:
  "a \<noteq> b \<Longrightarrow> sk_filter_release (heap(a \<mapsto> fp)) b = (sk_filter_release heap b)(a \<mapsto> fp)"
  by (auto simp: sk_filter_release_def fun_upd_twist split: option.splits)

lemma sk_filter_release_new: "heap a = None \<Longrightarrow> refcnt fp = 1 \<Longrightarrow> sk_filter_release (heap(a \<mapsto> fp)) a = heap"
  by (auto simp: sk_filter_release_def)

lemma sock_kmalloc_cases:
  assumes "sock_kmalloc optmem km sk sz = (r, sk')"
  shows "(r = None \<and> sk' = sk) \<or> (r = km \<and> km \<noteq> None \<and> sk' = sk\<lparr>sk_omem_alloc := sk_omem_alloc sk + sz\<rparr>)"
  using assms by (auto simp: sock_kmalloc_def Let_def split: if_splits option.splits)

text \<open>The four outcomes of an attach.\<close>

lemma sk_attach_filter_cases:
  assumes "sk_attach_filter ae fprog sk heap = Inr (err, sk', heap')"
    and fresh: "\<forall>a. ae_kmalloc ae = Some a \<longrightarrow> heap a = None"
  obtains (fail) e where "err = Some e" "sk' = sk" "heap' = heap"
  | (ok) a fp where "err = None" "ae_kmalloc ae = Some a" "refcnt fp = 1" "accepted (insns fp)"
      "fp_len fp = ucast (fprog_len fprog)"
      "(sk', heap') =
        (let sk1 = sk\<lparr>sk_omem_alloc := sk_omem_alloc sk + sk_filter_len fp, sk_filter_ptr := Some a\<rparr> in
         case sk_filter_ptr sk of None \<Rightarrow> (sk1, heap(a \<mapsto> fp))
         | Some old \<Rightarrow> sk_filter_uncharge sk1 (heap(a \<mapsto> fp)) old)"
proof -
  let ?sz = "sizeof_sock_filter * ucast (fprog_len fprog) + sizeof_sk_filter"
  obtain r sk1 where km: "sock_kmalloc (sysctl_optmem_max ae) (ae_kmalloc ae) sk ?sz = (r, sk1)" by force
  note kc = sock_kmalloc_cases [OF km]
  show ?thesis
  proof (cases "fprog_filter fprog")
    case None
    then show ?thesis using assms(1) fail by (auto simp: sk_attach_filter_def)
  next
    case (Some user)
    show ?thesis
    proof (cases "r = None \<or> length user < unat (fprog_len fprog)")
      case True
      then show ?thesis using assms(1) Some km kc fail
        by (auto simp: sk_attach_filter_def sock_kfree_s_def)
    next
      case False
      then obtain a where a: "r = Some a" "ae_kmalloc ae = Some a"
        and sk1: "sk1 = sk\<lparr>sk_omem_alloc := sk_omem_alloc sk + ?sz\<rparr>" using kc by auto
      obtain e prog where chk: "sk_chk_filter (ae_masks_ok ae) (take (unat (fprog_len fprog)) user) = (Inr e, prog)"
        using sk_chk_filter_no_fault by (metis prod.collapse)
      define fp where "fp = \<lparr>refcnt = 1, fp_len = ucast (fprog_len fprog), insns = prog\<rparr>"
      have len: "sk_filter_len fp = ?sz" by (simp add: sk_filter_len_def fp_def)
      show ?thesis
      proof (cases e)
        case (Some e')
        then show ?thesis
          using assms(1) \<open>fprog_filter fprog = Some user\<close> False km a sk1 chk fail fresh a(2) len
          by (auto simp: sk_attach_filter_def fp_def [symmetric] sk_filter_uncharge_def sk_filter_release_new)
      next
        case None
        then have "accepted (insns fp)" using chk by (auto simp: accepted_def fp_def)
        moreover have "(sk', heap') =
            (let sk2 = sk\<lparr>sk_omem_alloc := sk_omem_alloc sk + sk_filter_len fp, sk_filter_ptr := Some a\<rparr> in
             case sk_filter_ptr sk of None \<Rightarrow> (sk2, heap(a \<mapsto> fp))
             | Some old \<Rightarrow> sk_filter_uncharge sk2 (heap(a \<mapsto> fp)) old) \<and> err = None"
          using assms(1) None \<open>fprog_filter fprog = Some user\<close> False km a sk1 chk len
          by (auto simp: sk_attach_filter_def fp_def [symmetric] Let_def split: option.splits prod.splits)
        ultimately show ?thesis using a by (intro ok [of a fp]) (auto simp: fp_def)
      qed
    qed
  qed
qed

lemma net_inv_attach:
  assumes inv: "net_ok xs heap" and i: "i < length xs" "xs ! i = Some sk"
    and fresh: "\<forall>a. ae_kmalloc ae = Some a \<longrightarrow> heap a = None"
    and att: "sk_attach_filter ae fprog sk heap = Inr (err, sk', heap')"
  shows "net_ok (xs[i := Some sk']) heap'"
  using att fresh
proof (cases rule: sk_attach_filter_cases)
  case (fail e)
  then show ?thesis using inv i by (simp add: list_update_same_conv [THEN iffD2])
next
  case (ok a fp)
  have sok: "sock_ok heap sk" using net_ok_nth [OF inv i] .
  show ?thesis
  proof (cases "sk_filter_ptr sk")
    case None
    with sok ok fresh show ?thesis
      by (auto simp: sock_ok_def intro!: net_ok_fresh [OF inv i None])
  next
    case (Some old)
    then obtain fo where fo: "heap old = Some fo" "sk_omem_alloc sk = sk_filter_len fo"
      using sock_ok_live [OF sok] by blast
    have ne: "a \<noteq> old" using fresh ok(2) fo by auto
    let ?idle = "\<lparr>sk_filter_ptr = None, sk_omem_alloc = 0\<rparr> :: sock"
    have "net_ok (xs[i := Some ?idle]) (sk_filter_release heap old)"
      by (rule net_ok_release [OF inv i Some]) auto
    moreover have "sk_filter_release heap old a = None"
      using fresh ok(2) ne by (auto simp: sk_filter_release_def split: option.splits)
    ultimately have "net_ok (xs[i := Some ?idle, i := Some sk']) ((sk_filter_release heap old)(a \<mapsto> fp))"
      using i ok ne fo Some by (intro net_ok_fresh) (auto simp: sk_filter_uncharge_def)
    then show ?thesis
      using ok(6) Some ne fo by (simp add: sk_filter_uncharge_eq sk_filter_release_upd)
  qed
qed

lemma net_inv_clone:
  assumes inv: "net_ok xs heap" and i: "i < length xs" "xs ! i = Some sk" and len: "length xs + 1 < 2 ^ 32"
    and cl: "sk_clone sk heap = (newsk, heap')"
  shows "net_ok (xs @ [Some newsk]) heap'"
proof (cases "sk_filter_ptr sk")
  case None
  then show ?thesis using cl inv len by (auto simp: sk_clone_def intro: net_ok_append)
next
  case (Some a)
  then obtain fp where "heap a = Some fp" using sock_ok_live [OF net_ok_nth [OF inv i]] by blast
  then show ?thesis using cl inv len Some
    by (auto simp: sk_clone_def sk_filter_charge_def intro!: net_ok_share)
qed

lemma net_inv_detach:
  assumes inv: "net_ok xs heap" and i: "i < length xs" "xs ! i = Some sk"
    and "sk_detach_filter sk heap = (err, sk', heap')"
  shows "net_ok (xs[i := Some sk']) heap'"
proof (cases "sk_filter_ptr sk")
  case None
  then show ?thesis using assms by (auto simp: sk_detach_filter_def list_update_same_conv [THEN iffD2])
next
  case (Some a)
  then obtain fp where "heap a = Some fp" "sk_omem_alloc sk = sk_filter_len fp"
    using sock_ok_live [OF net_ok_nth [OF inv i]] by blast
  then show ?thesis using assms(4) Some
    by (auto simp: sk_detach_filter_def sk_filter_uncharge_eq intro!: net_ok_release [OF inv i])
qed

lemma net_inv_free:
  assumes inv: "net_ok xs heap" and i: "i < length xs" "xs ! i = Some sk"
    and "sk_free sk heap = (leak, heap')"
  shows "net_ok (xs[i := None]) heap' \<and> \<not> leak"
proof (cases "sk_filter_ptr sk")
  case (Some a)
  then show ?thesis using assms net_ok_release [OF inv i Some, of None] sock_ok_live [OF net_ok_nth [OF inv i] Some]
    by (auto simp: sk_free_def sk_filter_uncharge_eq)
next
  case None
  have "count_if (points b) (xs[i := None]) = count_if (points b) xs" for b
    using count_if_update [OF i(1), of "points b" None] i None by simp
  moreover have "sock_ok heap sk" using net_ok_nth [OF inv i] .
  ultimately show ?thesis using assms None by (auto simp: sk_free_def sock_ok_def net_ok_def dest: set_update_memD)
qed

lemma net_inv_step: "net_inv st \<Longrightarrow> sock_step st l st' \<Longrightarrow> net_inv st'"
  by (erule sock_step.cases)
    (auto simp: net_inv_def intro: net_ok_append net_inv_attach net_inv_clone net_inv_detach
      dest: net_inv_free)

interpretation sock: invariant_of "(=) sock_init" sock_step net_inv
proof
  show "net_inv s" if "sock_init = s" for s
    using that by (auto simp: net_inv_def net_ok_def sock_init_def)
qed (rule net_inv_step)

text \<open>
  C4. Whatever sequence of socket creations, filter attachments (accepted or refused on any of their
  error paths), replacements, detachments, clones and releases is run, a socket never points at a freed
  filter, the reference count of a filter is the number of sockets that share it, the option memory
  charged to a socket is exactly the size of its filter, and releasing it reports no leakage.
\<close>

theorem filter_lifetime:
  assumes "reachable ((=) sock_init) sock_step st" "i < length (socks st)" "socks st ! i = Some sk"
  shows "(case sk_filter_ptr sk of
        None \<Rightarrow> sk_omem_alloc sk = 0
      | Some a \<Rightarrow> \<exists>fp. filters st a = Some fp \<and> unat (refcnt fp) = count_if (points a) (socks st)
          \<and> sk_omem_alloc sk = sk_filter_len fp \<and> accepted (insns fp))
    \<and> \<not> fst (sk_free sk (filters st))"
proof -
  have inv: "net_ok (socks st) (filters st)" using sock.reachable_inv [OF assms(1)] by (simp add: net_inv_def)
  have "\<not> fst (sk_free sk (filters st))" using net_inv_free [OF inv assms(2,3)] by (metis prod.collapse)
  then show ?thesis using net_ok_nth [OF inv assms(2,3)] inv
    by (auto simp: sock_ok_def net_ok_def split: option.splits)
qed

text \<open>A run used as an example: a socket with a filter, and a clone of it.\<close>

definition demo_env :: attach_env where
  "demo_env = \<lparr>sysctl_optmem_max = 10240, ae_kmalloc = Some 64, ae_masks_ok = True\<rparr>"

definition demo_fprog :: sock_fprog where
  "demo_fprog = \<lparr>fprog_len = 5, fprog_filter = Some branch_prog\<rparr>"

definition demo_fp :: sk_filter_obj where
  "demo_fp = \<lparr>refcnt = 1, fp_len = 5, insns = snd (sk_chk_filter True branch_prog)\<rparr>"

definition demo_sock :: sock where
  "demo_sock = \<lparr>sk_filter_ptr = Some 64, sk_omem_alloc = 60\<rparr>"

definition demo_state :: net_state where
  "demo_state = \<lparr>socks = [Some demo_sock, Some demo_sock], filters = [64 \<mapsto> demo_fp\<lparr>refcnt := 2\<rparr>]\<rparr>"

lemma demo_attach:
  "sk_attach_filter demo_env demo_fprog \<lparr>sk_filter_ptr = None, sk_omem_alloc = 0\<rparr> (\<lambda>_. None) =
     Inr (None, demo_sock, [64 \<mapsto> demo_fp])"
proof -
  have "sk_chk_filter True branch_prog = (Inr None, insns demo_fp)"
    using branch_prog_ok by (simp add: prod_eq_iff demo_fp_def)
  moreover have "demo_fp = \<lparr>refcnt = 1, fp_len = 5, insns = insns demo_fp\<rparr>" by (simp add: demo_fp_def)
  moreover have "length branch_prog = 5" by (simp add: branch_prog_def)
  moreover have "sock_kmalloc 10240 (Some 64) \<lparr>sk_filter_ptr = None, sk_omem_alloc = 0\<rparr> 60 = (Some 64, \<lparr>sk_filter_ptr = None, sk_omem_alloc = 60\<rparr>)"
    by (simp add: sock_kmalloc_def)
  ultimately show ?thesis
    by (simp add: sk_attach_filter_def demo_env_def demo_fprog_def demo_sock_def
        sizeof_sock_filter_def sizeof_sk_filter_def)
qed

lemma demo_reachable: "reachable ((=) sock_init) sock_step demo_state"
proof -
  let ?s1 = "\<lparr>socks = [Some \<lparr>sk_filter_ptr = None, sk_omem_alloc = 0\<rparr>], filters = (\<lambda>_. None)\<rparr> :: net_state"
  let ?s2 = "\<lparr>socks = [Some demo_sock], filters = [64 \<mapsto> demo_fp]\<rparr>"
  have "reachable ((=) sock_init) sock_step sock_init" by (rule reachable.start) simp
  moreover have "sock_step sock_init Create ?s1" using sock_step.create [of sock_init] by (simp add: sock_init_def)
  moreover have "sock_step ?s1 (Attach demo_env demo_fprog 0) ?s2"
    using sock_step.attach [of 0 ?s1 _ demo_env demo_fprog] demo_attach by simp
  moreover have "sk_clone demo_sock [64 \<mapsto> demo_fp] = (demo_sock, [64 \<mapsto> demo_fp\<lparr>refcnt := 2\<rparr>])"
    by (simp add: sk_clone_def sk_filter_charge_def demo_sock_def demo_fp_def sk_filter_len_def
        sizeof_sock_filter_def sizeof_sk_filter_def)
  then have "sock_step ?s2 (Clone 0) demo_state"
    using sock_step.clone [of 0 ?s2 demo_sock] by (simp add: demo_state_def)
  ultimately show ?thesis by (blast intro: reachable.step)
qed

theorem filter_lifetime_witness:
  "\<exists>fp. filters demo_state 64 = Some fp \<and> unat (refcnt fp) = 2 \<and> \<not> fst (sk_free demo_sock (filters demo_state))"
  using filter_lifetime [OF demo_reachable, of 0 demo_sock]
  by (simp add: demo_state_def demo_sock_def)

text \<open>
  C5. What reaches a socket through its filter: in every reachable state, a filtered packet never sends
  the interpreter outside its program or its initialised scratch memory, and a packet that is accepted is
  the original cut to the nonzero length the filter returned (or the original when the socket has no
  filter), still well formed.
\<close>

theorem sk_filter_delivers_prefix:
  assumes "reachable ((=) sock_init) sock_step st" "i < length (socks st)" "socks st ! i = Some sk"
    and "skb_wf (sb_data skb)"
  shows "sk_filter hook env al (filters st) sk skb \<notin> {Inl Pc_oob, Inl Mem_oob, Inl Mem_uninit}
    \<and> (\<forall>skb'. sk_filter hook env al (filters st) sk skb = Inr (None, skb') \<longrightarrow>
         skb_wf (sb_data skb')
         \<and> (case Option.bind (sk_filter_ptr sk) (filters st) of
              None \<Rightarrow> skb' = skb
            | Some fp \<Rightarrow> \<exists>pkt_len. pkt_len \<noteq> 0 \<and> sk_run_filter env skb (insns fp) = Inr pkt_len
                \<and> skb_bytes (sb_data skb') = take (unat pkt_len) (skb_bytes (sb_data skb))))"
proof (cases "Option.bind (sk_filter_ptr sk) (filters st)")
  case None
  then show ?thesis using assms(4) by (auto simp: sk_filter_def split: option.splits)
next
  case (Some fp)
  then obtain a where a: "filters st a = Some fp" by (auto simp: bind_eq_Some_conv)
  have "accepted (insns fp)"
    using sock.reachable_inv [OF assms(1)] a by (auto simp: net_inv_def net_ok_def)
  then have "e = Packet_oob" if "sk_run_filter env skb (insns fp) = Inl e" for e
    using that sk_run_filter_accepted by (auto simp: accepted_def)
  then show ?thesis using Some pskb_trim_spec(1) [OF assms(4)]
    by (auto simp: sk_filter_def bind_fault_def split: option.splits sum.splits if_splits)
qed

theorem sk_filter_delivers_prefix_witness:
  "sk_filter None some_env \<lparr>expand_head = (\<lambda>_. None), clone_fails = (\<lambda>_. False)\<rparr>
     (filters demo_state) demo_sock (linear_skb [7, 8]) \<notin> {Inl Pc_oob, Inl Mem_oob, Inl Mem_uninit}"
proof -
  have "skb_wf (sb_data (linear_skb [7, 8]))" by (simp add: linear_skb_def)
  moreover have "0 < length (socks demo_state)" "socks demo_state ! 0 = Some demo_sock"
    by (simp_all add: demo_state_def)
  ultimately show ?thesis using sk_filter_delivers_prefix [OF demo_reachable] by blast
qed

end
