(* ===== verification/Semaphore.thy ===== *)
theory Semaphore
  imports Kernel_Prelude
begin

text \<open>
  Counting semaphores (\<open>kernel/semaphore.c\<close>).  Each operation runs under the semaphore's spinlock; a
  task that has to wait gives the lock up only inside \<open>schedule_timeout\<close>, so an operation is a
  function on the state from one release of the lock to the next, and the system interleaves them.

  A waiter is an entry of \<open>wait_list\<close>, identified by its task; its \<open>up\<close> flag lives on the stack of that
  task and is kept in the task's state.
\<close>

subsection \<open>Data\<close>

record semaphore =
  sem_count :: u32
  wait_list :: "nat list"

text \<open>The task states \<open>__down_common\<close> is called with (\<open>include/linux/sched.h\<close>).\<close>

datatype wait_mode = TASK_UNINTERRUPTIBLE | TASK_INTERRUPTIBLE | TASK_KILLABLE

text \<open>Signals of the current task: some signal pending, and a fatal one among them.\<close>

record signals =
  signal_pending :: bool
  fatal_signal_pending :: bool

datatype task_state =
    Outside
  | Sleeping wait_mode int bool    \<comment> \<open>in \<open>schedule_timeout\<close>: state, timeout, \<open>waiter.up\<close>\<close>
  | Returned "errno option"

record sem_sys =
  sem :: semaphore
  tasks :: "task_state list"
  granted :: nat    \<comment> \<open>history: how many times a down took a unit\<close>
  upped :: nat      \<comment> \<open>history: how many times up was called\<close>

definition MAX_SCHEDULE_TIMEOUT :: int where
  "MAX_SCHEDULE_TIMEOUT = 2 ^ 31 - 1"

subsection \<open>Operations\<close>

definition signal_pending_state :: "wait_mode \<Rightarrow> signals \<Rightarrow> bool" where
  "signal_pending_state state sg =
     (if state = TASK_UNINTERRUPTIBLE then False
      else if \<not> signal_pending sg then False
      else state = TASK_INTERRUPTIBLE \<or> fatal_signal_pending sg)"

text \<open>
  One round of the loop of \<open>__down_common\<close>, from its head to the call of \<open>schedule_timeout\<close> or to one of
  the two labels that give up.
\<close>

definition down_round ::
    "wait_mode \<Rightarrow> int \<Rightarrow> signals \<Rightarrow> nat \<Rightarrow> semaphore \<Rightarrow> semaphore \<times> task_state" where
  "down_round state timeout sg task s =
     (if signal_pending_state state sg then
        (s\<lparr>wait_list := remove1 task (wait_list s)\<rparr>, Returned (Some EINTR))
      else if timeout \<le> 0 then
        (s\<lparr>wait_list := remove1 task (wait_list s)\<rparr>, Returned (Some ETIME))
      else (s, Sleeping state timeout False))"

text \<open>\<open>__down_common\<close> up to its first \<open>schedule_timeout\<close>.\<close>

definition down_common ::
    "wait_mode \<Rightarrow> int \<Rightarrow> signals \<Rightarrow> nat \<Rightarrow> semaphore \<Rightarrow> semaphore \<times> task_state" where
  "down_common state timeout sg task s =
     down_round state timeout sg task (s\<lparr>wait_list := wait_list s @ [task]\<rparr>)"

text \<open>What \<open>__down_common\<close> does when \<open>schedule_timeout\<close> returns the remaining \<open>timeout\<close>.\<close>

definition down_resume ::
    "wait_mode \<Rightarrow> int \<Rightarrow> bool \<Rightarrow> signals \<Rightarrow> nat \<Rightarrow> semaphore \<Rightarrow> semaphore \<times> task_state" where
  "down_resume state timeout up sg task s =
     (if up then (s, Returned None) else down_round state timeout sg task s)"

text \<open>The common body of \<open>down\<close>, \<open>down_interruptible\<close>, \<open>down_killable\<close> and \<open>down_timeout\<close>.\<close>

definition down_with ::
    "wait_mode \<Rightarrow> int \<Rightarrow> signals \<Rightarrow> nat \<Rightarrow> semaphore \<Rightarrow> semaphore \<times> task_state" where
  "down_with state timeout sg task s =
     (if sem_count s > 0 then (s\<lparr>sem_count := sem_count s - 1\<rparr>, Returned None)
      else down_common state timeout sg task s)"

definition down :: "signals \<Rightarrow> nat \<Rightarrow> semaphore \<Rightarrow> semaphore \<times> task_state" where
  "down = down_with TASK_UNINTERRUPTIBLE MAX_SCHEDULE_TIMEOUT"

definition down_interruptible :: "signals \<Rightarrow> nat \<Rightarrow> semaphore \<Rightarrow> semaphore \<times> task_state" where
  "down_interruptible = down_with TASK_INTERRUPTIBLE MAX_SCHEDULE_TIMEOUT"

definition down_killable :: "signals \<Rightarrow> nat \<Rightarrow> semaphore \<Rightarrow> semaphore \<times> task_state" where
  "down_killable = down_with TASK_KILLABLE MAX_SCHEDULE_TIMEOUT"

definition down_timeout :: "int \<Rightarrow> signals \<Rightarrow> nat \<Rightarrow> semaphore \<Rightarrow> semaphore \<times> task_state" where
  "down_timeout jiffies = down_with TASK_UNINTERRUPTIBLE jiffies"

text \<open>\<open>down_trylock\<close>: the \<open>int\<close> it computes is the count minus one; \<open>True\<close> is a nonzero result.\<close>

definition down_trylock :: "semaphore \<Rightarrow> semaphore \<times> bool" where
  "down_trylock s =
     (let c = sem_count s - 1 in
      (if sint c \<ge> 0 then s\<lparr>sem_count := c\<rparr> else s, sint c < 0))"

text \<open>\<open>up\<close>, with the task \<open>__up\<close> wakes.\<close>

definition up :: "semaphore \<Rightarrow> semaphore \<times> nat option" where
  "up s =
     (case wait_list s of
        [] \<Rightarrow> (s\<lparr>sem_count := sem_count s + 1\<rparr>, None)
      | t # ts \<Rightarrow> (s\<lparr>wait_list := ts\<rparr>, Some t))"

text \<open>\<open>waiter->up = 1\<close> on the stack of the woken task.\<close>

fun set_up :: "task_state \<Rightarrow> task_state" where
  "set_up (Sleeping state timeout b) = Sleeping state timeout True"
| "set_up st = st"

subsection \<open>The system\<close>

definition sem_init :: "u32 \<Rightarrow> nat \<Rightarrow> sem_sys" where
  "sem_init val ntasks =
     \<lparr>sem = \<lparr>sem_count = val, wait_list = []\<rparr>, tasks = replicate ntasks Outside, granted = 0, upped = 0\<rparr>"

datatype sem_op =
    Down wait_mode int signals nat | Resume int signals nat | Trylock nat | Up | Leave nat

text \<open>
  A task calls a down only when it is outside one; \<open>up\<close> may be called from anywhere, as long as it does
  not overflow the count.
\<close>

inductive sem_step :: "sem_sys \<Rightarrow> sem_op \<Rightarrow> sem_sys \<Rightarrow> bool" where
  down: "t < length (tasks y) \<Longrightarrow> tasks y ! t = Outside \<Longrightarrow>
    down_with mode timeout sg t (sem y) = (s', ts) \<Longrightarrow>
    sem_step y (Down mode timeout sg t)
      (y\<lparr>sem := s', tasks := (tasks y)[t := ts], granted := granted y + of_bool (ts = Returned None)\<rparr>)"
| resume: "t < length (tasks y) \<Longrightarrow> tasks y ! t = Sleeping mode timeout u \<Longrightarrow>
    down_resume mode timeout' u sg t (sem y) = (s', ts) \<Longrightarrow>
    sem_step y (Resume timeout' sg t) (y\<lparr>sem := s', tasks := (tasks y)[t := ts]\<rparr>)"
| trylock: "t < length (tasks y) \<Longrightarrow> tasks y ! t = Outside \<Longrightarrow> down_trylock (sem y) = (s', busy) \<Longrightarrow>
    sem_step y (Trylock t) (y\<lparr>sem := s', granted := granted y + of_bool (\<not> busy)\<rparr>)"
| wake: "up (sem y) = (s', Some t) \<Longrightarrow>
    sem_step y Up
      (y\<lparr>sem := s', tasks := (tasks y)[t := set_up (tasks y ! t)], granted := granted y + 1,
        upped := upped y + 1\<rparr>)"
| release: "unat (sem_count (sem y)) + 1 < 2 ^ 32 \<Longrightarrow> up (sem y) = (s', None) \<Longrightarrow>
    sem_step y Up (y\<lparr>sem := s', upped := upped y + 1\<rparr>)"
| leave: "t < length (tasks y) \<Longrightarrow> tasks y ! t = Returned r \<Longrightarrow>
    sem_step y (Leave t) (y\<lparr>tasks := (tasks y)[t := Outside]\<rparr>)"

inductive_cases up_stepE: "sem_step y Up y'"

subsection \<open>The invariant\<close>

fun waiting :: "task_state \<Rightarrow> bool" where
  "waiting (Sleeping state timeout u) \<longleftrightarrow> \<not> u"
| "waiting _ \<longleftrightarrow> False"

text \<open>The wait list holds each waiting task once.\<close>

definition wait_list_ok :: "nat list \<Rightarrow> task_state list \<Rightarrow> bool" where
  "wait_list_ok wl ts \<longleftrightarrow> distinct wl \<and> (\<forall>t. t \<in> set wl \<longleftrightarrow> t < length ts \<and> waiting (ts ! t))"

definition sem_inv :: "u32 \<Rightarrow> sem_sys \<Rightarrow> bool" where
  "sem_inv val y \<longleftrightarrow>
     wait_list_ok (wait_list (sem y)) (tasks y)
     \<and> (wait_list (sem y) \<noteq> [] \<longrightarrow> sem_count (sem y) = 0)
     \<and> unat (sem_count (sem y)) + granted y = unat val + upped y"

lemma wait_list_ok_same:
  "wait_list_ok wl ts \<Longrightarrow> t < length ts \<Longrightarrow> waiting x = waiting (ts ! t) \<Longrightarrow> wait_list_ok wl (ts[t := x])"
  by (auto simp: wait_list_ok_def nth_list_update)

lemma wait_list_ok_add:
  "wait_list_ok wl ts \<Longrightarrow> t < length ts \<Longrightarrow> \<not> waiting (ts ! t) \<Longrightarrow> waiting x \<Longrightarrow>
     wait_list_ok (wl @ [t]) (ts[t := x])"
  by (auto simp: wait_list_ok_def nth_list_update)

lemma wait_list_ok_remove:
  "wait_list_ok wl ts \<Longrightarrow> t < length ts \<Longrightarrow> \<not> waiting x \<Longrightarrow> wait_list_ok (remove1 t wl) (ts[t := x])"
  by (auto simp: wait_list_ok_def nth_list_update)

lemma wait_list_ok_hd:
  "wait_list_ok (t # wl) ts \<Longrightarrow> \<not> waiting x \<Longrightarrow> wait_list_ok wl (ts[t := x])"
  using wait_list_ok_remove [of "t # wl" ts t x] by (auto simp: wait_list_ok_def)

lemma waiting_set_up [simp]: "\<not> waiting (set_up x)"
  by (cases x) auto

lemma down_round_inv:
  assumes "down_round mode timeout sg t s = (s', x)" "wait_list_ok (wait_list s) (ts[t := Sleeping m0 t0 False])"
    "t < length ts"
  shows "wait_list_ok (wait_list s') (ts[t := x]) \<and> sem_count s' = sem_count s \<and> x \<noteq> Returned None
    \<and> (wait_list s' \<noteq> [] \<longrightarrow> wait_list s \<noteq> [])"
  using assms wait_list_ok_remove [OF assms(2), of t x] wait_list_ok_same [OF assms(2), of t x]
  by (auto simp: down_round_def split: if_splits)

lemma sem_inv_down:
  assumes inv: "sem_inv val y" and t: "t < length (tasks y)" "tasks y ! t = Outside"
    and dn: "down_with mode timeout sg t (sem y) = (s', x)"
  shows "sem_inv val (y\<lparr>sem := s', tasks := (tasks y)[t := x], granted := granted y + of_bool (x = Returned None)\<rparr>)"
proof (cases "sem_count (sem y) > 0")
  case True
  then have "unat (sem_count (sem y) - 1) = unat (sem_count (sem y)) - 1" "0 < unat (sem_count (sem y))"
    by (auto simp: unat_minus_one word_gt_0 unat_gt_0)
  then show ?thesis using True inv t dn
    by (auto simp: down_with_def sem_inv_def intro: wait_list_ok_same)
next
  case False
  let ?s = "(sem y)\<lparr>wait_list := wait_list (sem y) @ [t]\<rparr>"
  have "wait_list_ok (wait_list ?s) ((tasks y)[t := Sleeping mode timeout False])"
    using inv t by (auto simp: sem_inv_def intro: wait_list_ok_add)
  with dn False t down_round_inv [of mode timeout sg t ?s s' x "tasks y"] show ?thesis
    using inv by (auto simp: down_with_def down_common_def sem_inv_def word_gt_0)
qed

lemma sem_inv_resume:
  assumes inv: "sem_inv val y" and t: "t < length (tasks y)" "tasks y ! t = Sleeping mode timeout u"
    and dn: "down_resume mode timeout' u sg t (sem y) = (s', x)"
  shows "sem_inv val (y\<lparr>sem := s', tasks := (tasks y)[t := x]\<rparr>)"
proof (cases u)
  case True
  then show ?thesis using inv t dn by (auto simp: down_resume_def sem_inv_def intro: wait_list_ok_same)
next
  case False
  have "wait_list_ok (wait_list (sem y)) ((tasks y)[t := Sleeping mode timeout False])"
    using inv t False by (auto simp: sem_inv_def intro: wait_list_ok_same)
  then show ?thesis using dn False t inv down_round_inv [of mode timeout' sg t "sem y" s' x "tasks y"]
    by (auto simp: down_resume_def sem_inv_def)
qed

lemma sem_inv_step:
  assumes inv: "sem_inv val y" and st: "sem_step y l y'"
  shows "sem_inv val y'"
  using st
proof cases
  case (down t mode timeout sg s' ts)
  then show ?thesis using sem_inv_down [OF inv] by simp
next
  case (resume t mode timeout u timeout' sg s' ts)
  then show ?thesis using sem_inv_resume [OF inv] by simp
next
  case (trylock t s' busy)
  have "Suc (unat (sem_count (sem y) - 1)) = unat (sem_count (sem y))" "sem_count (sem y) \<noteq> 0"
    if "sint (sem_count (sem y) - 1) \<ge> 0"
    using that by (auto intro!: Suc_unat_minus_one)
  then show ?thesis using inv trylock
    by (auto simp: down_trylock_def sem_inv_def Let_def split: if_splits)
next
  case (wake s' t)
  then show ?thesis using inv by (auto simp: up_def sem_inv_def intro: wait_list_ok_hd split: list.splits)
next
  case (release s')
  then have "unat (sem_count (sem y) + 1) = unat (sem_count (sem y)) + 1"
    by (subst unat_add_lem [THEN iffD1]) simp_all
  then show ?thesis using inv release by (auto simp: up_def sem_inv_def split: list.splits)
next
  case (leave t r)
  then show ?thesis using inv by (auto simp: sem_inv_def intro: wait_list_ok_same)
qed

interpretation sem: invariant_of "(=) (sem_init val ntasks)" sem_step "sem_inv val" for val ntasks
proof
  show "sem_inv val y" if "sem_init val ntasks = y" for y
    using that by (auto simp: sem_inv_def sem_init_def wait_list_ok_def)
qed (rule sem_inv_step)


text \<open>A run used as an example: one unit, one task takes it and another waits for it.\<close>

definition no_signals :: signals where
  "no_signals = \<lparr>signal_pending = False, fatal_signal_pending = False\<rparr>"

definition contended :: sem_sys where
  "contended = \<lparr>sem = \<lparr>sem_count = 0, wait_list = [1]\<rparr>,
     tasks = [Returned None, Sleeping TASK_INTERRUPTIBLE 100 False], granted = 1, upped = 0\<rparr>"

lemma contended_reachable: "reachable ((=) (sem_init 1 2)) sem_step contended"
proof -
  let ?y1 = "(sem_init 1 2)\<lparr>sem := \<lparr>sem_count = 0, wait_list = []\<rparr>, tasks := [Returned None, Outside], granted := 1\<rparr>"
  have "reachable ((=) (sem_init 1 2)) sem_step (sem_init 1 2)" by (rule reachable.start) simp
  moreover have "sem_step (sem_init 1 2) (Down TASK_UNINTERRUPTIBLE 100 no_signals 0) ?y1"
    using sem_step.down [of 0 "sem_init 1 2" TASK_UNINTERRUPTIBLE 100 no_signals]
    by (simp add: sem_init_def down_with_def numeral_2_eq_2)
  moreover have "sem_step ?y1 (Down TASK_INTERRUPTIBLE 100 no_signals 1) contended"
    using sem_step.down [of 1 ?y1 TASK_INTERRUPTIBLE 100 no_signals]
    by (simp add: sem_init_def down_with_def down_common_def down_round_def no_signals_def
        signal_pending_state_def contended_def)
  ultimately show ?thesis by (blast intro: reachable.step)
qed




text \<open>
  \<open>down\<close>, which throws the result of \<open>__down_common\<close> away, never returns without a unit: neither on
  entry nor when it is resumed can an uninterruptible wait without time limit end with an error.
\<close>

lemma down_never_fails:
  "snd (down sg task s) \<in> {Returned None, Sleeping TASK_UNINTERRUPTIBLE MAX_SCHEDULE_TIMEOUT False}
   \<and> snd (down_resume TASK_UNINTERRUPTIBLE MAX_SCHEDULE_TIMEOUT u sg' task s') \<in>
      {Returned None, Sleeping TASK_UNINTERRUPTIBLE MAX_SCHEDULE_TIMEOUT False}"
  by (auto simp: down_def down_with_def down_common_def down_resume_def down_round_def
      signal_pending_state_def MAX_SCHEDULE_TIMEOUT_def)

end
