(* ===== verification/Rwsem.thy ===== *)
theory Rwsem
  imports Kernel_Prelude
begin

text \<open>
  Read/write semaphores, the generic spinlock implementation this target uses
  (\<open>lib/rwsem-spinlock.c\<close>, \<open>include/linux/rwsem-spinlock.h\<close>).  Every operation runs under
  \<open>wait_lock\<close>, so each is one step on the semaphore; a task that has to wait sleeps until a release
  clears the \<open>task\<close> field of its waiter, which is what grants it the lock.
\<close>

subsection \<open>Data\<close>

datatype waiter_flag = RWSEM_WAITING_FOR_READ | RWSEM_WAITING_FOR_WRITE

record rw_semaphore =
  activity :: u32                              \<comment> \<open>\<open>__s32\<close>\<close>
  rw_wait_list :: "(nat \<times> waiter_flag) list"   \<comment> \<open>task and flags of each waiter\<close>

datatype rw_task =
    Idle
  | Waiting waiter_flag       \<comment> \<open>asleep, \<open>waiter.task\<close> set\<close>
  | Holding waiter_flag       \<comment> \<open>lock granted\<close>

subsection \<open>Operations\<close>

text \<open>The loop of \<open>__rwsem_do_wake\<close> that grants read locks to the front of the queue.\<close>

fun wake_readers :: "(nat \<times> waiter_flag) list \<Rightarrow> nat list \<times> (nat \<times> waiter_flag) list" where
  "wake_readers ((t, RWSEM_WAITING_FOR_READ) # ws) =
     (let (woken, rest) = wake_readers ws in (t # woken, rest))"
| "wake_readers ws = ([], ws)"

text \<open>\<open>__rwsem_do_wake\<close> on a nonempty list, with the tasks it wakes.\<close>

definition rwsem_do_wake :: "rw_semaphore \<Rightarrow> bool \<Rightarrow> rw_semaphore \<times> nat list" where
  "rwsem_do_wake s wakewrite =
     (case rw_wait_list s of
        [] \<Rightarrow> (s, [])
      | (t, fl) # ws \<Rightarrow>
          if fl = RWSEM_WAITING_FOR_WRITE then
            (if \<not> wakewrite then (s, []) else (s\<lparr>activity := - 1, rw_wait_list := ws\<rparr>, [t]))
          else
            (let (woken, rest) = wake_readers (rw_wait_list s) in
             (s\<lparr>activity := activity s + of_nat (length woken), rw_wait_list := rest\<rparr>, woken)))"

definition rwsem_wake_one_writer :: "rw_semaphore \<Rightarrow> rw_semaphore \<times> nat list" where
  "rwsem_wake_one_writer s =
     (case rw_wait_list s of
        [] \<Rightarrow> (s\<lparr>activity := - 1\<rparr>, [])
      | (t, fl) # ws \<Rightarrow> (s\<lparr>activity := - 1, rw_wait_list := ws\<rparr>, [t]))"

text \<open>The boolean says whether the lock is granted at once.\<close>

definition down_read :: "nat \<Rightarrow> rw_semaphore \<Rightarrow> rw_semaphore \<times> bool" where
  "down_read tsk s =
     (if sint (activity s) \<ge> 0 \<and> rw_wait_list s = [] then (s\<lparr>activity := activity s + 1\<rparr>, True)
      else (s\<lparr>rw_wait_list := rw_wait_list s @ [(tsk, RWSEM_WAITING_FOR_READ)]\<rparr>, False))"

definition down_read_trylock :: "rw_semaphore \<Rightarrow> rw_semaphore \<times> bool" where
  "down_read_trylock s =
     (if sint (activity s) \<ge> 0 \<and> rw_wait_list s = [] then (s\<lparr>activity := activity s + 1\<rparr>, True)
      else (s, False))"

definition down_write :: "nat \<Rightarrow> rw_semaphore \<Rightarrow> rw_semaphore \<times> bool" where
  "down_write tsk s =
     (if activity s = 0 \<and> rw_wait_list s = [] then (s\<lparr>activity := - 1\<rparr>, True)
      else (s\<lparr>rw_wait_list := rw_wait_list s @ [(tsk, RWSEM_WAITING_FOR_WRITE)]\<rparr>, False))"

definition down_write_trylock :: "rw_semaphore \<Rightarrow> rw_semaphore \<times> bool" where
  "down_write_trylock s =
     (if activity s = 0 \<and> rw_wait_list s = [] then (s\<lparr>activity := - 1\<rparr>, True) else (s, False))"

definition up_read :: "rw_semaphore \<Rightarrow> rw_semaphore \<times> nat list" where
  "up_read s =
     (let s = s\<lparr>activity := activity s - 1\<rparr> in
      if activity s = 0 \<and> rw_wait_list s \<noteq> [] then rwsem_wake_one_writer s else (s, []))"

definition up_write :: "rw_semaphore \<Rightarrow> rw_semaphore \<times> nat list" where
  "up_write s =
     (let s = s\<lparr>activity := 0\<rparr> in
      if rw_wait_list s \<noteq> [] then rwsem_do_wake s True else (s, []))"

definition downgrade_write :: "rw_semaphore \<Rightarrow> rw_semaphore \<times> nat list" where
  "downgrade_write s =
     (let s = s\<lparr>activity := 1\<rparr> in
      if rw_wait_list s \<noteq> [] then rwsem_do_wake s False else (s, []))"

text \<open>\<open>rwsem_is_locked\<close>; \<open>trylock\<close> is the outcome of \<open>raw_spin_trylock_irqsave\<close>.\<close>

definition rwsem_is_locked :: "bool \<Rightarrow> rw_semaphore \<Rightarrow> bool" where
  "rwsem_is_locked trylock s = (if trylock then activity s \<noteq> 0 else True)"

subsection \<open>The system\<close>

record rw_sys =
  rwsem :: rw_semaphore
  rw_tasks :: "rw_task list"

definition init_rwsem :: rw_semaphore where
  "init_rwsem = \<lparr>activity = 0, rw_wait_list = []\<rparr>"

definition rw_init :: "nat \<Rightarrow> rw_sys" where
  "rw_init n = \<lparr>rwsem = init_rwsem, rw_tasks = replicate n Idle\<rparr>"

text \<open>A woken waiter holds the lock in the mode it waited for.\<close>

fun grant :: "rw_task \<Rightarrow> rw_task" where
  "grant (Waiting fl) = Holding fl"
| "grant t = t"

fun grant_all :: "nat list \<Rightarrow> rw_task list \<Rightarrow> rw_task list" where
  "grant_all [] ts = ts"
| "grant_all (t # woken) ts = grant_all woken (ts[t := grant (ts ! t)])"

datatype rw_op =
    Down_read nat | Down_write nat | Try_read nat | Try_write nat | Up_read nat | Up_write nat | Downgrade nat

inductive rw_step :: "rw_sys \<Rightarrow> rw_op \<Rightarrow> rw_sys \<Rightarrow> bool" where
  down_read: "t < length (rw_tasks y) \<Longrightarrow> rw_tasks y ! t = Idle \<Longrightarrow> down_read t (rwsem y) = (s, ok) \<Longrightarrow>
    rw_step y (Down_read t) (y\<lparr>rwsem := s, rw_tasks := (rw_tasks y)
      [t := (if ok then Holding else Waiting) RWSEM_WAITING_FOR_READ]\<rparr>)"
| down_write: "t < length (rw_tasks y) \<Longrightarrow> rw_tasks y ! t = Idle \<Longrightarrow> down_write t (rwsem y) = (s, ok) \<Longrightarrow>
    rw_step y (Down_write t) (y\<lparr>rwsem := s, rw_tasks := (rw_tasks y)
      [t := (if ok then Holding else Waiting) RWSEM_WAITING_FOR_WRITE]\<rparr>)"
| try_read: "t < length (rw_tasks y) \<Longrightarrow> rw_tasks y ! t = Idle \<Longrightarrow> down_read_trylock (rwsem y) = (s, ok) \<Longrightarrow>
    rw_step y (Try_read t) (y\<lparr>rwsem := s, rw_tasks := (rw_tasks y)
      [t := (if ok then Holding RWSEM_WAITING_FOR_READ else Idle)]\<rparr>)"
| try_write: "t < length (rw_tasks y) \<Longrightarrow> rw_tasks y ! t = Idle \<Longrightarrow> down_write_trylock (rwsem y) = (s, ok) \<Longrightarrow>
    rw_step y (Try_write t) (y\<lparr>rwsem := s, rw_tasks := (rw_tasks y)
      [t := (if ok then Holding RWSEM_WAITING_FOR_WRITE else Idle)]\<rparr>)"
| up_read: "t < length (rw_tasks y) \<Longrightarrow> rw_tasks y ! t = Holding RWSEM_WAITING_FOR_READ \<Longrightarrow>
    up_read (rwsem y) = (s, woken) \<Longrightarrow>
    rw_step y (Up_read t) (y\<lparr>rwsem := s, rw_tasks := grant_all woken ((rw_tasks y)[t := Idle])\<rparr>)"
| up_write: "t < length (rw_tasks y) \<Longrightarrow> rw_tasks y ! t = Holding RWSEM_WAITING_FOR_WRITE \<Longrightarrow>
    up_write (rwsem y) = (s, woken) \<Longrightarrow>
    rw_step y (Up_write t) (y\<lparr>rwsem := s, rw_tasks := grant_all woken ((rw_tasks y)[t := Idle])\<rparr>)"
| downgrade: "t < length (rw_tasks y) \<Longrightarrow> rw_tasks y ! t = Holding RWSEM_WAITING_FOR_WRITE \<Longrightarrow>
    downgrade_write (rwsem y) = (s, woken) \<Longrightarrow>
    rw_step y (Downgrade t)
      (y\<lparr>rwsem := s, rw_tasks := grant_all woken ((rw_tasks y)[t := Holding RWSEM_WAITING_FOR_READ])\<rparr>)"

subsection \<open>The invariant\<close>

abbreviation readers :: "rw_task list \<Rightarrow> nat" where
  "readers ts \<equiv> count_if ((=) (Holding RWSEM_WAITING_FOR_READ)) ts"

abbreviation writers :: "rw_task list \<Rightarrow> nat" where
  "writers ts \<equiv> count_if ((=) (Holding RWSEM_WAITING_FOR_WRITE)) ts"

text \<open>The wait list holds each waiting task once, with the flag it waits for.\<close>

definition waiters_ok :: "(nat \<times> waiter_flag) list \<Rightarrow> rw_task list \<Rightarrow> bool" where
  "waiters_ok ws ts \<longleftrightarrow> distinct (map fst ws)
     \<and> (\<forall>t fl. (t, fl) \<in> set ws \<longleftrightarrow> t < length ts \<and> ts ! t = Waiting fl)"

text \<open>
  \<open>activity\<close> counts the readers or is \<open>-1\<close> for one writer; nobody waits for a free lock, and while
  readers hold it the first waiter is a writer.
\<close>

definition activity_ok :: "rw_semaphore \<Rightarrow> rw_task list \<Rightarrow> bool" where
  "activity_ok s ts \<longleftrightarrow>
     (if activity s = - 1 then writers ts = 1 \<and> readers ts = 0
      else activity s = of_nat (readers ts) \<and> writers ts = 0)"

definition queue_ok :: "rw_semaphore \<Rightarrow> bool" where
  "queue_ok s \<longleftrightarrow>
     (activity s = 0 \<longrightarrow> rw_wait_list s = [])
     \<and> (activity s \<noteq> - 1 \<longrightarrow> rw_wait_list s \<noteq> [] \<longrightarrow> snd (hd (rw_wait_list s)) = RWSEM_WAITING_FOR_WRITE)"

definition rw_inv :: "rw_sys \<Rightarrow> bool" where
  "rw_inv y \<longleftrightarrow> length (rw_tasks y) < 2 ^ 31
     \<and> waiters_ok (rw_wait_list (rwsem y)) (rw_tasks y)
     \<and> activity_ok (rwsem y) (rw_tasks y) \<and> queue_ok (rwsem y)"

lemma waiters_ok_same:
  "waiters_ok ws ts \<Longrightarrow> t < length ts \<Longrightarrow> (\<forall>fl. ts ! t \<noteq> Waiting fl) \<Longrightarrow> (\<forall>fl. x \<noteq> Waiting fl) \<Longrightarrow>
     waiters_ok ws (ts[t := x])"
  by (auto simp: waiters_ok_def nth_list_update)

lemma waiters_ok_add:
  assumes "waiters_ok ws ts" "t < length ts" "\<forall>fl. ts ! t \<noteq> Waiting fl"
  shows "waiters_ok (ws @ [(t, fl)]) (ts[t := Waiting fl])"
proof -
  have "t \<notin> fst ` set ws" using assms by (auto simp: waiters_ok_def)
  then show ?thesis using assms by (auto simp: waiters_ok_def nth_list_update)
qed

lemma waiters_ok_pop:
  assumes "waiters_ok ((t, fl) # ws) ts"
  shows "t < length ts" "ts ! t = Waiting fl" "waiters_ok ws (ts[t := Holding fl])"
proof -
  show t: "t < length ts" "ts ! t = Waiting fl" using assms by (auto simp: waiters_ok_def)
  have "(t', fl') \<in> set ws \<longleftrightarrow> t' < length ts \<and> ts[t := Holding fl] ! t' = Waiting fl'" for t' fl'
  proof (cases "t' = t")
    case True
    then show ?thesis using assms t by (force simp: waiters_ok_def)
  next
    case False
    have "(t', fl') \<in> set ((t, fl) # ws) \<longleftrightarrow> t' < length ts \<and> ts ! t' = Waiting fl'"
      using assms by (simp only: waiters_ok_def)
    then show ?thesis using False by simp
  qed
  then show "waiters_ok ws (ts[t := Holding fl])" using assms by (simp add: waiters_ok_def)
qed

lemma holders_update:
  assumes "t < length ts"
  shows "readers (ts[t := x]) =
      readers ts + of_bool (x = Holding RWSEM_WAITING_FOR_READ) - of_bool (ts ! t = Holding RWSEM_WAITING_FOR_READ)"
    and "writers (ts[t := x]) =
      writers ts + of_bool (x = Holding RWSEM_WAITING_FOR_WRITE) - of_bool (ts ! t = Holding RWSEM_WAITING_FOR_WRITE)"
  using count_if_update [OF assms, of "(=) (Holding RWSEM_WAITING_FOR_READ)" x]
    count_if_update [OF assms, of "(=) (Holding RWSEM_WAITING_FOR_WRITE)" x]
  by (simp_all add: eq_commute)

lemma wake_readers_spec:
  "waiters_ok ws ts \<Longrightarrow> wake_readers ws = (woken, rest) \<Longrightarrow>
     waiters_ok rest (grant_all woken ts)
     \<and> readers (grant_all woken ts) = readers ts + length woken
     \<and> writers (grant_all woken ts) = writers ts
     \<and> length (grant_all woken ts) = length ts
     \<and> (rest = [] \<or> snd (hd rest) = RWSEM_WAITING_FOR_WRITE)"
proof (induction ws arbitrary: ts woken rest rule: wake_readers.induct)
  case (1 t ws)
  obtain wk where wk: "wake_readers ws = (wk, rest)" "woken = t # wk"
    using "1.prems"(2) by (auto split: prod.splits)
  note pop = waiters_ok_pop [OF "1.prems"(1)]
  let ?ts = "ts[t := Holding RWSEM_WAITING_FOR_READ]"
  have "readers ?ts = readers ts + 1" "writers ?ts = writers ts"
    using pop by (simp_all add: holders_update)
  then show ?case using "1.IH" [OF pop(3) wk(1)] wk(2) pop(2) by simp
qed auto

lemma of_nat_small:
  assumes "n < 2 ^ 31"
  shows "(of_nat n :: u32) \<noteq> - 1" "sint (of_nat n :: u32) = int n" "(of_nat n :: u32) = 0 \<longleftrightarrow> n = 0"
proof -
  have u: "unat (of_nat n :: u32) = n" using assms by (simp add: unat_of_nat)
  show s: "sint (of_nat n :: u32) = int n" using assms u sint_u32_small [of "of_nat n"] by simp
  show "(of_nat n :: u32) \<noteq> - 1" using s by (intro notI) simp
  show "(of_nat n :: u32) = 0 \<longleftrightarrow> n = 0" using u by auto
qed

text \<open>What the two wake-up routines establish.\<close>

lemma wake_one_writer_ok:
  assumes "waiters_ok (rw_wait_list s) ts" "readers ts = 0" "writers ts = 0"
    and "rw_wait_list s \<noteq> []" "snd (hd (rw_wait_list s)) = RWSEM_WAITING_FOR_WRITE"
    and "rwsem_wake_one_writer s = (s', woken)" "length ts < 2 ^ 31"
  shows "rw_inv \<lparr>rwsem = s', rw_tasks = grant_all woken ts\<rparr>"
proof -
  obtain t ws where ws: "rw_wait_list s = (t, RWSEM_WAITING_FOR_WRITE) # ws"
    using assms(4,5) by (cases "rw_wait_list s") auto
  note pop = waiters_ok_pop [OF assms(1) [unfolded ws]]
  let ?ts = "ts[t := Holding RWSEM_WAITING_FOR_WRITE]"
  have "readers ?ts = 0" "writers ?ts = 1"
    using pop assms(2,3) by (simp_all add: holders_update)
  then show ?thesis using assms(6,7) pop ws
    by (auto simp: rwsem_wake_one_writer_def rw_inv_def activity_ok_def queue_ok_def)
qed

lemma do_wake_ok:
  assumes wk: "waiters_ok (rw_wait_list s) ts" and h: "activity s = of_nat (readers ts)" "writers ts = 0"
    and ww: "wakewrite \<longrightarrow> readers ts = 0" and nw: "\<not> wakewrite \<longrightarrow> 0 < readers ts"
    and ne: "rw_wait_list s \<noteq> []" and do: "rwsem_do_wake s wakewrite = (s', woken)" and len: "length ts < 2 ^ 31"
  shows "rw_inv \<lparr>rwsem = s', rw_tasks = grant_all woken ts\<rparr>"
proof -
  obtain t fl ws where ws: "rw_wait_list s = (t, fl) # ws" using ne by (cases "rw_wait_list s") auto
  have small: "readers ts < 2 ^ 31" using count_if_le [of _ ts] len by (rule le_less_trans)
  show ?thesis
  proof (cases fl)
    case RWSEM_WAITING_FOR_WRITE
    then have hd: "snd (hd (rw_wait_list s)) = RWSEM_WAITING_FOR_WRITE" using ws by simp
    show ?thesis
    proof (cases wakewrite)
      case True
      then have "rwsem_wake_one_writer s = (s', woken)"
        using do ws RWSEM_WAITING_FOR_WRITE by (auto simp: rwsem_do_wake_def rwsem_wake_one_writer_def)
      then show ?thesis using wake_one_writer_ok [OF wk] True ww h ne hd len by simp
    next
      case False
      then show ?thesis using do ws RWSEM_WAITING_FOR_WRITE h wk len nw of_nat_small [OF small]
        by (auto simp: rwsem_do_wake_def rw_inv_def activity_ok_def queue_ok_def)
    qed
  next
    case RWSEM_WAITING_FOR_READ
    then obtain rest where r: "wake_readers (rw_wait_list s) = (woken, rest)"
      and s': "s' = s\<lparr>activity := activity s + of_nat (length woken), rw_wait_list := rest\<rparr>"
      using do ws by (auto simp: rwsem_do_wake_def split: prod.splits)
    note sp = wake_readers_spec [OF wk r]
    have "woken \<noteq> []" using r ws RWSEM_WAITING_FOR_READ by (auto split: prod.splits)
    moreover have "readers (grant_all woken ts) < 2 ^ 31" using count_if_le [of _ "grant_all woken ts"] sp len by (metis le_less_trans)
    ultimately show ?thesis using sp s' h len of_nat_small [of "readers ts + length woken"]
      by (auto simp: rw_inv_def activity_ok_def queue_ok_def)
  qed
qed

lemma rw_inv_update: "rw_inv (y\<lparr>rwsem := s, rw_tasks := ts\<rparr>) \<longleftrightarrow> rw_inv \<lparr>rwsem = s, rw_tasks = ts\<rparr>"
  by (simp add: rw_inv_def)

lemma rw_inv_same [simp]: "rw_inv \<lparr>rwsem = rwsem y, rw_tasks = rw_tasks y\<rparr> \<longleftrightarrow> rw_inv y"
  by (simp add: rw_inv_def)

lemma holder_pos:
  "t < length ts \<Longrightarrow> ts ! t = Holding RWSEM_WAITING_FOR_READ \<Longrightarrow> 0 < readers ts"
  "t < length ts \<Longrightarrow> ts ! t = Holding RWSEM_WAITING_FOR_WRITE \<Longrightarrow> 0 < writers ts"
  by (auto intro: count_if_pos)

lemma readers_small: "length ts < 2 ^ 31 \<Longrightarrow> readers ts < 2 ^ 31"
  by (rule le_less_trans [OF count_if_le])

lemma rw_inv_take:
  assumes inv: "rw_inv y" and t: "t < length (rw_tasks y)" "rw_tasks y ! t = Idle"
    and free: "rw_wait_list (rwsem y) = []"
  shows "sint (activity (rwsem y)) \<ge> 0 \<Longrightarrow>
      rw_inv \<lparr>rwsem = (rwsem y)\<lparr>activity := activity (rwsem y) + 1\<rparr>,
        rw_tasks = (rw_tasks y)[t := Holding RWSEM_WAITING_FOR_READ]\<rparr>"
    and "activity (rwsem y) = 0 \<Longrightarrow>
      rw_inv \<lparr>rwsem = (rwsem y)\<lparr>activity := - 1\<rparr>,
        rw_tasks = (rw_tasks y)[t := Holding RWSEM_WAITING_FOR_WRITE]\<rparr>"
proof -
  note small = readers_small [of "rw_tasks y"]
  note small' = readers_small [of "(rw_tasks y)[t := Holding RWSEM_WAITING_FOR_READ]"]
  have wk: "waiters_ok [] ((rw_tasks y)[t := Holding fl])" for fl
    using inv t free by (auto simp: rw_inv_def intro: waiters_ok_same)
  show "rw_inv \<lparr>rwsem = (rwsem y)\<lparr>activity := activity (rwsem y) + 1\<rparr>,
        rw_tasks = (rw_tasks y)[t := Holding RWSEM_WAITING_FOR_READ]\<rparr>"
    if "sint (activity (rwsem y)) \<ge> 0"
    using that inv t free wk of_nat_small [OF small'] by (auto simp: rw_inv_def activity_ok_def queue_ok_def holders_update
        add.commute split: if_splits)
  show "rw_inv \<lparr>rwsem = (rwsem y)\<lparr>activity := - 1\<rparr>,
        rw_tasks = (rw_tasks y)[t := Holding RWSEM_WAITING_FOR_WRITE]\<rparr>"
    if "activity (rwsem y) = 0"
    using that inv t free wk of_nat_small [OF small] by (auto simp: rw_inv_def activity_ok_def queue_ok_def holders_update)
qed

lemma rw_inv_wait:
  assumes inv: "rw_inv y" and t: "t < length (rw_tasks y)" "rw_tasks y ! t = Idle"
    and busy: "rw_wait_list (rwsem y) = [] \<longrightarrow>
      activity (rwsem y) = - 1 \<or> activity (rwsem y) \<noteq> 0 \<and> fl = RWSEM_WAITING_FOR_WRITE"
  shows "rw_inv \<lparr>rwsem = (rwsem y)\<lparr>rw_wait_list := rw_wait_list (rwsem y) @ [(t, fl)]\<rparr>,
        rw_tasks = (rw_tasks y)[t := Waiting fl]\<rparr>"
proof -
  have "waiters_ok (rw_wait_list (rwsem y) @ [(t, fl)]) ((rw_tasks y)[t := Waiting fl])"
    using inv t by (auto simp: rw_inv_def intro: waiters_ok_add)
  then show ?thesis using inv t busy
    by (cases "rw_wait_list (rwsem y)") (auto simp: rw_inv_def activity_ok_def queue_ok_def holders_update)
qed

lemma rw_inv_up_read:
  assumes inv: "rw_inv y" and t: "t < length (rw_tasks y)" "rw_tasks y ! t = Holding RWSEM_WAITING_FOR_READ"
    and up: "up_read (rwsem y) = (s, woken)"
  shows "rw_inv \<lparr>rwsem = s, rw_tasks = grant_all woken ((rw_tasks y)[t := Idle])\<rparr>"
proof -
  let ?ts = "(rw_tasks y)[t := Idle]"
  let ?s = "(rwsem y)\<lparr>activity := activity (rwsem y) - 1\<rparr>"
  have pos: "0 < readers (rw_tasks y)" using holder_pos(1) [OF t] .
  then have a: "activity (rwsem y) = of_nat (readers (rw_tasks y))" "writers (rw_tasks y) = 0"
      "activity (rwsem y) \<noteq> - 1" "length ?ts < 2 ^ 31"
    using inv by (auto simp: rw_inv_def activity_ok_def split: if_splits)
  have ts: "readers ?ts = readers (rw_tasks y) - 1" "writers ?ts = 0" using t a by (simp_all add: holders_update)
  then have a': "activity ?s = of_nat (readers ?ts)" using a pos by (simp add: of_nat_diff)
  note small = of_nat_small [OF readers_small [OF a(4)]]
  have wk: "waiters_ok (rw_wait_list ?s) ?ts" using inv t by (auto simp: rw_inv_def intro: waiters_ok_same)
  have hd: "snd (hd (rw_wait_list ?s)) = RWSEM_WAITING_FOR_WRITE" if "rw_wait_list ?s \<noteq> []"
    using inv a that by (auto simp: rw_inv_def queue_ok_def)
  show ?thesis
  proof (cases "activity ?s = 0 \<and> rw_wait_list ?s \<noteq> []")
    case True
    then show ?thesis using wake_one_writer_ok [OF wk _ ts(2) _ hd _ a(4)] a' small up by (auto simp: up_read_def Let_def)
  next
    case False
    then have "s = ?s" "woken = []" using up by (auto simp: up_read_def Let_def)
    then show ?thesis using False a(4) a' ts wk hd small
      by (auto simp: rw_inv_def activity_ok_def queue_ok_def)
  qed
qed

lemma rw_inv_writer:
  assumes "rw_inv y" "t < length (rw_tasks y)" "rw_tasks y ! t = Holding RWSEM_WAITING_FOR_WRITE"
    and "\<forall>fl. x \<noteq> Waiting fl"
  shows "activity (rwsem y) = - 1" "readers ((rw_tasks y)[t := x]) = of_bool (x = Holding RWSEM_WAITING_FOR_READ)"
    "x \<noteq> Holding RWSEM_WAITING_FOR_WRITE \<Longrightarrow> writers ((rw_tasks y)[t := x]) = 0"
    "waiters_ok (rw_wait_list (rwsem y)) ((rw_tasks y)[t := x])"
  using assms holder_pos(2) [OF assms(2,3)]
  by (auto simp: rw_inv_def activity_ok_def holders_update waiters_ok_same split: if_splits)

lemma rw_inv_up_write:
  assumes inv: "rw_inv y" and t: "t < length (rw_tasks y)" "rw_tasks y ! t = Holding RWSEM_WAITING_FOR_WRITE"
    and up: "up_write (rwsem y) = (s, woken)"
  shows "rw_inv \<lparr>rwsem = s, rw_tasks = grant_all woken ((rw_tasks y)[t := Idle])\<rparr>"
proof -
  note w = rw_inv_writer [OF inv t, of Idle]
  have len: "length ((rw_tasks y)[t := Idle]) < 2 ^ 31" using inv by (simp add: rw_inv_def)
  show ?thesis
    using up w len do_wake_ok [of "(rwsem y)\<lparr>activity := 0\<rparr>" "(rw_tasks y)[t := Idle]" True]
    by (cases "rw_wait_list (rwsem y) = []") (auto simp: up_write_def rw_inv_def activity_ok_def queue_ok_def)
qed

lemma rw_inv_downgrade:
  assumes inv: "rw_inv y" and t: "t < length (rw_tasks y)" "rw_tasks y ! t = Holding RWSEM_WAITING_FOR_WRITE"
    and up: "downgrade_write (rwsem y) = (s, woken)"
  shows "rw_inv \<lparr>rwsem = s, rw_tasks = grant_all woken ((rw_tasks y)[t := Holding RWSEM_WAITING_FOR_READ])\<rparr>"
proof -
  note w = rw_inv_writer [OF inv t, of "Holding RWSEM_WAITING_FOR_READ"]
  have len: "length ((rw_tasks y)[t := Holding RWSEM_WAITING_FOR_READ]) < 2 ^ 31" using inv by (simp add: rw_inv_def)
  show ?thesis
    using up w len
      do_wake_ok [of "(rwsem y)\<lparr>activity := 1\<rparr>" "(rw_tasks y)[t := Holding RWSEM_WAITING_FOR_READ]" False]
    by (cases "rw_wait_list (rwsem y) = []")
      (auto simp: downgrade_write_def rw_inv_def activity_ok_def queue_ok_def)
qed

lemma rw_inv_step:
  assumes inv: "rw_inv y" and st: "rw_step y l y'"
  shows "rw_inv y'"
proof -
  note take = rw_inv_take [OF inv] and wait = rw_inv_wait [OF inv]
  have act: "sint (activity (rwsem y)) < 0 \<Longrightarrow> activity (rwsem y) = - 1"
    using inv of_nat_small(2) [OF readers_small] by (auto simp: rw_inv_def activity_ok_def split: if_splits)
  have q0: "activity (rwsem y) = 0 \<Longrightarrow> rw_wait_list (rwsem y) = []" using inv by (simp add: rw_inv_def queue_ok_def)
  from st show ?thesis
  proof cases
    case (down_read t s ok)
    then show ?thesis using take(1) wait act by (auto simp: down_read_def rw_inv_update not_le split: if_splits)
  next
    case (down_write t s ok)
    then show ?thesis using take(2) wait act q0 by (auto simp: down_write_def rw_inv_update split: if_splits)
  next
    case (try_read t s ok)
    then show ?thesis using take(1) inv
      by (auto simp: down_read_trylock_def rw_inv_update list_update_same_conv [THEN iffD2] split: if_splits)
  next
    case (try_write t s ok)
    then show ?thesis using take(2) inv
      by (auto simp: down_write_trylock_def rw_inv_update list_update_same_conv [THEN iffD2] split: if_splits)
  next
    case (up_read t s woken)
    then show ?thesis using rw_inv_up_read [OF inv] by (simp add: rw_inv_update)
  next
    case (up_write t s woken)
    then show ?thesis using rw_inv_up_write [OF inv] by (simp add: rw_inv_update)
  next
    case (downgrade t s woken)
    then show ?thesis using rw_inv_downgrade [OF inv] by (simp add: rw_inv_update)
  qed
qed

definition rw_start :: "rw_sys \<Rightarrow> bool" where
  "rw_start y \<longleftrightarrow> length (rw_tasks y) < 2 ^ 31 \<and> y = rw_init (length (rw_tasks y))"

interpretation rw: invariant_of rw_start rw_step rw_inv
proof
  show "rw_inv y" if "rw_start y" for y
  proof -
    obtain n where "y = rw_init n" "n < 2 ^ 31" using \<open>rw_start y\<close> by (auto simp: rw_start_def)
    moreover have "count_if ((=) (Holding fl)) (replicate n Idle) = 0" for fl
      by (auto simp: count_if_def filter_empty_conv)
    ultimately show ?thesis
      by (auto simp: rw_inv_def rw_init_def init_rwsem_def waiters_ok_def activity_ok_def queue_ok_def)
  qed
qed (rule rw_inv_step)

text \<open>
  C9. Mutual exclusion: in every reachable state at most one task holds the semaphore for writing, and
  then nobody holds it for reading; \<open>activity\<close> is -1 exactly then and counts the readers otherwise, so
  \<open>rwsem_is_locked\<close>, when it gets the spinlock, says whether anyone holds it.
\<close>

theorem rwsem_excludes:
  assumes "reachable rw_start rw_step y"
  shows "writers (rw_tasks y) \<le> 1 \<and> (writers (rw_tasks y) = 1 \<longrightarrow> readers (rw_tasks y) = 0)
    \<and> (activity (rwsem y) = - 1 \<longleftrightarrow> writers (rw_tasks y) = 1)
    \<and> (writers (rw_tasks y) = 0 \<longrightarrow> sint (activity (rwsem y)) = int (readers (rw_tasks y)))
    \<and> (rwsem_is_locked True (rwsem y) \<longleftrightarrow> 0 < readers (rw_tasks y) + writers (rw_tasks y))"
  using rw.reachable_inv [OF assms] of_nat_small [OF readers_small, of "rw_tasks y"]
  by (auto simp: rw_inv_def activity_ok_def rwsem_is_locked_def split: if_splits)

text \<open>A run used as an example: a reader holds the semaphore, a writer waits, a second reader comes.\<close>

definition queued :: rw_sys where
  "queued = \<lparr>rwsem = \<lparr>activity = 1, rw_wait_list = [(1, RWSEM_WAITING_FOR_WRITE)]\<rparr>,
     rw_tasks = [Holding RWSEM_WAITING_FOR_READ, Waiting RWSEM_WAITING_FOR_WRITE, Idle]\<rparr>"

lemma queued_reachable: "reachable rw_start rw_step queued"
proof -
  let ?y1 = "\<lparr>rwsem = \<lparr>activity = 1, rw_wait_list = []\<rparr>, rw_tasks = [Holding RWSEM_WAITING_FOR_READ, Idle, Idle]\<rparr>"
  have "reachable rw_start rw_step (rw_init 3)" by (rule reachable.start) (simp add: rw_start_def rw_init_def)
  moreover have "rw_step (rw_init 3) (Down_read 0) ?y1"
    using rw_step.down_read [of 0 "rw_init 3"]
    by (simp add: rw_init_def init_rwsem_def down_read_def numeral_3_eq_3)
  moreover have "rw_step ?y1 (Down_write 1) queued"
    using rw_step.down_write [of 1 ?y1 _ False] by (simp add: down_write_def queued_def)
  ultimately show ?thesis by (blast intro: reachable.step)
qed

theorem rwsem_excludes_witness:
  "writers (rw_tasks queued) \<le> 1 \<and> sint (activity (rwsem queued)) = int (readers (rw_tasks queued))"
  using rwsem_excludes [OF queued_reachable] by (simp add: queued_def)



text \<open>
  When the last reader leaves, \<open>__rwsem_wake_one_writer\<close> takes the first waiter to be a writer
  without looking at its flags; in every reachable state it is one.
\<close>

lemma wake_one_writer_wakes_a_writer:
  assumes "reachable rw_start rw_step y" "t < length (rw_tasks y)"
    "rw_tasks y ! t = Holding RWSEM_WAITING_FOR_READ" "up_read (rwsem y) = (s, w # ws)"
  shows "ws = [] \<and> w < length (rw_tasks y) \<and> rw_tasks y ! w = Waiting RWSEM_WAITING_FOR_WRITE \<and> activity s = - 1"
proof -
  have inv: "rw_inv y" using rw.reachable_inv [OF assms(1)] .
  have "activity (rwsem y) \<noteq> - 1"
    using inv holder_pos(1) [OF assms(2,3)] by (auto simp: rw_inv_def activity_ok_def split: if_splits)
  moreover obtain fl qs where "rw_wait_list (rwsem y) = (w, fl) # qs" "ws = []" "activity s = - 1"
    using assms(4) by (auto simp: up_read_def rwsem_wake_one_writer_def Let_def split: if_splits list.splits)
  ultimately show ?thesis using inv waiters_ok_pop [of w fl qs "rw_tasks y"] by (auto simp: rw_inv_def queue_ok_def)
qed

lemma wake_one_writer_wakes_a_writer_witness:
  "\<exists>s. up_read (rwsem queued) = (s, [1]) \<and> rw_tasks queued ! 1 = Waiting RWSEM_WAITING_FOR_WRITE \<and> activity s = - 1"
proof -
  have "\<exists>s. up_read (rwsem queued) = (s, [1])"
    by (simp add: queued_def up_read_def rwsem_wake_one_writer_def)
  then show ?thesis
    using wake_one_writer_wakes_a_writer [OF queued_reachable, of 0 _ 1 "[]"] by (auto simp: queued_def)
qed

end
