(* ===== verification/Resource_Tree.thy ===== *)
theory Resource_Tree
  imports Kernel_Prelude
begin

text \<open>
  The tree of I/O port and memory ranges (\<open>kernel/resource.c\<close>, \<open>include/linux/ioport.h\<close>).  A node
  carries its descriptor and the list its \<open>child\<close> and \<open>sibling\<close> pointers make; the address of the
  descriptor is \<open>r_id\<close>, compared where the code compares pointers.  \<open>resource_size_t\<close> is 32 bits wide.
  Operations take the node they work under and return it updated; \<open>resource_lock\<close> makes each atomic.
\<close>

subsection \<open>Data\<close>

datatype resource = Resource
  (r_id: nat) (r_start: u32) (r_end: u32) (r_name: string) (r_flags: u32) (r_child: "resource list")

definition set_child :: "resource \<Rightarrow> resource list \<Rightarrow> resource" where
  "set_child r cs = Resource (r_id r) (r_start r) (r_end r) (r_name r) (r_flags r) cs"

definition set_range :: "resource \<Rightarrow> u32 \<Rightarrow> u32 \<Rightarrow> resource" where
  "set_range r s e = Resource (r_id r) s e (r_name r) (r_flags r) (r_child r)"

definition IORESOURCE_BUSY :: u32 where "IORESOURCE_BUSY = 0x80000000"
definition IORESOURCE_MUXED :: u32 where "IORESOURCE_MUXED = 0x00400000"
definition IORESOURCE_EXCLUSIVE :: u32 where "IORESOURCE_EXCLUSIVE = 0x08000000"
definition IORESOURCE_MEM :: u32 where "IORESOURCE_MEM = 0x00000200"
definition IORESOURCE_SIZEALIGN :: u32 where "IORESOURCE_SIZEALIGN = 0x00040000"
definition IORESOURCE_STARTALIGN :: u32 where "IORESOURCE_STARTALIGN = 0x00080000"

definition resource_size :: "resource \<Rightarrow> u32" where
  "resource_size r = r_end r - r_start r + 1"

text \<open>The order in which \<open>r_next\<close> visits the nodes below a list of siblings.\<close>

fun r_walk :: "resource \<Rightarrow> resource list" where
  "r_walk (Resource i s e n f cs) = Resource i s e n f cs # concat (map r_walk cs)"

subsection \<open>Requesting and releasing\<close>

text \<open>
  The loop of \<open>__request_resource\<close> over the siblings: the list with \<open>new\<close> linked in, or the position
  and the descriptor of the first conflicting sibling.
\<close>

fun request_siblings :: "resource \<Rightarrow> resource list \<Rightarrow> (nat \<times> resource) + resource list" where
  "request_siblings new [] = Inr [new]"
| "request_siblings new (tmp # ts) =
     (if r_start tmp > r_end new then Inr (new # tmp # ts)
      else if r_end tmp < r_start new then
        (case request_siblings new ts of Inl (i, c) \<Rightarrow> Inl (i + 1, c) | Inr ts' \<Rightarrow> Inr (tmp # ts'))
      else Inl (0, tmp))"

text \<open>
  \<open>__request_resource\<close>: the conflicting descriptor is the root itself or the child at a position.
\<close>

datatype request_result = Placed resource | Conflict_root | Conflict_child nat resource

definition request_resource :: "resource \<Rightarrow> resource \<Rightarrow> request_result" where
  "request_resource root new =
     (if r_end new < r_start new then Conflict_root
      else if r_start new < r_start root then Conflict_root
      else if r_end new > r_end root then Conflict_root
      else
        (case request_siblings new (r_child root) of
           Inr cs \<Rightarrow> Placed (set_child root cs)
         | Inl (i, c) \<Rightarrow> Conflict_child i c))"

text \<open>\<open>__release_resource\<close> on the parent of \<open>old\<close>.\<close>

fun release_sibling :: "nat \<Rightarrow> resource list \<Rightarrow> resource list option" where
  "release_sibling old [] = None"
| "release_sibling old (tmp # ts) =
     (if r_id tmp = old then Some ts
      else (case release_sibling old ts of None \<Rightarrow> None | Some ts' \<Rightarrow> Some (tmp # ts')))"

definition release_resource :: "resource \<Rightarrow> nat \<Rightarrow> errno option \<times> resource" where
  "release_resource parent old =
     (case release_sibling old (r_child parent) of
        None \<Rightarrow> (Some EINVAL, parent)
      | Some cs \<Rightarrow> (None, set_child parent cs))"

text \<open>\<open>__release_child_resources\<close>: the descriptors taken out, each rebased to start at 0.\<close>

fun detach_children :: "resource \<Rightarrow> resource list" where
  "detach_children (Resource i s e n f cs) =
     concat (map (\<lambda>c. detach_children c @ [set_child (set_range c 0 (resource_size c - 1)) []]) cs)"

definition release_child_resources :: "resource \<Rightarrow> resource \<times> resource list" where
  "release_child_resources r = (set_child r [], detach_children r)"

definition lookup_resource :: "resource \<Rightarrow> u32 \<Rightarrow> resource option" where
  "lookup_resource root start = find (\<lambda>r. r_start r = start) (r_child root)"

definition resource_alignment :: "resource \<Rightarrow> u32" where
  "resource_alignment r =
     (let fl = r_flags r AND (IORESOURCE_SIZEALIGN OR IORESOURCE_STARTALIGN) in
      if fl = IORESOURCE_SIZEALIGN then resource_size r
      else if fl = IORESOURCE_STARTALIGN then r_start r
      else 0)"

subsection \<open>Finding a free slot\<close>

record resource_constraint =
  c_min :: u32
  c_max :: u32
  c_align :: u32
  c_alignf :: "u32 \<Rightarrow> u32 \<Rightarrow> u32 \<Rightarrow> u32 \<Rightarrow> u32"   \<comment> \<open>of the available range, size and alignment\<close>

definition simple_align_resource :: "u32 \<Rightarrow> u32 \<Rightarrow> u32 \<Rightarrow> u32 \<Rightarrow> u32" where
  "simple_align_resource avail_start avail_end sz al = avail_start"

definition ALIGN :: "u32 \<Rightarrow> u32 \<Rightarrow> u32" where
  "ALIGN x a = (x + (a - 1)) AND NOT (a - 1)"

definition range_contains :: "u32 \<times> u32 \<Rightarrow> u32 \<times> u32 \<Rightarrow> bool" where
  "range_contains r1 r2 \<longleftrightarrow> fst r1 \<le> fst r2 \<and> snd r1 \<ge> snd r2"

definition resource_clip :: "u32 \<times> u32 \<Rightarrow> u32 \<Rightarrow> u32 \<Rightarrow> u32 \<times> u32" where
  "resource_clip r mn mx = (if fst r < mn then mn else fst r, if snd r > mx then mx else snd r)"

text \<open>What \<open>__find_resource\<close> makes of a gap that is not empty: the clipped gap and the slot in it.\<close>

definition try_gap :: "resource_constraint \<Rightarrow> u32 \<Rightarrow> u32 \<times> u32 \<Rightarrow> (u32 \<times> u32) option" where
  "try_gap c sz tmp =
     (let avail = (ALIGN (fst tmp) (c_align c), snd tmp) in
      if fst avail \<ge> fst tmp then
        (let astart = c_alignf c (fst avail) (snd avail) sz (c_align c);
             alloc = (astart, astart + sz - 1)
         in if range_contains avail alloc then Some alloc else None)
      else None)"

text \<open>
  The loop of \<open>__find_resource\<close>; \<open>old\<close> is the descriptor whose own range counts as free, if any, and
  \<open>tstart\<close> the start of the gap being looked at.
\<close>

fun find_gap ::
    "resource \<Rightarrow> nat option \<Rightarrow> u32 \<Rightarrow> resource_constraint \<Rightarrow> u32 \<Rightarrow> resource list \<Rightarrow> (u32 \<times> u32) option" where
  "find_gap root old sz c tstart [] =
     (if r_end root < tstart then None
      else try_gap c sz (resource_clip (tstart, r_end root) (c_min c) (c_max c)))"
| "find_gap root old sz c tstart (this # ts) =
     (let tend = (if old = Some (r_id this) then r_end this else r_start this - 1);
          empty = tend < tstart;
          tmp = (if empty then (tstart, tend) else resource_clip (tstart, tend) (c_min c) (c_max c))
      in case (if empty then None else try_gap c sz tmp) of
           Some alloc \<Rightarrow> Some alloc
         | None \<Rightarrow>
             if r_end this = r_end root then None
             else find_gap root old sz c
                    (if old \<noteq> Some (r_id this) then r_end this + 1 else fst tmp) ts)"

definition find_resource ::
    "resource \<Rightarrow> nat option \<Rightarrow> u32 \<Rightarrow> resource_constraint \<Rightarrow> (u32 \<times> u32) option" where
  "find_resource root old sz c =
     (case r_child root of
        this # ts \<Rightarrow>
          if r_start this = r_start root then
            find_gap root old sz c (if old = Some (r_id this) then r_start this else r_end this + 1) ts
          else find_gap root old sz c (r_start root) (this # ts)
      | [] \<Rightarrow> find_gap root old sz c (r_start root) [])"

text \<open>\<open>allocate_resource\<close> of a descriptor that is not in the tree.\<close>

definition allocate_resource ::
    "resource \<Rightarrow> resource \<Rightarrow> u32 \<Rightarrow> resource_constraint \<Rightarrow> errno + (resource \<times> resource)" where
  "allocate_resource root new sz c =
     (case find_resource root None sz c of
        None \<Rightarrow> Inl EBUSY
      | Some (s, e) \<Rightarrow>
          (case request_resource root (set_range new s e) of
             Placed root' \<Rightarrow> Inr (set_range new s e, root')
           | _ \<Rightarrow> Inl EBUSY))"

text \<open>
  \<open>reallocate_resource\<close> of the child \<open>old\<close> of \<open>root\<close>; \<open>None\<close> is \<open>BUG_ON(conflict)\<close>.
\<close>

definition reallocate_resource ::
    "resource \<Rightarrow> resource \<Rightarrow> u32 \<Rightarrow> resource_constraint \<Rightarrow> (errno option \<times> resource) option" where
  "reallocate_resource root old newsize c =
     (case find_resource root (Some (r_id old)) newsize c of
        None \<Rightarrow> Some (Some EBUSY, root)
      | Some (s, e) \<Rightarrow>
          (let moved = map (\<lambda>r. if r_id r = r_id old then set_range r s e else r) (r_child root) in
           if range_contains (s, e) (r_start old, r_end old) then Some (None, set_child root moved)
           else if r_child old \<noteq> [] then Some (Some EBUSY, root)
           else if range_contains (r_start old, r_end old) (s, e) then Some (None, set_child root moved)
           else
             (case request_resource (snd (release_resource root (r_id old))) (set_range old s e) of
                Placed root' \<Rightarrow> Some (None, root')
              | _ \<Rightarrow> None)))"

subsection \<open>Inserting\<close>

text \<open>
  The second loop of \<open>__insert_resource\<close>, from the first conflicting sibling on: how many siblings the
  new descriptor covers, or the one it overlaps only in part.
\<close>

fun insert_span :: "resource \<Rightarrow> resource list \<Rightarrow> resource + nat" where
  "insert_span new [] = Inr 0"
| "insert_span new (nxt # ts) =
     (if r_start nxt < r_start new \<or> r_end nxt > r_end new then Inl nxt
      else
        (case ts of
           [] \<Rightarrow> Inr 1
         | sib # _ \<Rightarrow>
             if r_start sib > r_end new then Inr 1
             else (case insert_span new ts of Inl c \<Rightarrow> Inl c | Inr k \<Rightarrow> Inr (k + 1))))"

lemma request_siblings_Inl:
  "request_siblings new cs = Inl (i, c) \<Longrightarrow> i < length cs \<and> c = cs ! i"
  by (induction cs arbitrary: i) (auto split: if_splits sum.splits)

lemma request_resource_child:
  "request_resource root new = Conflict_child i c \<Longrightarrow> i < length (r_child root) \<and> c = r_child root ! i"
  by (auto simp: request_resource_def dest: request_siblings_Inl split: if_splits sum.splits)

lemma size_child: "c \<in> set (r_child root) \<Longrightarrow> size c < size root"
  by (cases root) (auto dest: size_list_estimation' [of _ _ "size c" size])

text \<open>
  \<open>__insert_resource\<close>: the updated tree, or the conflicting descriptor, \<open>None\<close> standing for the node
  \<open>parent\<close> the search was at (which is the root, since it only descends into nodes that contain \<open>new\<close>).
\<close>

function insert_resource_conflict :: "resource \<Rightarrow> resource \<Rightarrow> resource option + resource" where
  "insert_resource_conflict parent new =
     (case request_resource parent new of
        Placed parent' \<Rightarrow> Inr parent'
      | Conflict_root \<Rightarrow> Inl None
      | Conflict_child i first \<Rightarrow>
          if r_id first = r_id new then Inl (Some first)
          else if (r_start first > r_start new \<or> r_end first < r_end new)
               \<or> (r_start first = r_start new \<and> r_end first = r_end new) then
            (case insert_span new (drop i (r_child parent)) of
               Inl c \<Rightarrow> Inl (Some c)
             | Inr k \<Rightarrow>
                 Inr (set_child parent
                   (take i (r_child parent)
                    @ set_child new (take k (drop i (r_child parent)))
                    # drop (i + k) (r_child parent))))
          else
            (case insert_resource_conflict first new of
               Inl c \<Rightarrow> Inl c
             | Inr first' \<Rightarrow> Inr (set_child parent ((r_child parent)[i := first']))))"
  by pat_completeness auto
termination
  by (relation "measure (\<lambda>(parent, new). size parent)")
    (auto dest!: request_resource_child intro!: size_child)

declare insert_resource_conflict.simps [simp del]

definition insert_resource :: "resource \<Rightarrow> resource \<Rightarrow> errno option \<times> resource" where
  "insert_resource parent new =
     (case insert_resource_conflict parent new of Inl _ \<Rightarrow> (Some EBUSY, parent) | Inr p \<Rightarrow> (None, p))"

text \<open>
  \<open>insert_resource_expand_to_fit\<close> of a descriptor that is not in the tree: the descriptor as expanded
  and the tree.  Each round that fails enlarges the descriptor to cover the conflict.
\<close>

definition expand_over :: "resource \<Rightarrow> resource \<Rightarrow> resource" where
  "expand_over conflict new =
     set_range new (if r_start conflict < r_start new then r_start conflict else r_start new)
       (if r_end conflict > r_end new then r_end conflict else r_end new)"

partial_function (option) insert_resource_expand_to_fit :: "resource \<Rightarrow> resource \<Rightarrow> (resource \<times> resource) option" where
  "insert_resource_expand_to_fit root new =
     (case insert_resource_conflict root new of
        Inr root' \<Rightarrow> Some (new, root')
      | Inl None \<Rightarrow> Some (new, root)
      | Inl (Some conflict) \<Rightarrow> insert_resource_expand_to_fit root (expand_over conflict new))"

text \<open>
  \<open>adjust_resource\<close> on the children of its parent: the siblings before \<open>res\<close>, \<open>res\<close> and those after.
\<close>

definition adjust_resource :: "resource \<Rightarrow> nat \<Rightarrow> u32 \<Rightarrow> u32 \<Rightarrow> errno option \<times> resource" where
  "adjust_resource parent res start sz =
     (let e = start + sz - 1;
          before = takeWhile (\<lambda>r. r_id r \<noteq> res) (r_child parent);
          rest = dropWhile (\<lambda>r. r_id r \<noteq> res) (r_child parent)
      in case rest of
           [] \<Rightarrow> (Some EBUSY, parent)
         | r # after \<Rightarrow>
             if start < r_start parent \<or> e > r_end parent then (Some EBUSY, parent)
             else if list_ex (\<lambda>t. r_start t < start \<or> r_end t > e) (r_child r) then (Some EBUSY, parent)
             else if after \<noteq> [] \<and> r_start (hd after) \<le> e then (Some EBUSY, parent)
             else if before \<noteq> [] \<and> start \<le> r_end (last before) then (Some EBUSY, parent)
             else (None, set_child parent (before @ set_range r start e # after)))"

text \<open>The updated root, or the range of the descriptor \<open>__request_resource\<close> returns.\<close>

definition conflict_range :: "resource \<Rightarrow> resource \<Rightarrow> (u32 \<times> u32) + resource" where
  "conflict_range root res =
     (case request_resource root res of
        Placed root' \<Rightarrow> Inr root'
      | Conflict_root \<Rightarrow> Inl (r_start root, r_end root)
      | Conflict_child i c \<Rightarrow> Inl (r_start c, r_end c))"

text \<open>
  \<open>__reserve_region_with_split\<close>.  \<open>kz n\<close> is the address the \<open>n\<close>-th \<open>kzalloc\<close> returns, if it finds
  memory; the counter is threaded through the calls.
\<close>

partial_function (option) reserve_region_with_split ::
    "(nat \<Rightarrow> nat option) \<Rightarrow> string \<Rightarrow> nat \<Rightarrow> u32 \<Rightarrow> u32 \<Rightarrow> resource \<Rightarrow> (nat \<times> resource) option" where
  "reserve_region_with_split kz name n s e root =
     (case kz n of
        None \<Rightarrow> Some (n + 1, root)
      | Some a \<Rightarrow>
          (case conflict_range root (Resource a s e name IORESOURCE_BUSY []) of
             Inr root' \<Rightarrow> Some (n + 1, root')
           | Inl (cs, ce) \<Rightarrow>
               if cs \<le> s \<and> ce \<ge> e then Some (n + 1, root)
               else
                 Option.bind
                   (if cs > s then reserve_region_with_split kz name (n + 1) s (cs - 1) root
                    else Some (n + 1, root))
                   (\<lambda>(n', root').
                      if ce < e then reserve_region_with_split kz name n' (ce + 1) e root'
                      else Some (n', root'))))"

subsection \<open>Busy regions\<close>

text \<open>
  \<open>__request_region\<close> until it returns or goes to sleep on a muxed region, in which case the descriptor
  it will retry under is remembered by its address.
\<close>

datatype region_result = Granted resource | Busy | Sleeps_on nat

function request_region :: "resource \<Rightarrow> resource \<Rightarrow> u32 \<Rightarrow> region_result" where
  "request_region parent res flags =
     (case request_resource parent res of
        Placed parent' \<Rightarrow> Granted parent'
      | Conflict_root \<Rightarrow>
          if r_flags parent AND flags AND IORESOURCE_MUXED \<noteq> 0 then Sleeps_on (r_id parent) else Busy
      | Conflict_child i c \<Rightarrow>
          if r_flags c AND IORESOURCE_BUSY = 0 then
            (case request_region c res flags of
               Granted c' \<Rightarrow> Granted (set_child parent ((r_child parent)[i := c']))
             | r \<Rightarrow> r)
          else if r_flags c AND flags AND IORESOURCE_MUXED \<noteq> 0 then Sleeps_on (r_id c)
          else Busy)"
  by pat_completeness auto
termination
  by (relation "measure (\<lambda>(parent, res, flags). size parent)")
    (auto dest!: request_resource_child intro!: size_child)

declare request_region.simps [simp del]

text \<open>The descriptor \<open>__request_region\<close> fills in at the address \<open>kzalloc\<close> gave.\<close>

definition region :: "nat \<Rightarrow> u32 \<Rightarrow> u32 \<Rightarrow> string \<Rightarrow> u32 \<Rightarrow> resource" where
  "region a start n name flags = Resource a start (start + n - 1) name (IORESOURCE_BUSY OR flags) []"

text \<open>\<open>__check_region\<close>: a request that is undone at once.\<close>

definition check_region :: "resource \<Rightarrow> nat \<Rightarrow> u32 \<Rightarrow> u32 \<Rightarrow> errno option" where
  "check_region parent a start n =
     (case request_region parent (region a start n ''check-region'' 0) 0 of
        Granted _ \<Rightarrow> None
      | _ \<Rightarrow> Some EBUSY)"

text \<open>
  The loop of \<open>__release_region\<close> over a list of siblings: the descriptor taken out and the list left.
\<close>

fun release_region_in :: "u32 \<Rightarrow> u32 \<Rightarrow> resource list \<Rightarrow> (resource \<times> resource list) option" where
  "release_region_in s e [] = None"
| "release_region_in s e (Resource i rs re n f cs # ts) =
     (if rs \<le> s \<and> re \<ge> e then
        if f AND IORESOURCE_BUSY = 0 then
          (case release_region_in s e cs of
             None \<Rightarrow> None
           | Some (x, cs') \<Rightarrow> Some (x, Resource i rs re n f cs' # ts))
        else if rs \<noteq> s \<or> re \<noteq> e then None
        else Some (Resource i rs re n f cs, ts)
      else
        (case release_region_in s e ts of
           None \<Rightarrow> None
         | Some (x, ts') \<Rightarrow> Some (x, Resource i rs re n f cs # ts')))"

definition release_region :: "resource \<Rightarrow> u32 \<Rightarrow> u32 \<Rightarrow> (resource \<times> resource) option" where
  "release_region parent start n =
     (case release_region_in start (start + n - 1) (r_child parent) of
        None \<Rightarrow> None
      | Some (x, cs) \<Rightarrow> Some (x, set_child parent cs))"

end
