(* ===== verification/Resource_Props.thy ===== *)
theory Resource_Props
  imports Resource_Tree
begin

text \<open>
  What the operations of \<open>kernel/resource.c\<close> keep and promise: the tree invariant \<open>res_wf\<close> (children
  inside their parent, in order and disjoint), what requesting, inserting, allocating and adjusting do to
  it, and the inputs on which the code goes wrong.
\<close>

subsection \<open>The invariant\<close>

definition before :: "resource \<Rightarrow> resource \<Rightarrow> bool" where
  "before a b \<longleftrightarrow> r_end a < r_start b"

definition overlaps :: "resource \<Rightarrow> resource \<Rightarrow> bool" where
  "overlaps a b \<longleftrightarrow> r_start a \<le> r_end b \<and> r_start b \<le> r_end a"

definition inside :: "resource \<Rightarrow> resource \<Rightarrow> bool" where
  "inside c r \<longleftrightarrow> r_start r \<le> r_start c \<and> r_end c \<le> r_end r"

fun res_wf :: "resource \<Rightarrow> bool" where
  "res_wf (Resource i s e n f cs) \<longleftrightarrow>
     s \<le> e \<and> sorted_wrt before cs \<and> list_all res_wf cs \<and> list_all (\<lambda>c. s \<le> r_start c \<and> r_end c \<le> e) cs"

lemma res_wf_range: "res_wf r \<Longrightarrow> r_start r \<le> r_end r"
  by (cases r) simp

lemma res_wf_sorted: "res_wf r \<Longrightarrow> sorted_wrt before (r_child r)"
  by (cases r) simp

lemma res_wf_child: "res_wf r \<Longrightarrow> c \<in> set (r_child r) \<Longrightarrow> res_wf c \<and> inside c r"
  by (cases r) (auto simp: list_all_iff inside_def)

lemma res_wf_set_child [simp]:
  "res_wf (set_child r cs) \<longleftrightarrow> r_start r \<le> r_end r \<and> sorted_wrt before cs \<and> (\<forall>c \<in> set cs. res_wf c \<and> inside c r)"
  by (auto simp: set_child_def list_all_iff inside_def)

lemma set_child_sel [simp]:
  "r_id (set_child r cs) = r_id r" "r_start (set_child r cs) = r_start r" "r_end (set_child r cs) = r_end r"
  "r_name (set_child r cs) = r_name r" "r_flags (set_child r cs) = r_flags r" "r_child (set_child r cs) = cs"
  by (simp_all add: set_child_def)

lemma set_child_simps [simp]: "set_child (set_child r cs) ds = set_child r ds" "set_child r (r_child r) = r"
  by (cases r; simp add: set_child_def)+

lemma set_range_sel [simp]:
  "r_id (set_range r s e) = r_id r" "r_start (set_range r s e) = s" "r_end (set_range r s e) = e"
  "r_name (set_range r s e) = r_name r" "r_flags (set_range r s e) = r_flags r"
  "r_child (set_range r s e) = r_child r"
  by (simp_all add: set_range_def)

lemma before_trans: "before a b \<Longrightarrow> res_wf b \<Longrightarrow> before b c \<Longrightarrow> before a c"
  by (auto simp: before_def dest: res_wf_range)

lemma before_not_overlaps: "before a b \<Longrightarrow> \<not> overlaps a b" "before a b \<Longrightarrow> \<not> overlaps b a"
  by (auto simp: before_def overlaps_def)

lemma overlaps_sym: "overlaps a b \<longleftrightarrow> overlaps b a"
  by (auto simp: overlaps_def)

text \<open>Two different children of a node never overlap.\<close>

lemma siblings_disjoint:
  "sorted_wrt before cs \<Longrightarrow> i < length cs \<Longrightarrow> j < length cs \<Longrightarrow> i \<noteq> j \<Longrightarrow> \<not> overlaps (cs ! i) (cs ! j)"
  by (metis before_not_overlaps linorder_neqE_nat sorted_wrt_nth_less)

lemma r_walk_self: "r \<in> set (r_walk r)"
  by (cases r) simp

lemma r_walk_child: "c \<in> set (r_child r) \<Longrightarrow> set (r_walk c) \<subseteq> set (r_walk r)"
  by (cases r) auto

lemma r_walk_children: "c \<in> set (r_child r) \<Longrightarrow> c \<in> set (r_walk r)"
  using r_walk_child r_walk_self by blast

subsection \<open>Requests\<close>

text \<open>What the walk over the siblings finds.\<close>

lemma request_siblings_placed:
  assumes "request_siblings new cs = Inr cs'" "sorted_wrt before cs" "\<forall>c \<in> set cs. res_wf c" "r_start new \<le> r_end new"
  shows "\<exists>xs ys. cs = xs @ ys \<and> cs' = xs @ new # ys \<and> (\<forall>x \<in> set xs. before x new) \<and> (\<forall>y \<in> set ys. before new y)"
  using assms
proof (induction cs arbitrary: cs')
  case Nil
  then show ?case by simp
next
  case (Cons tmp ts)
  show ?case
  proof (cases "r_start tmp > r_end new")
    case True
    moreover have "before new y" if "y \<in> set ts" for y
      using True Cons.prems that by (auto simp: before_def dest!: res_wf_range)
    ultimately show ?thesis using Cons.prems
      by (intro exI [of _ "[]"] exI [of _ "tmp # ts"]) (auto simp: before_def)
  next
    case False
    then obtain ts' where ts': "request_siblings new ts = Inr ts'" "cs' = tmp # ts'" and b: "before tmp new"
      using Cons.prems(1) by (auto simp: before_def split: if_splits sum.splits)
    from Cons.IH [OF ts'(1)] Cons.prems obtain xs ys where
      "ts = xs @ ys" "ts' = xs @ new # ys" "\<forall>x \<in> set xs. before x new" "\<forall>y \<in> set ys. before new y"
      by auto
    then show ?thesis using ts' b by (intro exI [of _ "tmp # xs"] exI [of _ ys]) auto
  qed
qed

lemma request_siblings_conflict:
  "request_siblings new cs = Inl (i, c) \<Longrightarrow>
     i < length cs \<and> c = cs ! i \<and> overlaps c new \<and> (\<forall>j < i. before (cs ! j) new)"
proof (induction cs arbitrary: i)
  case (Cons tmp ts)
  then show ?case
    by (auto simp: overlaps_def before_def nth_Cons split: if_splits sum.splits nat.splits)
qed simp

lemma request_placed_wf:
  assumes wf: "res_wf root" "res_wf new" and pl: "request_resource root new = Placed root'"
  shows "res_wf root' \<and> set (r_child root') = insert new (set (r_child root))
    \<and> r_start root' = r_start root \<and> r_end root' = r_end root \<and> inside new root
    \<and> (\<forall>c \<in> set (r_child root). \<not> overlaps c new)"
proof -
  obtain cs' where cs': "request_siblings new (r_child root) = Inr cs'" "root' = set_child root cs'"
    and ins: "inside new root"
    using pl by (auto simp: request_resource_def inside_def not_less split: if_splits sum.splits)
  obtain xs ys where "r_child root = xs @ ys" "cs' = xs @ new # ys"
    "\<forall>x \<in> set xs. before x new" "\<forall>y \<in> set ys. before new y"
    using request_siblings_placed [OF cs'(1) res_wf_sorted] wf res_wf_child res_wf_range by blast
  then show ?thesis using cs'(2) wf ins before_not_overlaps res_wf_sorted [OF wf(1)] res_wf_child [OF wf(1)]
    by (auto simp: sorted_wrt_append res_wf_range)
qed

lemma request_conflict_root:
  "res_wf new \<Longrightarrow> request_resource root new = Conflict_root \<longleftrightarrow> \<not> inside new root"
  by (auto simp: request_resource_def inside_def not_less dest: res_wf_range split: sum.splits)

lemma request_conflict_child:
  "request_resource root new = Conflict_child i c \<Longrightarrow>
     i < length (r_child root) \<and> c = r_child root ! i \<and> overlaps c new \<and> inside new root
     \<and> (\<forall>j < i. before (r_child root ! j) new)"
  by (auto simp: request_resource_def inside_def not_less dest: request_siblings_conflict split: if_splits sum.splits)

subsection \<open>Insertions\<close>

lemma insert_span_Inr:
  assumes "insert_span new (d # ds) = Inr k" "sorted_wrt before (d # ds)" "\<forall>c \<in> set (d # ds). res_wf c"
  shows "0 < k \<and> k \<le> length (d # ds) \<and> (\<forall>x \<in> set (take k (d # ds)). inside x new)
    \<and> (\<forall>y \<in> set (drop k (d # ds)). before new y)"
  using assms
proof (induction ds arbitrary: d k)
  case Nil
  then show ?case by (auto simp: inside_def not_less split: if_splits)
next
  case (Cons sib ds)
  have ins: "inside d new" using Cons.prems(1) by (auto simp: inside_def not_less split: if_splits)
  show ?case
  proof (cases "r_start sib > r_end new")
    case True
    then have "k = 1" using Cons.prems(1) by (auto split: if_splits)
    moreover have "before new y" if "y \<in> set (sib # ds)" for y
      using True Cons.prems(2,3) that by (auto simp: before_def dest!: res_wf_range)
    ultimately show ?thesis using ins by simp
  next
    case False
    then obtain k' where "insert_span new (sib # ds) = Inr k'" "k = k' + 1"
      using Cons.prems(1) by (auto split: if_splits sum.splits)
    then show ?thesis using Cons.IH [of sib k'] Cons.prems(2,3) ins by auto
  qed
qed

lemma insert_span_Inl:
  assumes "insert_span new (d # ds) = Inl c" "sorted_wrt before (d # ds)" "r_start d \<le> r_end new"
  shows "c \<in> set (d # ds) \<and> \<not> inside c new \<and> r_start c \<le> r_end new \<and> (c = d \<or> before d c)"
  using assms
proof (induction ds arbitrary: d)
  case Nil
  then show ?case by (auto simp: inside_def split: if_splits)
next
  case (Cons sib ds)
  show ?case
  proof (cases "inside d new")
    case False
    then have "c = d" using Cons.prems(1) by (auto simp: inside_def not_le)
    then show ?thesis using False Cons.prems by simp
  next
    case True
    then have "insert_span new (sib # ds) = Inl c" "r_start sib \<le> r_end new"
      using Cons.prems(1) by (auto simp: inside_def not_less simp del: insert_span.simps(2)
          simp: insert_span.simps(2) [of new d] split: if_splits sum.splits)
    then show ?thesis using Cons.IH Cons.prems(2) by auto
  qed
qed

text \<open>Replacing a child by another descriptor of the same range.\<close>

lemma res_wf_replace:
  assumes "res_wf r" "i < length (r_child r)" "res_wf c'" "r_start c' = r_start (r_child r ! i)" "r_end c' = r_end (r_child r ! i)"
  shows "res_wf (set_child r ((r_child r)[i := c']))"
proof -
  have "sorted_wrt before ((r_child r)[i := c'])"
    using res_wf_sorted [OF assms(1)] assms(2,4,5)
    by (auto simp: sorted_wrt_iff_nth_less before_def nth_list_update)
  moreover have "res_wf c \<and> inside c r" if "c \<in> set ((r_child r)[i := c'])" for c
    using set_update_subset_insert [of "r_child r" i c'] that assms(2-5) res_wf_child [OF assms(1)]
    by (auto simp: inside_def)
  ultimately show ?thesis using res_wf_range [OF assms(1)] by simp
qed

text \<open>Putting a descriptor in the place of the siblings it covers, which become its children.\<close>

lemma res_wf_cover:
  assumes wf: "res_wf r" "r_child r = xs @ ys @ zs" and new: "res_wf new" "inside new r"
    and xs: "\<forall>x \<in> set xs. before x new" and ys: "\<forall>y \<in> set ys. inside y new" and zs: "\<forall>z \<in> set zs. before new z"
  shows "res_wf (set_child r (xs @ set_child new ys # zs))"
proof -
  have b: "before x (set_child new ys) \<longleftrightarrow> before x new" "before (set_child new ys) x \<longleftrightarrow> before new x" 
    "inside (set_child new ys) r \<longleftrightarrow> inside new r" for x
    by (simp_all add: before_def inside_def)
  show ?thesis using res_wf_sorted [OF wf(1)] res_wf_child [OF wf(1)] res_wf_range [OF wf(1)] res_wf_range [OF new(1)] assms
    by (auto simp: b sorted_wrt_append)
qed

text \<open>The branch of \<open>__insert_resource\<close> that covers siblings.\<close>

definition cover_siblings :: "resource \<Rightarrow> nat \<Rightarrow> resource \<Rightarrow> resource option + resource" where
  "cover_siblings parent i new =
     (case insert_span new (drop i (r_child parent)) of
        Inl c \<Rightarrow> Inl (Some c)
      | Inr k \<Rightarrow> Inr (set_child parent (take i (r_child parent)
          @ set_child new (take k (drop i (r_child parent))) # drop (i + k) (r_child parent))))"

lemma cover_siblings_spec:
  assumes wf: "res_wf parent" "res_wf new" and i: "i < length (r_child parent)"
    and ov: "overlaps (r_child parent ! i) new" "inside new parent"
    and bf: "\<forall>j < i. before (r_child parent ! j) new"
    and nc: "\<not> (inside new (r_child parent ! i) \<and> \<not> inside (r_child parent ! i) new)"
  shows "case cover_siblings parent i new of
      Inr p \<Rightarrow> res_wf p \<and> r_start p = r_start parent \<and> r_end p = r_end parent
    | Inl None \<Rightarrow> False
    | Inl (Some c) \<Rightarrow> c \<in> set (r_walk parent) \<and> overlaps c new \<and> \<not> inside c new \<and> \<not> inside new c"
proof -
  let ?cs = "r_child parent" and ?f = "r_child parent ! i"
  have ds: "drop i ?cs = ?f # drop (Suc i) ?cs" using i by (simp add: Cons_nth_drop_Suc)
  have sorted: "sorted_wrt before (?f # drop (Suc i) ?cs)"
    using res_wf_sorted [OF wf(1)] by (metis ds append_take_drop_id sorted_wrt_append)
  have sub: "set (?f # drop (Suc i) ?cs) \<subseteq> set ?cs" by (metis ds set_drop_subset)
  have wfs: "\<forall>c \<in> set (?f # drop (Suc i) ?cs). res_wf c" using sub res_wf_child [OF wf(1)] by blast
  show ?thesis
  proof (cases "insert_span new (drop i ?cs)")
    case (Inl c)
    have "c \<in> set (?f # drop (Suc i) ?cs) \<and> \<not> inside c new \<and> r_start c \<le> r_end new \<and> (c = ?f \<or> before ?f c)"
      using insert_span_Inl [OF Inl [unfolded ds] sorted] ov by (simp add: overlaps_def)
    moreover from this have "overlaps c new \<and> \<not> inside new c"
      using ov nc wfs by (auto simp: overlaps_def before_def inside_def dest!: res_wf_range)
    ultimately show ?thesis using Inl sub r_walk_children by (auto simp: cover_siblings_def)
  next
    case (Inr k)
    note sp = insert_span_Inr [OF Inr [unfolded ds] sorted wfs]
    have "res_wf (set_child parent (take i ?cs @ set_child new (take k (drop i ?cs)) # drop (i + k) ?cs))"
    proof (rule res_wf_cover [OF wf(1) _ wf(2) ov(2)])
      show "?cs = take i ?cs @ take k (drop i ?cs) @ drop (i + k) ?cs"
        by (metis add.commute append_take_drop_id drop_drop)
      show "\<forall>x \<in> set (take i ?cs). before x new" using bf i by (auto simp: in_set_conv_nth)
      show "\<forall>y \<in> set (take k (drop i ?cs)). inside y new" using sp ds by simp
      show "\<forall>z \<in> set (drop (i + k) ?cs). before new z" using sp ds by (metis add.commute drop_drop)
    qed
    then show ?thesis using Inr by (simp add: cover_siblings_def)
  qed
qed

lemma insert_resource_spec:
  assumes "res_wf parent" "res_wf new" "r_id new \<notin> r_id ` set (r_walk parent)"
  shows "case insert_resource_conflict parent new of
      Inr p \<Rightarrow> res_wf p \<and> r_start p = r_start parent \<and> r_end p = r_end parent
    | Inl None \<Rightarrow> \<not> inside new parent
    | Inl (Some c) \<Rightarrow> c \<in> set (r_walk parent) \<and> overlaps c new \<and> \<not> inside c new \<and> \<not> inside new c"
  using assms
proof (induction parent new rule: insert_resource_conflict.induct)
  case (1 parent new)
  show ?case
  proof (cases "request_resource parent new")
    case (Placed p)
    then show ?thesis using request_placed_wf [OF "1.prems"(1,2) Placed]
      by (simp add: insert_resource_conflict.simps [of parent new])
  next
    case Conflict_root
    then have "\<not> inside new parent" using request_conflict_root [OF "1.prems"(2)] by blast
    then show ?thesis using Conflict_root by (simp add: insert_resource_conflict.simps [of parent new])
  next
    case (Conflict_child i first)
    note cf = request_conflict_child [OF Conflict_child]
    have fw: "first \<in> set (r_child parent)" "res_wf first" using cf res_wf_child [OF "1.prems"(1)] by auto
    then have walk: "set (r_walk first) \<subseteq> set (r_walk parent)" using r_walk_child by blast
    then have id: "r_id first \<noteq> r_id new" using "1.prems"(3) r_walk_self [of first] by (metis image_eqI subsetD)
    show ?thesis
    proof (cases "inside new first \<and> \<not> inside first new")
      case True
      then have "r_start first \<le> r_start new \<and> r_end new \<le> r_end first
          \<and> \<not> (r_start first = r_start new \<and> r_end first = r_end new)" by (auto simp: inside_def)
      moreover from this have "case insert_resource_conflict first new of
          Inr p \<Rightarrow> res_wf p \<and> r_start p = r_start first \<and> r_end p = r_end first
        | Inl None \<Rightarrow> \<not> inside new first
        | Inl (Some c) \<Rightarrow> c \<in> set (r_walk first) \<and> overlaps c new \<and> \<not> inside c new \<and> \<not> inside new c"
        using Conflict_child id fw(2) walk "1.prems"(2,3) by (intro "1.IH") auto
      moreover from calculation(1) have "insert_resource_conflict parent new =
          (case insert_resource_conflict first new of
             Inl c \<Rightarrow> Inl c | Inr f \<Rightarrow> Inr (set_child parent ((r_child parent)[i := f])))"
        using id Conflict_child by (subst insert_resource_conflict.simps) auto
      ultimately show ?thesis using cf walk True res_wf_replace [OF "1.prems"(1)]
        by (cases "insert_resource_conflict first new") (auto split: option.splits)
    next
      case False
      then have br: "(r_start first > r_start new \<or> r_end first < r_end new)
          \<or> (r_start first = r_start new \<and> r_end first = r_end new)" by (auto simp: inside_def not_le)
      then have "insert_resource_conflict parent new = cover_siblings parent i new"
        using Conflict_child id by (simp add: insert_resource_conflict.simps [of parent new] cover_siblings_def)
      then show ?thesis
        using cover_siblings_spec [OF "1.prems"(1,2), of i] cf False by (auto split: sum.splits option.splits)
    qed
  qed
qed

subsection \<open>Allocation\<close>

text \<open>What a slot \<open>__find_resource\<close> returns satisfies, whatever the tree.\<close>

definition slot_ok :: "resource_constraint \<Rightarrow> u32 \<Rightarrow> u32 \<times> u32 \<Rightarrow> bool" where
  "slot_ok c sz slot \<longleftrightarrow>
     c_min c \<le> fst slot \<and> snd slot \<le> c_max c \<and> snd slot = fst slot + sz - 1
     \<and> (\<exists>lo hi. fst slot = c_alignf c (ALIGN lo (c_align c)) hi sz (c_align c))"

lemma try_gap_slot:
  assumes "try_gap c sz (resource_clip r (c_min c) (c_max c)) = Some slot"
  shows "slot_ok c sz slot"
proof -
  let ?t = "resource_clip r (c_min c) (c_max c)"
  have b: "c_min c \<le> fst ?t" "snd ?t \<le> c_max c" by (auto simp: resource_clip_def not_less)
  from assms have t: "fst ?t \<le> fst slot" "snd slot \<le> snd ?t" "snd slot = fst slot + sz - 1"
      "fst slot = c_alignf c (ALIGN (fst ?t) (c_align c)) (snd ?t) sz (c_align c)"
    by (auto simp: try_gap_def Let_def range_contains_def split: if_splits)
  then have "\<exists>lo hi. fst slot = c_alignf c (ALIGN lo (c_align c)) hi sz (c_align c)" by blast
  then show ?thesis using order_trans [OF b(1) t(1)] order_trans [OF t(2) b(2)] t(3) by (simp add: slot_ok_def)
qed

lemma find_gap_slot: "find_gap root old sz c ts cs = Some slot \<Longrightarrow> slot_ok c sz slot"
  by (induction root old sz c ts cs rule: find_gap.induct)
    (auto simp: Let_def split: if_splits option.splits intro: try_gap_slot)

lemma find_resource_slot: "find_resource root old sz c = Some slot \<Longrightarrow> slot_ok c sz slot"
  by (auto simp: find_resource_def simp del: find_gap.simps split: list.splits if_splits dest: find_gap_slot)

lemma ALIGN_low_bits: "ALIGN x a AND (a - 1) = 0"
  by (simp add: ALIGN_def and.assoc)

subsection \<open>Adjusting and reserving\<close>

lemma res_wf_set_range:
  assumes "res_wf r" "s \<le> e" "\<forall>t \<in> set (r_child r). s \<le> r_start t \<and> r_end t \<le> e"
  shows "res_wf (set_range r s e)"
proof -
  have "set_range r s e = set_child (set_range r s e) (r_child r)" by (cases r) (simp add: set_range_def set_child_def)
  moreover have "res_wf (set_child (set_range r s e) (r_child r))"
    using assms res_wf_sorted [OF assms(1)] res_wf_child [OF assms(1)] by (auto simp: inside_def)
  ultimately show ?thesis by simp
qed

lemma res_wf_widen:
  assumes "res_wf r" "s \<le> r_start r" "r_end r \<le> e"
  shows "res_wf (set_range r s e)"
  using assms res_wf_range [OF assms(1)] res_wf_child [OF assms(1)]
  by (intro res_wf_set_range) (auto simp: inside_def intro: order_trans)

lemma adjust_resource_wf:
  assumes wf: "res_wf parent" and ok: "start \<le> start + sz - 1" and ad: "adjust_resource parent res start sz = (None, p)"
  shows "res_wf p \<and> length (r_child p) = length (r_child parent)"
proof -
  let ?e = "start + sz - 1"
  define xs where "xs = takeWhile (\<lambda>r. r_id r \<noteq> res) (r_child parent)"
  obtain r ys where dw: "dropWhile (\<lambda>r. r_id r \<noteq> res) (r_child parent) = r # ys"
    using ad by (auto simp: adjust_resource_def Let_def split: list.splits)
  have cs: "r_child parent = xs @ r # ys" unfolding xs_def dw [symmetric] by simp
  note ad' = ad [unfolded adjust_resource_def Let_def dw, folded xs_def]
  have p: "p = set_child parent (xs @ set_range r start ?e # ys)"
    and b: "r_start parent \<le> start" "?e \<le> r_end parent"
      "\<forall>t \<in> set (r_child r). start \<le> r_start t \<and> r_end t \<le> ?e"
      "ys \<noteq> [] \<Longrightarrow> ?e < r_start (hd ys)" "xs \<noteq> [] \<Longrightarrow> r_end (last xs) < start"
    using ad' by (auto simp: list_ex_iff not_less not_le split: if_splits)
  have srt: "sorted_wrt before (xs @ r # ys)" and ch: "\<And>c. c \<in> set (xs @ r # ys) \<Longrightarrow> res_wf c \<and> inside c parent"
    using res_wf_sorted [OF wf] res_wf_child [OF wf] cs by auto
  have "before x (set_range r start ?e)" if "x \<in> set xs" for x
  proof -
    from that obtain xs' l where xl: "xs = xs' @ [l]" by (metis append_butlast_last_id empty_iff list.set(1))
    then have "x = l \<or> before x l" using that srt by (auto simp: sorted_wrt_append)
    then show ?thesis using b(5) xl ch [of l] by (auto simp: before_def dest!: res_wf_range)
  qed
  moreover have "before (set_range r start ?e) y" if "y \<in> set ys" for y
  proof -
    from that obtain h ys' where yl: "ys = h # ys'" by (cases ys) auto
    then have "y = h \<or> before h y" using that srt by (auto simp: sorted_wrt_append)
    then show ?thesis using b(4) yl ch [of h] by (auto simp: before_def dest!: res_wf_range)
  qed
  moreover have "res_wf (set_range r start ?e)" using ch [of r] ok b(3) by (intro res_wf_set_range) auto
  ultimately show ?thesis using srt ch b(1,2) res_wf_range [OF wf] cs unfolding p
    by (auto simp: sorted_wrt_append inside_def)
qed

text \<open>The rounds of \<open>insert_resource_expand_to_fit\<close> enlarge the descriptor strictly.\<close>

definition room :: "resource \<Rightarrow> nat" where
  "room r = unat (r_start r) + (2 ^ 32 - unat (r_end r))"

lemma expand_over_step:
  assumes "res_wf new" "overlaps c new" "\<not> inside c new"
  shows "res_wf (expand_over c new)" "room (expand_over c new) < room new" "inside new (expand_over c new)"
    "r_id (expand_over c new) = r_id new"
proof -
  show "res_wf (expand_over c new)" unfolding expand_over_def by (rule res_wf_widen [OF assms(1)]) auto
  have "r_start c < r_start new \<or> r_end c > r_end new" using assms(3) by (auto simp: inside_def)
  then show "room (expand_over c new) < room new"
    using unat_u32_less [of "r_end new"] unat_u32_less [of "r_end c"]
    by (auto simp: room_def expand_over_def word_less_nat_alt)
  show "inside new (expand_over c new)" by (auto simp: inside_def expand_over_def)
qed (simp add: expand_over_def)

lemma expand_to_fit_returns:
  assumes "res_wf root" "res_wf new" "r_id new \<notin> r_id ` set (r_walk root)"
  shows "\<exists>new' root'. insert_resource_expand_to_fit root new = Some (new', root')
    \<and> res_wf root' \<and> inside new new' \<and> (root' = root \<and> \<not> inside new' root \<or> insert_resource_conflict root new' = Inr root')"
  using assms(2,3)
proof (induction "room new" arbitrary: new rule: less_induct)
  case less
  note spec = insert_resource_spec [OF assms(1) less.prems]
  show ?case
  proof (cases "insert_resource_conflict root new")
    case (Inr root')
    then show ?thesis using spec by (subst insert_resource_expand_to_fit.simps) (auto simp: inside_def)
  next
    case (Inl r)
    show ?thesis
    proof (cases r)
      case None
      then show ?thesis using spec Inl assms(1) by (subst insert_resource_expand_to_fit.simps) (auto simp: inside_def)
    next
      case (Some c)
      then have c: "overlaps c new" "\<not> inside c new" using spec Inl by auto
      note st = expand_over_step [OF less.prems(1) c]
      have "r_id (expand_over c new) \<notin> r_id ` set (r_walk root)" using less.prems(2) st(4) by simp
      from less.hyps [OF st(2,1) this] show ?thesis
        using Inl Some st(3) by (subst insert_resource_expand_to_fit.simps) (force simp: inside_def)
    qed
  qed
qed

text \<open>\<open>__reserve_region_with_split\<close> inside the root.\<close>

definition covers :: "resource \<Rightarrow> u32 \<Rightarrow> u32 \<Rightarrow> bool" where
  "covers root s e \<longleftrightarrow> (\<forall>a. s \<le> a \<and> a \<le> e \<longrightarrow> (\<exists>c \<in> set (r_child root). r_start c \<le> a \<and> a \<le> r_end c))"

definition extends :: "resource \<Rightarrow> resource \<Rightarrow> bool" where
  "extends root root' \<longleftrightarrow> res_wf root' \<and> r_start root' = r_start root \<and> r_end root' = r_end root
     \<and> set (r_child root) \<subseteq> set (r_child root')"

lemma extends_trans: "extends a b \<Longrightarrow> extends b c \<Longrightarrow> extends a c"
  by (auto simp: extends_def)

lemma covers_extends: "covers a s e \<Longrightarrow> extends a b \<Longrightarrow> covers b s e"
  unfolding covers_def extends_def by (meson subsetD)

lemma u32_pred: "x > y \<Longrightarrow> a \<le> x - 1 \<longleftrightarrow> a < (x :: u32)" "x > y \<Longrightarrow> unat (x - 1) = unat x - 1"
proof -
  assume "x > y"
  then have "x \<noteq> 0" by auto
  then show u: "unat (x - 1) = unat x - 1" by (simp add: unat_minus_one)
  show "a \<le> x - 1 \<longleftrightarrow> a < x" using u \<open>x \<noteq> 0\<close> Suc_unat_minus_one [of x]
    by (simp add: word_le_nat_alt word_less_nat_alt less_Suc_eq_le [symmetric])
qed

lemma u32_succ: "x < y \<Longrightarrow> x + 1 \<le> a \<longleftrightarrow> x < (a :: u32)" "x < y \<Longrightarrow> unat (x + 1) = unat x + 1"
proof -
  assume "x < y"
  then have "unat x + 1 < 2 ^ 32" using unat_u32_less [of y] by (simp add: word_less_nat_alt)
  then show u: "unat (x + 1) = unat x + 1" by (subst unat_add_lem [THEN iffD1]) simp_all
  show "x + 1 \<le> a \<longleftrightarrow> x < a" using u by (auto simp: word_le_nat_alt word_less_nat_alt)
qed

lemma covers_join:
  assumes "c \<in> set (r_child r)" "r_start c > s \<Longrightarrow> covers r s (r_start c - 1)" "r_end c < e \<Longrightarrow> covers r (r_end c + 1) e"
  shows "covers r s e"
  unfolding covers_def
proof (intro allI impI)
  fix x assume x: "s \<le> x \<and> x \<le> e"
  consider "x < r_start c" | "r_start c \<le> x" "x \<le> r_end c" | "r_end c < x" by fastforce
  then show "\<exists>c \<in> set (r_child r). r_start c \<le> x \<and> x \<le> r_end c"
  proof cases
    case 1
    then show ?thesis using assms(2) x u32_pred(1) [OF 1, of x] unfolding covers_def by force
  next
    case 3
    then show ?thesis using assms(3) x u32_succ(1) [OF 3, of x] unfolding covers_def by force
  qed (use assms(1) in blast)
qed

lemma conflict_range_cases:
  assumes "res_wf root" "s \<le> e" "r_start root \<le> s" "e \<le> r_end root"
  obtains (placed) root' where "conflict_range root (Resource a s e n f []) = Inr root'" "extends root root'" "covers root' s e"
  | (child) c where "conflict_range root (Resource a s e n f []) = Inl (r_start c, r_end c)"
      "c \<in> set (r_child root)" "r_start c \<le> e" "s \<le> r_end c"
proof (cases "request_resource root (Resource a s e n f [])")
  case (Placed root')
  then show ?thesis using request_placed_wf [OF assms(1) _ Placed] assms(2)
    by (intro placed [of root']) (auto simp: conflict_range_def extends_def covers_def)
next
  case Conflict_root
  then show ?thesis using request_conflict_root [of "Resource a s e n f []" root] assms by (auto simp: inside_def)
next
  case (Conflict_child i c)
  then show ?thesis using request_conflict_child [OF Conflict_child]
    by (intro child [of c]) (auto simp: conflict_range_def overlaps_def)
qed

lemma reserve_inside:
  assumes "res_wf root" "s \<le> e" "r_start root \<le> s" "e \<le> r_end root" and kz: "\<And>n. kz n \<noteq> None"
  shows "\<exists>n' root'. reserve_region_with_split kz name n s e root = Some (n', root') \<and> extends root root' \<and> covers root' s e"
  using assms(1-4)
proof (induction "unat e - unat s" arbitrary: n s e root rule: less_induct)
  case less
  obtain a where a: "kz n = Some a" using kz by blast
  have refl: "extends root root" using less.prems by (simp add: extends_def)
  from less.prems show ?case
  proof (cases rule: conflict_range_cases [where a = a and n = name and f = IORESOURCE_BUSY])
    case (placed root')
    then show ?thesis using a by (subst reserve_region_with_split.simps) auto
  next
    case (child c)
    note eq = reserve_region_with_split.simps [of kz name n s e root]
    show ?thesis
    proof (cases "r_start c \<le> s \<and> r_end c \<ge> e")
      case True
      then have "covers root s e" using child(2) unfolding covers_def by (meson order_trans)
      then show ?thesis using True a child(1) refl eq by auto
    next
      case False
      let ?L = "if r_start c > s then reserve_region_with_split kz name (n + 1) s (r_start c - 1) root
                else Some (n + 1, root)"
      have "\<exists>n1 root1. ?L = Some (n1, root1) \<and> extends root root1 \<and> (r_start c > s \<longrightarrow> covers root1 s (r_start c - 1))"
      proof (cases "r_start c > s")
        case True
        have "unat (r_start c - 1) - unat s < unat e - unat s"
          using True child(3) u32_pred(2) [OF True] by (auto simp: word_less_nat_alt word_le_nat_alt)
        moreover have "s \<le> r_start c - 1" "r_start c - 1 \<le> r_end root"
          using True child(3) less.prems u32_pred(1) [OF True] by (auto simp: u32_pred(2) [OF True] word_le_nat_alt)
        ultimately show ?thesis using less.hyps [of "r_start c - 1" s root "n + 1"] less.prems True by auto
      qed (simp add: refl)
      then obtain n1 root1 where L: "?L = Some (n1, root1)" "extends root root1"
        "r_start c > s \<Longrightarrow> covers root1 s (r_start c - 1)" by blast
      have c1: "c \<in> set (r_child root1)" and w1: "res_wf root1" "r_start root1 = r_start root" "r_end root1 = r_end root"
        using L(2) child(2) by (auto simp: extends_def)
      have eq1: "reserve_region_with_split kz name n s e root =
          (if r_end c < e then reserve_region_with_split kz name n1 (r_end c + 1) e root1 else Some (n1, root1))"
        using a child(1) False L(1) eq by auto
      show ?thesis
      proof (cases "r_end c < e")
        case True
        have "unat e - unat (r_end c + 1) < unat e - unat s"
          using True child(4) u32_succ(2) [OF True] by (auto simp: word_less_nat_alt word_le_nat_alt)
        moreover have "r_end c + 1 \<le> e" "r_start root1 \<le> r_end c + 1"
          using True child(4) less.prems w1 u32_succ [OF True] by (auto simp: word_le_nat_alt word_less_nat_alt)
        ultimately obtain n2 root2 where R: "reserve_region_with_split kz name n1 (r_end c + 1) e root1 = Some (n2, root2)"
          "extends root1 root2" "covers root2 (r_end c + 1) e"
          using less.hyps [of e "r_end c + 1" root1 n1] less.prems w1 by auto
        have "c \<in> set (r_child root2)" using R(2) c1 by (auto simp: extends_def)
        then have "covers root2 s e" by (rule covers_join) (use R(3) covers_extends [OF L(3) R(2)] in auto)
        then show ?thesis using eq1 True R extends_trans [OF L(2) R(2)] by auto
      next
        case False
        then have "covers root1 s e" by (intro covers_join [OF c1 L(3)]) auto
        then show ?thesis using eq1 False L(2) by auto
      qed
    qed
  qed
qed

end
