(* ===== verification/Resource_Regions.thy ===== *)
theory Resource_Regions
  imports Resource_Props
begin

text \<open>
  Busy regions of the resource tree, the call of \<open>reserve_region_with_split\<close> that never returns, and the
  properties of \<open>kernel/resource.c\<close>.
\<close>

subsection \<open>Requesting and releasing a busy region\<close>

lemma release_region_skip:
  assumes "\<forall>x \<in> set xs. \<not> (r_start x \<le> s \<and> r_end x \<ge> e)"
  shows "release_region_in s e (xs @ ys) =
    (case release_region_in s e ys of None \<Rightarrow> None | Some (r, ys') \<Rightarrow> Some (r, xs @ ys'))"
  using assms
proof (induction xs)
  case (Cons x xs)
  then show ?case by (cases x) (auto split: option.splits)
qed (simp split: option.splits)

lemma release_region_at:
  "release_region_in s e (r # ts) =
     (if r_start r \<le> s \<and> r_end r \<ge> e then
        if r_flags r AND IORESOURCE_BUSY = 0 then
          (case release_region_in s e (r_child r) of
             None \<Rightarrow> None | Some (x, cs') \<Rightarrow> Some (x, set_child r cs' # ts))
        else if r_start r \<noteq> s \<or> r_end r \<noteq> e then None
        else Some (r, ts)
      else (case release_region_in s e ts of None \<Rightarrow> None | Some (x, ts') \<Rightarrow> Some (x, r # ts')))"
  by (cases r) (auto simp: set_child_def split: option.splits)

lemma request_region_wf:
  assumes "res_wf parent" "res_wf res" "request_region parent res flags = Granted p"
  shows "res_wf p \<and> r_start p = r_start parent \<and> r_end p = r_end parent \<and> inside res parent
    \<and> r_flags p = r_flags parent \<and> set_child p (r_child parent) = parent"
  using assms
proof (induction parent res flags arbitrary: p rule: request_region.induct)
  case (1 parent res flags)
  show ?case
  proof (cases "request_resource parent res")
    case (Placed p')
    then have "p = p'" "\<exists>cs. p' = set_child parent cs"
      using "1.prems"(3) by (auto simp: request_region.simps [of parent] request_resource_def split: if_splits sum.splits)
    then show ?thesis using request_placed_wf [OF "1.prems"(1,2) Placed] by auto
  next
    case Conflict_root
    then show ?thesis using "1.prems" by (auto simp: request_region.simps [of parent] split: if_splits)
  next
    case (Conflict_child i c)
    note cf = request_conflict_child [OF Conflict_child]
    obtain c' where c': "request_region c res flags = Granted c'" "p = set_child parent ((r_child parent)[i := c'])"
      and nb: "r_flags c AND IORESOURCE_BUSY = 0"
      using "1.prems"(3) Conflict_child
      by (auto simp: request_region.simps [of parent] split: if_splits region_result.splits)
    have "res_wf c" using cf res_wf_child [OF "1.prems"(1)] by auto
    from "1.IH" [OF Conflict_child nb this "1.prems"(2) c'(1)] show ?thesis
      using cf c'(2) res_wf_replace [OF "1.prems"(1), of i c'] by auto
  qed
qed

lemma request_then_release_in:
  assumes "res_wf parent" "res_wf res" "r_flags res AND IORESOURCE_BUSY \<noteq> 0"
    and "request_region parent res flags = Granted p"
  shows "release_region_in (r_start res) (r_end res) (r_child p) = Some (res, r_child parent)"
  using assms
proof (induction parent res flags arbitrary: p rule: request_region.induct)
  case (1 parent res flags)
  note rng = res_wf_range [OF "1.prems"(2)]
  have skip: "\<not> (r_start x \<le> r_start res \<and> r_end x \<ge> r_end res)" if "before x res" for x
    using that rng by (auto simp: before_def)
  show ?case
  proof (cases "request_resource parent res")
    case (Placed p')
    then obtain cs' where cs': "request_siblings res (r_child parent) = Inr cs'" "p = set_child parent cs'"
      using "1.prems"(4) by (auto simp: request_region.simps [of parent] request_resource_def split: if_splits sum.splits)
    obtain xs ys where "r_child parent = xs @ ys" "cs' = xs @ res # ys" "\<forall>x \<in> set xs. before x res"
      using request_siblings_placed [OF cs'(1) res_wf_sorted [OF "1.prems"(1)]] res_wf_child [OF "1.prems"(1)] rng by blast
    then show ?thesis using cs'(2) skip "1.prems"(3)
      by (simp add: release_region_skip release_region_at)
  next
    case Conflict_root
    then show ?thesis using "1.prems" by (auto simp: request_region.simps [of parent] split: if_splits)
  next
    case (Conflict_child i c)
    note cf = request_conflict_child [OF Conflict_child]
    obtain c' where c': "request_region c res flags = Granted c'" "p = set_child parent ((r_child parent)[i := c'])"
      and nb: "r_flags c AND IORESOURCE_BUSY = 0"
      using "1.prems"(4) Conflict_child
      by (auto simp: request_region.simps [of parent] split: if_splits region_result.splits)
    have wc: "res_wf c" using cf res_wf_child [OF "1.prems"(1)] by auto
    note g = request_region_wf [OF wc "1.prems"(2) c'(1)]
    have "release_region_in (r_start res) (r_end res) (r_child c') = Some (res, r_child c)"
      by (rule "1.IH" [OF Conflict_child nb wc "1.prems"(2,3) c'(1)])
    moreover have "r_child p = take i (r_child parent) @ c' # drop (Suc i) (r_child parent)"
      using c'(2) cf by (simp add: upd_conv_take_nth_drop)
    moreover have "\<forall>x \<in> set (take i (r_child parent)). \<not> (r_start x \<le> r_start res \<and> r_end x \<ge> r_end res)"
      using cf skip by (auto simp: in_set_conv_nth)
    moreover have "r_start c' \<le> r_start res" "r_end res \<le> r_end c'" "r_flags c' AND IORESOURCE_BUSY = 0"
      using g nb by (auto simp: inside_def)
    moreover have "take i (r_child parent) @ c # drop (Suc i) (r_child parent) = r_child parent"
      using cf by (simp add: id_take_nth_drop [symmetric])
    ultimately show ?thesis using g by (simp add: release_region_skip release_region_at)
  qed
qed

subsection \<open>Reserving outside the root\<close>

lemma conflict_range_outside:
  "\<not> (r_start root \<le> s \<and> e \<le> r_end root) \<Longrightarrow>
     conflict_range root (Resource a s e n f []) = Inl (r_start root, r_end root)"
  by (auto simp: conflict_range_def request_resource_def)

lemma reserve_returns_inside:
  assumes "reserve_region_with_split kz name n s e root = Some y"
  shows "(\<forall>n. kz n \<noteq> None) \<longrightarrow> s \<le> e \<longrightarrow> r_start root \<le> r_end root \<longrightarrow> r_start root \<le> s \<and> e \<le> r_end root"
proof (rule reserve_region_with_split.raw_induct
    [of "\<lambda>kz name n s e root y. (\<forall>n. kz n \<noteq> None) \<longrightarrow> s \<le> e \<longrightarrow> r_start root \<le> r_end root \<longrightarrow>
       r_start root \<le> s \<and> e \<le> r_end root", OF _ assms])
  fix f :: "(nat \<Rightarrow> nat option) \<Rightarrow> string \<Rightarrow> nat \<Rightarrow> u32 \<Rightarrow> u32 \<Rightarrow> resource \<Rightarrow> (nat \<times> resource) option"
  fix kz name n s e root y
  assume IH: "\<And>kz name n s e root y. f kz name n s e root = Some y \<Longrightarrow>
      (\<forall>n. kz n \<noteq> None) \<longrightarrow> s \<le> e \<longrightarrow> r_start root \<le> r_end root \<longrightarrow> r_start root \<le> s \<and> e \<le> r_end root"
    and eq: "(case kz n of None \<Rightarrow> Some (n + 1, root)
      | Some a \<Rightarrow>
          (case conflict_range root (Resource a s e name IORESOURCE_BUSY []) of
             Inl (cs, ce) \<Rightarrow>
               if cs \<le> s \<and> e \<le> ce then Some (n + 1, root)
               else Option.bind (if s < cs then f kz name (n + 1) s (cs - 1) root else Some (n + 1, root))
                   (\<lambda>(n', root'). if ce < e then f kz name n' (ce + 1) e root' else Some (n', root'))
           | Inr root' \<Rightarrow> Some (n + 1, root'))) = Some y"
  show "(\<forall>n. kz n \<noteq> None) \<longrightarrow> s \<le> e \<longrightarrow> r_start root \<le> r_end root \<longrightarrow> r_start root \<le> s \<and> e \<le> r_end root"
  proof (intro impI, rule ccontr)
    assume kz: "\<forall>n. kz n \<noteq> None" and se: "s \<le> e" and rt: "r_start root \<le> r_end root"
      and out: "\<not> (r_start root \<le> s \<and> e \<le> r_end root)"
    obtain a where a: "kz n = Some a" using kz by blast
    note eq' = eq [unfolded a option.case conflict_range_outside [OF out] sum.case prod.case if_not_P [OF out]]
    show False
    proof (cases "s < r_start root")
      case True
      then obtain y' where "f kz name (n + 1) s (r_start root - 1) root = Some y'"
        using eq' by (auto simp: bind_eq_Some_conv)
      from IH [OF this] show False using kz rt True u32_pred(1) [OF True, of s] by auto
    next
      case False
      then have lt: "r_end root < e" using out by auto
      then have "f kz name (n + 1) (r_end root + 1) e root = Some y"
        using eq' False by simp
      from IH [OF this] show False using kz rt lt u32_succ(1) [OF lt, of e] by auto
    qed
  qed
qed

subsection \<open>Regions as a pool of ranges\<close>

text \<open>
  What a driver relies on when it requests several regions and gives them back: a pool whose requests
  can be undone.  Requests are made one after the other and undone in the reverse order, as
  \<open>devres_release_all\<close> and the error path of a probe function do.
\<close>

fun request_all :: "('t \<Rightarrow> 'r \<Rightarrow> 't option) \<Rightarrow> 't \<Rightarrow> 'r list \<Rightarrow> 't option" where
  "request_all rq t [] = Some t"
| "request_all rq t (r # rs) = Option.bind (rq t r) (\<lambda>t'. request_all rq t' rs)"

locale range_pool =
  fixes rq :: "'t \<Rightarrow> 'r \<Rightarrow> 't option" and rl :: "'t \<Rightarrow> 'r \<Rightarrow> 't option"
    and wf :: "'t \<Rightarrow> bool" and valid :: "'r \<Rightarrow> bool"
  assumes rq_wf: "wf t \<Longrightarrow> valid r \<Longrightarrow> rq t r = Some t' \<Longrightarrow> wf t'"
    and rl_rq: "wf t \<Longrightarrow> valid r \<Longrightarrow> rq t r = Some t' \<Longrightarrow> rl t' r = Some t"
begin

lemma request_all_wf: "wf t \<Longrightarrow> list_all valid rs \<Longrightarrow> request_all rq t rs = Some t' \<Longrightarrow> wf t'"
  by (induction rs arbitrary: t) (auto simp: bind_eq_Some_conv intro: rq_wf)

lemma request_all_append: "request_all f t (rs @ rs') = Option.bind (request_all f t rs) (\<lambda>t'. request_all f t' rs')"
  by (induction rs arbitrary: t) (auto split: bind_splits)

lemma release_all_rev:
  "wf t \<Longrightarrow> list_all valid rs \<Longrightarrow> request_all rq t rs = Some t' \<Longrightarrow> request_all rl t' (rev rs) = Some t"
proof (induction rs arbitrary: t)
  case (Cons r rs)
  then obtain t1 where t1: "rq t r = Some t1" "request_all rq t1 rs = Some t'" by (auto simp: bind_eq_Some_conv)
  have "request_all rl t' (rev rs) = Some t1" using Cons t1 rq_wf [OF Cons.prems(1) _ t1(1)] by simp
  then show ?case using rl_rq [OF Cons.prems(1) _ t1(1)] Cons.prems(2) by (simp add: request_all_append)
qed simp

end

text \<open>
  A region to request: the address of its descriptor, its range given by start and length, its name, and
  the flags of the request.
\<close>

record region_req =
  rr_addr :: nat
  rr_start :: u32
  rr_n :: u32
  rr_name :: string
  rr_flags :: u32

definition take_region :: "resource \<Rightarrow> region_req \<Rightarrow> resource option" where
  "take_region parent q =
     (case request_region parent (region (rr_addr q) (rr_start q) (rr_n q) (rr_name q) (rr_flags q)) (rr_flags q) of
        Granted p \<Rightarrow> Some p
      | _ \<Rightarrow> None)"

definition drop_region :: "resource \<Rightarrow> region_req \<Rightarrow> resource option" where
  "drop_region parent q = map_option snd (release_region parent (rr_start q) (rr_n q))"

definition valid_req :: "region_req \<Rightarrow> bool" where
  "valid_req q \<longleftrightarrow> rr_start q \<le> rr_start q + rr_n q - 1"

lemma region_wf: "valid_req q \<Longrightarrow> res_wf (region (rr_addr q) (rr_start q) (rr_n q) (rr_name q) (rr_flags q))"
  by (simp add: region_def valid_req_def)

lemma region_busy: "r_flags (region a s n nm f) AND IORESOURCE_BUSY \<noteq> 0"
proof -
  have "bit (r_flags (region a s n nm f) AND IORESOURCE_BUSY) 31"
    by (simp add: region_def IORESOURCE_BUSY_def bit_simps)
  then show ?thesis by (metis bit_0_eq bot_apply bot_bool_def)
qed

interpretation regions: range_pool take_region drop_region res_wf valid_req
proof
  fix t q t' assume "res_wf t" "valid_req q" and tk: "take_region t q = Some t'"
  then have g: "request_region t (region (rr_addr q) (rr_start q) (rr_n q) (rr_name q) (rr_flags q)) (rr_flags q) = Granted t'"
    by (auto simp: take_region_def split: region_result.splits)
  note rw = request_region_wf [OF \<open>res_wf t\<close> region_wf [OF \<open>valid_req q\<close>] g]
  show "res_wf t'" using rw by blast
  have "release_region_in (rr_start q) (rr_start q + rr_n q - 1) (r_child t') = Some
      (region (rr_addr q) (rr_start q) (rr_n q) (rr_name q) (rr_flags q), r_child t)"
    using request_then_release_in [OF \<open>res_wf t\<close> region_wf [OF \<open>valid_req q\<close>] region_busy g]
    by (simp add: region_def)
  then show "drop_region t' q = Some t" using rw by (simp add: drop_region_def release_region_def)
qed

subsection \<open>Properties\<close>

text \<open>An example tree: a bus with a device on it, and a busy region of that device.\<close>

definition busy_region :: resource where
  "busy_region = Resource 3 0x100 0x1ff ''driver'' (IORESOURCE_BUSY OR IORESOURCE_MUXED) []"

definition demo_root :: resource where
  "demo_root = Resource 1 0 0xffff ''bus'' 0 [Resource 2 0x100 0x2ff ''device'' 0 [busy_region]]"

lemma demo_root_wf: "res_wf demo_root"
  by (simp add: demo_root_def busy_region_def)

text \<open>
  C13. \<open>__request_resource\<close> grants a range exactly when it lies inside the root and overlaps none of its
  children; it then links the new descriptor in and leaves a well-formed tree (children inside their
  parent, ordered and disjoint).  Otherwise it returns the root, when the range is not inside it, or a
  child that does overlap.
\<close>

theorem request_resource_exclusive:
  assumes "res_wf root" "res_wf new"
  shows "case request_resource root new of
      Placed root' \<Rightarrow> res_wf root' \<and> set (r_child root') = insert new (set (r_child root))
        \<and> inside new root \<and> (\<forall>c \<in> set (r_child root). \<not> overlaps c new)
    | Conflict_root \<Rightarrow> \<not> inside new root
    | Conflict_child i c \<Rightarrow> i < length (r_child root) \<and> c = r_child root ! i \<and> overlaps c new"
  using request_placed_wf [OF assms] request_conflict_root [OF assms(2)] request_conflict_child
  by (auto split: request_result.split)

theorem request_resource_exclusive_witness:
  "\<exists>root'. request_resource demo_root (Resource 9 0x400 0x4ff [] 0 []) = Placed root' \<and> res_wf root'"
proof -
  have new: "res_wf (Resource 9 0x400 0x4ff [] 0 [])" by simp
  have "request_resource demo_root (Resource 9 0x400 0x4ff [] 0 []) =
      Placed (set_child demo_root (r_child demo_root @ [Resource 9 0x400 0x4ff [] 0 []]))"
    by (simp add: request_resource_def demo_root_def busy_region_def)
  then show ?thesis using request_resource_exclusive [OF demo_root_wf new] by auto
qed

text \<open>
  C14. \<open>__insert_resource\<close> keeps the tree well formed, also when the new range covers existing siblings,
  which then become its children, or has to be put several levels down; when it fails, the descriptor it
  returns overlaps the new range without one containing the other, or the range is not inside the root.
\<close>

theorem insert_resource_keeps_tree:
  assumes "res_wf parent" "res_wf new" "r_id new \<notin> r_id ` set (r_walk parent)"
  shows "case insert_resource_conflict parent new of
      Inr p \<Rightarrow> res_wf p \<and> r_start p = r_start parent \<and> r_end p = r_end parent
    | Inl None \<Rightarrow> \<not> inside new parent
    | Inl (Some c) \<Rightarrow> c \<in> set (r_walk parent) \<and> overlaps c new \<and> \<not> inside c new \<and> \<not> inside new c"
  using assms by (rule insert_resource_spec)

theorem insert_resource_keeps_tree_witness:
  "\<exists>p. insert_resource_conflict demo_root (Resource 9 0x80 0x3ff [] 0 []) = Inr p \<and> res_wf p"
proof -
  have "\<not> isl (insert_resource_conflict demo_root (Resource 9 0x80 0x3ff [] 0 []))" by code_simp
  then obtain p where "insert_resource_conflict demo_root (Resource 9 0x80 0x3ff [] 0 []) = Inr p"
    by (metis isl_def sum.exhaust)
  then show ?thesis
    using insert_resource_keeps_tree [OF demo_root_wf, of "Resource 9 0x80 0x3ff [] 0 []"]
    by (auto simp: demo_root_def busy_region_def)
qed



text \<open>
  C16. \<open>__reserve_region_with_split\<close> of a range inside the root returns, and afterwards every address of
  the range belongs to some child of the root, all the former children being still there.
\<close>

theorem reserve_region_covers:
  assumes "res_wf root" "s \<le> e" "r_start root \<le> s" "e \<le> r_end root" "\<forall>n. kz n \<noteq> None"
  shows "\<exists>n' root'. reserve_region_with_split kz name n s e root = Some (n', root')
    \<and> res_wf root' \<and> set (r_child root) \<subseteq> set (r_child root') \<and> covers root' s e"
  using reserve_inside [OF assms(1-4), of kz name n] assms(5) by (auto simp: extends_def)

theorem reserve_region_covers_witness:
  "\<exists>n' root'. reserve_region_with_split (\<lambda>n. Some (100 + n)) ''rsv'' 0 0 0x7ff demo_root = Some (n', root')
    \<and> covers root' 0 0x7ff"
  using reserve_region_covers [OF demo_root_wf, of 0 "0x7ff" "\<lambda>n. Some (100 + n)" "''rsv''" 0]
  by (auto simp: demo_root_def)

text \<open>
  C17. The same function recurses for ever when the range is not inside the root: the conflict it gets
  back is then the root, and one of the two halves it tries next is again outside the root and splits into
  itself.
\<close>

theorem reserve_region_outside_diverges:
  assumes "\<forall>n. kz n \<noteq> None" "s \<le> e" "r_start root \<le> r_end root" "s < r_start root \<or> r_end root < e"
  shows "reserve_region_with_split kz name n s e root = None"
  using reserve_returns_inside [of kz name n s e root] assms by (cases "reserve_region_with_split kz name n s e root") auto

theorem reserve_region_outside_diverges_witness:
  "reserve_region_with_split (\<lambda>n. Some (100 + n)) ''rsv'' 0 0 0x1ffff demo_root = None"
  by (rule reserve_region_outside_diverges) (simp_all add: demo_root_def)

text \<open>
  \<open>insert_resource_expand_to_fit\<close> ends: after finitely many enlargements of the descriptor, which
  covers the range asked for, either it is in the tree, still well formed, or it has grown beyond the
  root and the tree is as before.
\<close>

lemma expand_to_fit_terminates:
  assumes "res_wf root" "res_wf new" "r_id new \<notin> r_id ` set (r_walk root)"
  shows "\<exists>new' root'. insert_resource_expand_to_fit root new = Some (new', root') \<and> res_wf root' \<and> inside new new'
    \<and> (root' = root \<and> \<not> inside new' root \<or> insert_resource_conflict root new' = Inr root')"
  using assms by (rule expand_to_fit_returns)

lemma expand_to_fit_terminates_witness:
  "\<exists>new' root'. insert_resource_expand_to_fit demo_root (Resource 9 0x280 0x3ff [] 0 []) = Some (new', root')
     \<and> res_wf root' \<and> inside (Resource 9 0x280 0x3ff [] 0 []) new'"
  using expand_to_fit_terminates [OF demo_root_wf, of "Resource 9 0x280 0x3ff [] 0 []"]
  by (auto simp: demo_root_def busy_region_def)

text \<open>
  C18. Requesting busy regions and releasing them in the reverse order gives back the original tree,
  node for node, wherever in the tree the regions were put.
\<close>

theorem regions_round_trip:
  assumes "res_wf root" "list_all valid_req rs" "request_all take_region root rs = Some root'"
  shows "res_wf root' \<and> request_all drop_region root' (rev rs) = Some root"
  using regions.request_all_wf [OF assms] regions.release_all_rev [OF assms] by blast

definition demo_reqs :: "region_req list" where
  "demo_reqs = [\<lparr>rr_addr = 11, rr_start = 0x200, rr_n = 0x80, rr_name = ''a'', rr_flags = 0\<rparr>,
     \<lparr>rr_addr = 12, rr_start = 0x8000, rr_n = 1, rr_name = ''b'', rr_flags = 0\<rparr>]"

theorem regions_round_trip_witness:
  "\<exists>root'. request_all take_region demo_root demo_reqs = Some root'
     \<and> request_all drop_region root' (rev demo_reqs) = Some demo_root"
proof -
  have "\<not> Option.is_none (request_all take_region demo_root demo_reqs)" by code_simp
  then have "\<exists>root'. request_all take_region demo_root demo_reqs = Some root'" by (auto simp: Option.is_none_def)
  moreover have "list_all valid_req demo_reqs" by (simp add: demo_reqs_def valid_req_def)
  ultimately show ?thesis using regions_round_trip [OF demo_root_wf] by blast
qed

text \<open>
  \<open>__find_resource\<close> does not see that the end of a slot wraps around: reallocating a resource to a
  size that does not fit above the lower bound succeeds, and leaves in the tree a descriptor that ends
  before it starts.
\<close>

lemma reallocate_resource_wraps:
  "let root = Resource 1 0 0xffffffff ''mem'' 0 [Resource 2 0xf0000000 0xf0000fff ''bar'' 0 []];
       c = \<lparr>c_min = 0xf8000000, c_max = 0xffffffff, c_align = 1, c_alignf = simple_align_resource\<rparr>
   in res_wf root
      \<and> (\<exists>root'. reallocate_resource root (r_child root ! 0) 0x20000000 c = Some (None, root') \<and> \<not> res_wf root')"
  by (simp add: reallocate_resource_def find_resource_def try_gap_def resource_clip_def ALIGN_def
      simple_align_resource_def range_contains_def set_range_def set_child_def)

text \<open>
  A request for a muxed region that has to wait remembers the busy descriptor it waits for as the
  parent to retry under; releasing the region, which is what wakes the waiter, takes that descriptor out
  of the tree (and frees it), so the retry works on a freed descriptor.
\<close>

lemma muxed_waiter_retries_under_freed_parent:
  "request_region demo_root (region 9 0x100 0x100 ''second'' IORESOURCE_MUXED) IORESOURCE_MUXED = Sleeps_on 3
   \<and> (\<exists>root'. release_region demo_root 0x100 0x100 = Some (busy_region, root')
        \<and> 3 \<notin> r_id ` set (r_walk root'))"
  by (simp add: request_region.simps request_resource_def release_region_def demo_root_def busy_region_def
      region_def set_child_def IORESOURCE_BUSY_def IORESOURCE_MUXED_def)

end
