(* ===== verification/System_Ram.thy ===== *)
theory System_Ram
  imports Resource_Props
begin

text \<open>
  Readers of the memory tree in \<open>kernel/resource.c\<close>: the walk over the System RAM ranges
  (\<open>find_next_system_ram\<close>, \<open>walk_system_ram_range\<close>, \<open>page_is_ram\<close>), the sanity check of a mapping and
  the test for exclusive memory.
\<close>

definition PAGE_SHIFT :: nat where "PAGE_SHIFT = 12"
definition PAGE_SIZE :: u32 where "PAGE_SIZE = 0x1000"

text \<open>
  \<open>find_next_system_ram\<close> over the children of \<open>iomem_resource\<close>, with the name and flags looked for; the
  answer is the range overwritten in \<open>res\<close>.
\<close>

fun find_next_system_ram :: "string \<Rightarrow> u32 \<Rightarrow> u32 \<Rightarrow> u32 \<Rightarrow> resource list \<Rightarrow> (u32 \<times> u32) option" where
  "find_next_system_ram name flags s e [] = None"
| "find_next_system_ram name flags s e (p # ps) =
     (if r_flags p \<noteq> flags then find_next_system_ram name flags s e ps
      else if r_name p \<noteq> name then find_next_system_ram name flags s e ps
      else if r_start p > e then None
      else if r_end p \<ge> s \<and> r_start p < e then
        Some (if s < r_start p then r_start p else s, if e > r_end p then r_end p else e)
      else find_next_system_ram name flags s e ps)"

definition ram_flags :: u32 where "ram_flags = IORESOURCE_MEM OR IORESOURCE_BUSY"

text \<open>
  The loop of \<open>walk_system_ram_range\<close> with the callback \<open>func\<close>, its current result \<open>ret\<close> and the calls
  made so far.
\<close>

partial_function (option) walk_ram_loop ::
    "(u32 \<Rightarrow> u32 \<Rightarrow> int) \<Rightarrow> resource list \<Rightarrow> u32 \<Rightarrow> u32 \<Rightarrow> u32 \<Rightarrow> int \<Rightarrow> (u32 \<times> u32) list
       \<Rightarrow> (int \<times> (u32 \<times> u32) list) option" where
  "walk_ram_loop func ps s e orig_end ret calls =
     (if s < e then
        (case find_next_system_ram ''System RAM'' ram_flags s e ps of
           None \<Rightarrow> Some (ret, calls)
         | Some (a, b) \<Rightarrow>
             (let pfn = drop_bit PAGE_SHIFT (a + PAGE_SIZE - 1);
                  end_pfn = drop_bit PAGE_SHIFT (b + 1);
                  hit = end_pfn > pfn;
                  ret' = (if hit then func pfn (end_pfn - pfn) else ret);
                  calls' = (if hit then calls @ [(pfn, end_pfn - pfn)] else calls)
              in if ret' \<noteq> 0 then Some (ret', calls')
                 else walk_ram_loop func ps (b + 1) orig_end orig_end ret' calls'))
      else Some (ret, calls))"

declare walk_ram_loop.simps [code]

definition walk_system_ram_range ::
    "resource \<Rightarrow> u32 \<Rightarrow> u32 \<Rightarrow> (u32 \<Rightarrow> u32 \<Rightarrow> int) \<Rightarrow> (int \<times> (u32 \<times> u32) list) option" where
  "walk_system_ram_range iomem start_pfn nr_pages func =
     (let s = ucast (push_bit PAGE_SHIFT (ucast start_pfn :: u64));
          e = ucast (push_bit PAGE_SHIFT (ucast (start_pfn + nr_pages) :: u64) - 1)
      in walk_ram_loop func (r_child iomem) s e e (- 1) [])"

definition page_is_ram :: "resource \<Rightarrow> u32 \<Rightarrow> bool" where
  "page_is_ram iomem pfn = (map_option fst (walk_system_ram_range iomem pfn 1 (\<lambda>_ _. 1)) = Some 1)"

text \<open>\<open>PFN_DOWN\<close>.\<close>

definition PFN_DOWN :: "u32 \<Rightarrow> u32" where "PFN_DOWN x = drop_bit PAGE_SHIFT x"

text \<open>\<open>iomem_map_sanity_check\<close>: \<open>True\<close> when it returns -1.\<close>

definition iomem_map_sanity_check :: "resource \<Rightarrow> u32 \<Rightarrow> u32 \<Rightarrow> bool" where
  "iomem_map_sanity_check iomem addr sz =
     list_ex (\<lambda>p. \<not> (r_start p \<ge> addr + sz) \<and> \<not> (r_end p < addr)
         \<and> \<not> (PFN_DOWN (r_start p) \<le> PFN_DOWN addr \<and> PFN_DOWN (r_end p) \<ge> PFN_DOWN (addr + sz - 1))
         \<and> r_flags p AND IORESOURCE_BUSY = 0)
       (concat (map r_walk (r_child iomem)))"

text \<open>
  \<open>iomem_is_exclusive\<close>; \<open>strict\<close> is \<open>strict_iomem_checks\<close>.  The walk stops at the first node that starts
  after the page.
\<close>

definition iomem_is_exclusive :: "bool \<Rightarrow> resource \<Rightarrow> u64 \<Rightarrow> bool" where
  "iomem_is_exclusive strict iomem addr0 =
     (if \<not> strict then False
      else
        (let addr = addr0 AND ucast (NOT (PAGE_SIZE - 1));
             ps = takeWhile (\<lambda>p. \<not> ((ucast (r_start p) :: u64) \<ge> addr + ucast PAGE_SIZE)) (concat (map r_walk (r_child iomem)))
         in list_ex (\<lambda>p. \<not> ((ucast (r_end p) :: u64) < addr)
              \<and> r_flags p AND IORESOURCE_BUSY \<noteq> 0 \<and> r_flags p AND IORESOURCE_EXCLUSIVE \<noteq> 0) ps))"

subsection \<open>The walk\<close>

definition is_ram :: "resource \<Rightarrow> bool" where
  "is_ram p \<longleftrightarrow> r_flags p = ram_flags \<and> r_name p = ''System RAM''"

lemma find_next_system_ram_range:
  "find_next_system_ram ''System RAM'' ram_flags s e ps = Some (a, b) \<Longrightarrow> s < e \<Longrightarrow> list_all res_wf ps \<Longrightarrow>
     s \<le> a \<and> a \<le> b \<and> b \<le> e \<and> (\<exists>p \<in> set ps. is_ram p \<and> r_start p \<le> a \<and> b \<le> r_end p)"
  by (induction ps) (auto simp: is_ram_def not_less dest!: res_wf_range split: if_splits)

text \<open>A call reported to \<open>func\<close> is for whole pages of one System RAM range.\<close>

definition call_ok :: "resource list \<Rightarrow> u32 \<times> u32 \<Rightarrow> bool" where
  "call_ok ps call \<longleftrightarrow> 0 < snd call \<and>
     (\<exists>p \<in> set ps. is_ram p \<and> unat (r_start p) \<le> unat (fst call) * 4096
        \<and> (unat (fst call) + unat (snd call)) * 4096 \<le> unat (r_end p) + 1)"

lemma unat_page_up: "unat a + 4095 < 2 ^ 32 \<Longrightarrow> unat (a + PAGE_SIZE - 1) = unat a + 4095"
proof -
  assume "unat a + 4095 < 2 ^ 32"
  then have "unat (a + 4095) = unat a + 4095" by (subst unat_add_lem [THEN iffD1]) simp_all
  then show ?thesis by (simp add: PAGE_SIZE_def add.commute)
qed

lemma unat_page: "unat (drop_bit PAGE_SHIFT (x :: u32)) = unat x div 4096"
  unfolding unat_drop_bit_eq PAGE_SHIFT_def by (simp add: drop_bit_eq_div)

lemma call_ok_chunk:
  assumes "p \<in> set ps" "is_ram p" "r_start p \<le> a" "b \<le> r_end p" and b: "a \<le> b" "b < 0xfffff000"
    and hit: "drop_bit PAGE_SHIFT (b + 1) > drop_bit PAGE_SHIFT (a + PAGE_SIZE - 1)"
  shows "call_ok ps (drop_bit PAGE_SHIFT (a + PAGE_SIZE - 1), drop_bit PAGE_SHIFT (b + 1) - drop_bit PAGE_SHIFT (a + PAGE_SIZE - 1))"
proof -
  let ?pfn = "drop_bit PAGE_SHIFT (a + PAGE_SIZE - 1)" and ?lim = "drop_bit PAGE_SHIFT (b + 1)"
  have n: "unat a \<le> unat b" "unat b < 4294963200" using b by (simp_all add: word_le_nat_alt word_less_nat_alt)
  have pfn: "unat ?pfn = (unat a + 4095) div 4096"
    using n unat_page_up [of a] by (simp add: unat_page)
  have "unat (b + 1) = unat b + 1" using n by (subst unat_add_lem [THEN iffD1]) simp_all
  then have en: "unat ?lim = (unat b + 1) div 4096" by (simp add: unat_page)
  have lt: "unat ?pfn < unat ?lim" using hit by (simp add: word_less_nat_alt)
  then have sub: "unat (?lim - ?pfn) = unat ?lim - unat ?pfn" by (simp add: unat_sub word_le_nat_alt)
  have "unat a \<le> unat ?pfn * 4096" "unat ?lim * 4096 \<le> unat b + 1" unfolding pfn en by auto
  moreover have "unat (r_start p) \<le> unat a" "unat b \<le> unat (r_end p)" using assms(3,4) by (simp_all add: word_le_nat_alt)
  moreover have "0 < ?lim - ?pfn" using sub lt by (simp add: word_less_nat_alt)
  ultimately show ?thesis using assms(1,2) sub lt unfolding call_ok_def by (intro conjI bexI [of _ p]) auto
qed

lemma walk_ram_returns:
  assumes wf: "list_all res_wf ps" and orig: "orig < 0xfffff000"
  shows "\<exists>ret' calls'. walk_ram_loop func ps s orig orig ret calls = Some (ret', calls')
    \<and> (\<forall>c \<in> set calls'. call_ok ps c \<or> c \<in> set calls)"
proof (induction "2 ^ 32 - unat s" arbitrary: s ret calls rule: less_induct)
  case less
  note eq = walk_ram_loop.simps [of func ps s orig orig ret calls]
  show ?case
  proof (cases "find_next_system_ram ''System RAM'' ram_flags s orig ps")
    case None
    then show ?thesis using eq by auto
  next
    case (Some ab)
    obtain a b where ab: "ab = (a, b)" by force
    show ?thesis
    proof (cases "s < orig")
      case False
      then show ?thesis using eq by auto
    next
      case True
      from find_next_system_ram_range [OF Some [unfolded ab] True wf]
      obtain p where r: "s \<le> a" "a \<le> b" "b \<le> orig" and p: "p \<in> set ps" "is_ram p" "r_start p \<le> a" "b \<le> r_end p"
        by blast
      have small: "b < 0xfffff000" using r orig by simp
      note ok = call_ok_chunk [OF p r(2) small]
      have b1: "unat (b + 1) = unat b + 1" using small by (intro u32_succ(2))
      then have "2 ^ 32 - unat (b + 1) < 2 ^ 32 - unat s"
        using r unat_u32_less [of "b + 1"] by (simp add: word_le_nat_alt)
      then have IH: "\<exists>ret' calls'. walk_ram_loop func ps (b + 1) orig orig rt cl = Some (ret', calls')
          \<and> (\<forall>c \<in> set calls'. call_ok ps c \<or> c \<in> set cl)" for rt cl by (rule less.hyps)
      show ?thesis
      proof (cases "drop_bit PAGE_SHIFT (b + 1) > drop_bit PAGE_SHIFT (a + PAGE_SIZE - 1)")
        case hit: True
        show ?thesis using eq True Some ab hit ok [OF hit]
            IH [of 0 "calls @ [(drop_bit PAGE_SHIFT (a + PAGE_SIZE - 1), drop_bit PAGE_SHIFT (b + 1) - drop_bit PAGE_SHIFT (a + PAGE_SIZE - 1))]"]
          by (auto simp: Let_def)
      next
        case miss: False
        then show ?thesis using eq True Some ab IH [of 0 calls] by (auto simp: Let_def)
      qed
    qed
  qed
qed

text \<open>
  C19. Below the last page of the address space the walk over System RAM ends, and every range of page
  frames it hands to the callback lies wholly inside one System RAM resource.
\<close>

theorem walk_system_ram_sound:
  assumes "res_wf iomem" and "ucast (push_bit PAGE_SHIFT (ucast (start_pfn + nr_pages) :: u64) - 1) < (0xfffff000 :: u32)"
  shows "\<exists>ret calls. walk_system_ram_range iomem start_pfn nr_pages func = Some (ret, calls)
    \<and> (\<forall>call \<in> set calls. call_ok (r_child iomem) call)"
proof -
  have "list_all res_wf (r_child iomem)" using res_wf_child [OF assms(1)] by (simp add: list_all_iff)
  from walk_ram_returns [OF this assms(2), of func _ "- 1" "[]"] show ?thesis
    by (auto simp: walk_system_ram_range_def Let_def)
qed

definition two_banks :: resource where
  "two_banks = Resource 1 0 0xffffffff ''PCI mem'' 0
     [Resource 2 0x100 0x1ff ''System RAM'' ram_flags [], Resource 3 0x10000 0x1ffff ''System RAM'' ram_flags []]"

lemma two_banks_wf: "res_wf two_banks"
  by (simp add: two_banks_def before_def)

theorem walk_system_ram_sound_witness:
  "\<exists>ret calls. walk_system_ram_range two_banks 0 64 (\<lambda>_ _. 0) = Some (ret, calls)
     \<and> (\<forall>call \<in> set calls. call_ok (r_child two_banks) call)"
  by (rule walk_system_ram_sound [OF two_banks_wf]) (simp add: PAGE_SHIFT_def push_bit_eq_mult)

text \<open>
  The comment on \<open>walk_system_ram_range\<close> says it calls the callback on all System RAM of the range.
  It stops at the first System RAM resource that holds no whole page, because the result it breaks on is
  still the initial -1: the callback is never called on the 16 whole pages that follow.
\<close>

lemma walk_system_ram_stops_early:
  "walk_system_ram_range two_banks 0 64 (\<lambda>_ _. 0) = Some (- 1, [])
   \<and> walk_system_ram_range two_banks 16 16 (\<lambda>_ _. 0) = Some (0, [(16, 16)])"
  by (intro conjI; code_simp)

end
