(* ===== verification/Supp_Groups.thy ===== *)
theory Supp_Groups
  imports Kernel_Prelude "HOL-Library.Multiset"
begin

text \<open>
  Supplementary group lists (\<open>kernel/groups.c\<close>, \<open>struct group_info\<close> of \<open>include/linux/cred.h\<close>): the two-level
  array of group ids, its allocation, the copies from and to user space, the Shell sort and the binary
  search.

  The array is reached through \<open>GROUP_AT\<close>; an access outside an allocated block is the value \<open>None\<close>, and so
  is a loop that does not return. The abstraction \<open>groups_of\<close> reads the first \<open>ngroups\<close> entries as a list,
  and the operations are shown to refine \<open>sort\<close> and membership on that list.
\<close>

subsection \<open>Data\<close>

text \<open>
  \<open>is_small\<close> records that \<open>blocks[0]\<close> points to the embedded \<open>small_block\<close>. The blocks are the pages (or the
  embedded array) with their contents.
\<close>

record group_info =
  gi_usage :: int
  ngroups :: int
  nblocks :: int
  is_small :: bool
  blocks :: "u32 list list"

definition NGROUPS_MAX :: int where "NGROUPS_MAX = 65536"
definition NGROUPS_SMALL :: int where "NGROUPS_SMALL = 32"
definition NGROUPS_PER_BLOCK :: int where "NGROUPS_PER_BLOCK = 1024"

text \<open>\<open>GROUP_AT\<close> as an rvalue and as an lvalue.\<close>

definition GROUP_AT :: "group_info \<Rightarrow> int \<Rightarrow> u32 option" where
  "GROUP_AT gi i =
     (let b = nat (i div NGROUPS_PER_BLOCK); j = nat (i mod NGROUPS_PER_BLOCK) in
      if 0 \<le> i \<and> b < length (blocks gi) \<and> j < length (blocks gi ! b) then Some (blocks gi ! b ! j) else None)"

definition set_GROUP_AT :: "group_info \<Rightarrow> int \<Rightarrow> u32 \<Rightarrow> group_info option" where
  "set_GROUP_AT gi i v =
     (let b = nat (i div NGROUPS_PER_BLOCK); j = nat (i mod NGROUPS_PER_BLOCK) in
      if 0 \<le> i \<and> b < length (blocks gi) \<and> j < length (blocks gi ! b)
      then Some (gi\<lparr>blocks := (blocks gi)[b := (blocks gi ! b)[j := v]]\<rparr>) else None)"

subsection \<open>Allocation\<close>

text \<open>
  The page and slab allocators are the environment: \<open>kmalloc\<close> is \<open>None\<close> or the contents the embedded block
  happens to have, \<open>page i\<close> the same for the i-th page asked for. \<open>live\<close> counts what is allocated: slab
  objects and pages.
\<close>

record live_mem =
  objects :: int
  pages :: int

definition free_page :: "live_mem \<Rightarrow> live_mem" where
  "free_page l = l\<lparr>pages := pages l - 1\<rparr>"

fun undo_partial_alloc :: "nat \<Rightarrow> live_mem \<Rightarrow> live_mem" where
  "undo_partial_alloc 0 l = l"
| "undo_partial_alloc (Suc i) l = undo_partial_alloc i (free_page l)"

fun alloc_blocks ::
    "(nat \<Rightarrow> u32 list option) \<Rightarrow> nat \<Rightarrow> nat \<Rightarrow> u32 list list \<Rightarrow> live_mem \<Rightarrow> u32 list list option \<times> live_mem" where
  "alloc_blocks page i 0 bs l = (Some bs, l)"
| "alloc_blocks page i (Suc n) bs l =
     (case page i of
        None \<Rightarrow> (None, undo_partial_alloc i l)
      | Some b \<Rightarrow> alloc_blocks page (Suc i) n (bs @ [b]) (l\<lparr>pages := pages l + 1\<rparr>))"

definition groups_alloc ::
    "u32 list option \<Rightarrow> (nat \<Rightarrow> u32 list option) \<Rightarrow> int \<Rightarrow> live_mem \<Rightarrow> group_info option \<times> live_mem" where
  "groups_alloc kmalloc page gidsetsize l =
     (let n = (gidsetsize + NGROUPS_PER_BLOCK - 1) div NGROUPS_PER_BLOCK;
          n = (if n \<noteq> 0 then n else 1) in
      case kmalloc of
        None \<Rightarrow> (None, l)
      | Some small_block \<Rightarrow>
          let l = l\<lparr>objects := objects l + 1\<rparr>;
              gi = \<lparr>gi_usage = 1, ngroups = gidsetsize, nblocks = n, is_small = True, blocks = [small_block]\<rparr> in
          if gidsetsize \<le> NGROUPS_SMALL then (Some gi, l)
          else (case alloc_blocks page 0 (nat n) [] l of
                  (Some bs, l) \<Rightarrow> (Some (gi\<lparr>is_small := False, blocks := bs\<rparr>), l)
                | (None, l) \<Rightarrow> (None, l\<lparr>objects := objects l - 1\<rparr>)))"

definition groups_free :: "group_info \<Rightarrow> live_mem \<Rightarrow> live_mem" where
  "groups_free gi l =
     (let l = (if is_small gi then l else (free_page ^^ nat (nblocks gi)) l) in
      l\<lparr>objects := objects l - 1\<rparr>)"

subsection \<open>Copies from and to user space\<close>

text \<open>
  User memory is read and written in words: \<open>None\<close> is an address that faults. \<open>copy_from_user\<close> and
  \<open>copy_to_user\<close> report a fault on any of the words; the words before it have then been written.
\<close>

type_synonym user_mem = "int \<Rightarrow> u32 option"

fun copy_from_user :: "user_mem \<Rightarrow> int \<Rightarrow> nat \<Rightarrow> u32 list option" where
  "copy_from_user um a 0 = Some []"
| "copy_from_user um a (Suc n) =
     (case um a of
        None \<Rightarrow> None
      | Some v \<Rightarrow> map_option (\<lambda>vs. v # vs) (copy_from_user um (a + 1) n))"

fun copy_to_user :: "user_mem \<Rightarrow> int \<Rightarrow> u32 list \<Rightarrow> bool \<times> user_mem" where
  "copy_to_user um a [] = (True, um)"
| "copy_to_user um a (v # vs) =
     (case um a of
        None \<Rightarrow> (False, um)
      | Some _ \<Rightarrow> copy_to_user (um(a \<mapsto> v)) (a + 1) vs)"

text \<open>
  The loops run over the blocks; \<open>remaining\<close> (\<open>count\<close>) is what is left to copy. The copy into a block overwrites its
  first \<open>cp_count\<close> entries; a failed copy leaves contents that the callers never look at.
\<close>

fun groups_from_user_loop :: "user_mem \<Rightarrow> int \<Rightarrow> int \<Rightarrow> u32 list list \<Rightarrow> u32 list list option" where
  "groups_from_user_loop um grouplist remaining [] = Some []"
| "groups_from_user_loop um grouplist remaining (b # bs) =
     (let cp_count = min NGROUPS_PER_BLOCK remaining in
      case copy_from_user um grouplist (nat cp_count) of
        None \<Rightarrow> None
      | Some vs \<Rightarrow>
          map_option (\<lambda>bs. (vs @ drop (nat cp_count) b) # bs)
            (groups_from_user_loop um (grouplist + NGROUPS_PER_BLOCK) (remaining - cp_count) bs))"

definition groups_from_user :: "user_mem \<Rightarrow> group_info \<Rightarrow> int \<Rightarrow> errno option \<times> group_info" where
  "groups_from_user um gi grouplist =
     (case groups_from_user_loop um grouplist (ngroups gi) (take (nat (nblocks gi)) (blocks gi)) of
        None \<Rightarrow> (Some EFAULT, gi)
      | Some bs \<Rightarrow> (None, gi\<lparr>blocks := bs\<rparr>))"

fun groups_to_user_loop :: "user_mem \<Rightarrow> int \<Rightarrow> int \<Rightarrow> u32 list list \<Rightarrow> errno option \<times> user_mem" where
  "groups_to_user_loop um grouplist remaining [] = (None, um)"
| "groups_to_user_loop um grouplist remaining (b # bs) =
     (let cp_count = min NGROUPS_PER_BLOCK remaining in
      case copy_to_user um grouplist (take (nat cp_count) b) of
        (False, um) \<Rightarrow> (Some EFAULT, um)
      | (True, um) \<Rightarrow> groups_to_user_loop um (grouplist + NGROUPS_PER_BLOCK) (remaining - cp_count) bs)"

definition groups_to_user :: "user_mem \<Rightarrow> int \<Rightarrow> group_info \<Rightarrow> errno option \<times> user_mem" where
  "groups_to_user um grouplist gi =
     groups_to_user_loop um grouplist (ngroups gi) (take (nat (nblocks gi)) (blocks gi))"

subsection \<open>Sorting\<close>

text \<open>
  The loops of \<open>groups_sort\<close>, from the inside out: \<open>sort_shift\<close> moves larger entries up by the stride,
  \<open>sort_pass\<close> is the loop over \<open>base\<close> up to \<open>max\<close> (\<open>limit\<close>), \<open>sort_strides\<close> the loop that divides the stride. The counters are C
  ints; they stay below \<open>3 * NGROUPS_MAX\<close>.
\<close>

partial_function (option) sort_shift :: "group_info \<Rightarrow> int \<Rightarrow> u32 \<Rightarrow> int \<Rightarrow> int \<Rightarrow> (group_info \<times> int) option" where
  "sort_shift gi stride tmp left right =
     (if 0 \<le> left then
        Option.bind (GROUP_AT gi left) (\<lambda>v.
          if tmp < v then
            Option.bind (set_GROUP_AT gi right v) (\<lambda>gi. sort_shift gi stride tmp (left - stride) left)
          else Some (gi, right))
      else Some (gi, right))"

partial_function (option) sort_pass :: "group_info \<Rightarrow> int \<Rightarrow> int \<Rightarrow> int \<Rightarrow> group_info option" where
  "sort_pass gi stride base limit =
     (if base < limit then
        Option.bind (GROUP_AT gi (base + stride)) (\<lambda>tmp.
        Option.bind (sort_shift gi stride tmp base (base + stride)) (\<lambda>r.
        Option.bind (set_GROUP_AT (fst r) (snd r) tmp) (\<lambda>gi. sort_pass gi stride (base + 1) limit)))
      else Some gi)"

partial_function (option) sort_strides :: "group_info \<Rightarrow> int \<Rightarrow> int \<Rightarrow> group_info option" where
  "sort_strides gi stride gidsetsize =
     (if stride \<noteq> 0 then
        Option.bind (sort_pass gi stride 0 (gidsetsize - stride)) (\<lambda>gi. sort_strides gi (stride div 3) gidsetsize)
      else Some gi)"

partial_function (option) first_stride :: "int \<Rightarrow> int \<Rightarrow> int option" where
  "first_stride stride gidsetsize =
     (if stride < gidsetsize then first_stride (3 * stride + 1) gidsetsize else Some stride)"

definition groups_sort :: "group_info \<Rightarrow> group_info option" where
  "groups_sort gi =
     Option.bind (first_stride 1 (ngroups gi)) (\<lambda>stride. sort_strides gi (stride div 3) (ngroups gi))"

subsection \<open>Searching\<close>

text \<open>\<open>left\<close>, \<open>right\<close> and \<open>mid\<close> are unsigned ints: \<open>left + right\<close> wraps.\<close>

partial_function (option) groups_search_loop :: "group_info \<Rightarrow> u32 \<Rightarrow> u32 \<Rightarrow> u32 \<Rightarrow> bool option" where
  "groups_search_loop gi grp left right =
     (if left < right then
        (let mid = (left + right) div 2 in
         Option.bind (GROUP_AT gi (uint mid)) (\<lambda>g.
           if g < grp then groups_search_loop gi grp (mid + 1) right
           else if grp < g then groups_search_loop gi grp left mid
           else Some True))
      else Some False)"

definition groups_search :: "group_info option \<Rightarrow> u32 \<Rightarrow> bool option" where
  "groups_search group_info grp =
     (case group_info of
        None \<Rightarrow> Some False
      | Some gi \<Rightarrow> groups_search_loop gi grp 0 (word_of_int (ngroups gi)))"

declare sort_shift.simps [code] sort_pass.simps [code] sort_strides.simps [code]
  first_stride.simps [code] groups_search_loop.simps [code]

subsection \<open>Well-formed group lists and the list they stand for\<close>

definition gi_wf :: "group_info \<Rightarrow> bool" where
  "gi_wf gi \<longleftrightarrow>
     0 \<le> ngroups gi \<and> ngroups gi \<le> NGROUPS_MAX \<and>
     nblocks gi = max 1 ((ngroups gi + NGROUPS_PER_BLOCK - 1) div NGROUPS_PER_BLOCK) \<and>
     int (length (blocks gi)) = nblocks gi \<and>
     (if is_small gi then ngroups gi \<le> NGROUPS_SMALL \<and> length (blocks gi ! 0) = 32
      else (\<forall>b \<in> set (blocks gi). length b = 1024))"

text \<open>The abstraction: the entries below \<open>ngroups\<close>, as one list.\<close>

definition groups_of :: "group_info \<Rightarrow> u32 list" where
  "groups_of gi = take (nat (ngroups gi)) (concat (blocks gi))"


lemmas ngroups_consts = NGROUPS_MAX_def NGROUPS_SMALL_def NGROUPS_PER_BLOCK_def

text \<open>The concatenation of blocks of one length, read and written by index.\<close>

lemma length_concat_blocks:
  "\<forall>b \<in> set bs. length b = k \<Longrightarrow> length (concat bs) = length bs * k"
  by (induction bs) auto

lemma nth_concat_blocks:
  assumes "\<forall>b \<in> set bs. length b = k" "i < length bs * k"
  shows "concat bs ! i = bs ! (i div k) ! (i mod k)"
  using assms
proof (induction bs arbitrary: i)
  case (Cons b bs)
  then have "0 < k" by (cases k) auto
  show ?case
  proof (cases "i < k")
    case False
    then have "i div k = Suc ((i - k) div k)" "i mod k = (i - k) mod k"
      using \<open>0 < k\<close> by (simp_all add: div_if mod_if)
    with Cons False show ?thesis by (simp add: nth_append)
  qed (use Cons in \<open>simp add: nth_append\<close>)
qed simp

lemma update_concat_blocks:
  assumes "\<forall>b \<in> set bs. length b = k" "i < length bs * k"
  shows "concat (bs[i div k := (bs ! (i div k))[i mod k := v]]) = (concat bs)[i := v]"
  using assms
proof (induction bs arbitrary: i)
  case (Cons b bs)
  then have "0 < k" by (cases k) auto
  show ?case
  proof (cases "i < k")
    case False
    then have "i div k = Suc ((i - k) div k)" "i mod k = (i - k) mod k"
      using \<open>0 < k\<close> by (simp_all add: div_if mod_if)
    with Cons False show ?thesis by (simp add: list_update_append)
  qed (use Cons in \<open>simp add: list_update_append\<close>)
qed simp

text \<open>Two lists of blocks of the same shape, and what the shape gives.\<close>

definition same_shape :: "group_info \<Rightarrow> group_info \<Rightarrow> bool" where
  "same_shape gi gi' \<longleftrightarrow> (\<exists>bs. gi' = gi\<lparr>blocks := bs\<rparr>)"

lemma same_shape_refl [simp]: "same_shape gi gi"
  by (auto simp: same_shape_def intro: exI [of _ "blocks gi"])

lemma same_shape_trans [trans]: "same_shape a b \<Longrightarrow> same_shape b c \<Longrightarrow> same_shape a c"
  by (auto simp: same_shape_def)

lemma same_shape_ngroups: "same_shape gi gi' \<Longrightarrow> ngroups gi' = ngroups gi"
  by (auto simp: same_shape_def)

text \<open>A block index of a well-formed list, in natural numbers.\<close>

lemma nat_index:
  "0 \<le> i \<Longrightarrow> nat (i div NGROUPS_PER_BLOCK) = nat i div 1024"
  "0 \<le> i \<Longrightarrow> nat (i mod NGROUPS_PER_BLOCK) = nat i mod 1024"
  by (simp_all add: NGROUPS_PER_BLOCK_def nat_div_distrib nat_mod_distrib)

lemma gi_wf_cases:
  assumes "gi_wf gi"
  obtains (small) b where "is_small gi" "blocks gi = [b]" "length b = 32" "ngroups gi \<le> 32" "0 \<le> ngroups gi"
  | (pages) "\<not> is_small gi" "\<forall>b \<in> set (blocks gi). length b = 1024"
      "nat (ngroups gi) \<le> length (blocks gi) * 1024" "0 \<le> ngroups gi"
proof (cases "is_small gi")
  case True
  then have "length (blocks gi) = 1" "ngroups gi \<le> 32" "0 \<le> ngroups gi" "length (blocks gi ! 0) = 32"
    using assms by (auto simp: gi_wf_def ngroups_consts)
  then show ?thesis using True by (intro small [of "hd (blocks gi)"]) (auto simp: length_Suc_conv)
next
  case False
  have len: "int (length (blocks gi)) = max 1 ((ngroups gi + 1023) div 1024)" "0 \<le> ngroups gi"
    using assms by (auto simp: gi_wf_def ngroups_consts)
  have "ngroups gi \<le> max 1 ((ngroups gi + 1023) div 1024) * 1024" using len(2) by (simp add: max_def) linarith
  then have "ngroups gi \<le> int (length (blocks gi) * 1024)" using len(1) by simp
  then show ?thesis using False assms len(2) by (intro pages) (auto simp: gi_wf_def)
qed

lemma length_groups_of: "gi_wf gi \<Longrightarrow> length (groups_of gi) = nat (ngroups gi)"
  by (erule gi_wf_cases) (auto simp: groups_of_def length_concat_blocks [where k = 1024])

lemma GROUP_AT_flat:
  assumes "gi_wf gi" "0 \<le> i" "i < ngroups gi"
  shows "GROUP_AT gi i = Some (groups_of gi ! nat i)"
  using assms(1)
proof (cases rule: gi_wf_cases)
  case (small b)
  then have "nat i < 32" "nat i < nat (ngroups gi)" using assms by auto
  with small assms show ?thesis by (simp add: GROUP_AT_def nat_index groups_of_def)
next
  case pages
  then have *: "nat i < nat (ngroups gi)" "nat i < length (blocks gi) * 1024" using assms by auto
  then have "nat i div 1024 < length (blocks gi)" by (simp add: less_mult_imp_div_less)
  with * pages assms show ?thesis
    by (simp add: GROUP_AT_def nat_index groups_of_def nth_concat_blocks [where k = 1024])
qed

lemma set_GROUP_AT_flat:
  assumes "gi_wf gi" "0 \<le> i" "i < ngroups gi"
  obtains gi' where "set_GROUP_AT gi i v = Some gi'" "gi_wf gi'" "same_shape gi gi'"
    "groups_of gi' = (groups_of gi)[nat i := v]"
  using assms(1)
proof (cases rule: gi_wf_cases)
  case (small b)
  then have i: "nat i < 32" "nat i < nat (ngroups gi)" using assms by auto
  let ?gi = "gi\<lparr>blocks := [b[nat i := v]]\<rparr>"
  have "set_GROUP_AT gi i v = Some ?gi"
    using small i assms by (simp add: set_GROUP_AT_def nat_index)
  moreover have "gi_wf ?gi" using assms(1) small by (auto simp: gi_wf_def)
  moreover have "groups_of ?gi = (groups_of gi)[nat i := v]" using small by (simp add: groups_of_def take_update_swap)
  moreover have "same_shape gi ?gi" by (auto simp: same_shape_def)
  ultimately show ?thesis using that by blast
next
  case pages
  then have i: "nat i < nat (ngroups gi)" "nat i < length (blocks gi) * 1024" using assms by auto
  then have b: "nat i div 1024 < length (blocks gi)" by (simp add: less_mult_imp_div_less)
  let ?bs = "(blocks gi)[nat i div 1024 := (blocks gi ! (nat i div 1024))[nat i mod 1024 := v]]"
  let ?gi = "gi\<lparr>blocks := ?bs\<rparr>"
  have "set_GROUP_AT gi i v = Some ?gi" using pages b assms by (simp add: set_GROUP_AT_def nat_index Let_def)
  moreover have "gi_wf ?gi"
    using assms(1) pages b by (auto simp: gi_wf_def dest!: subsetD [OF set_update_subset_insert])
  moreover have "groups_of ?gi = (groups_of gi)[nat i := v]"
    using pages i by (simp add: groups_of_def update_concat_blocks take_update_swap)
  moreover have "same_shape gi ?gi" by (auto simp: same_shape_def)
  ultimately show ?thesis using that by blast
qed


subsection \<open>The sort\<close>

text \<open>
  The Shell sort moves \<open>tmp\<close> down by exchanges: with \<open>tmp\<close> written at \<open>right\<close>, a round of \<open>sort_shift\<close> exchanges
  two entries. The pass with stride 1 is an insertion sort, and the strides are 1, 4, 13, 40, and so on,
  so that the last pass has stride 1.
\<close>

definition ascending :: "nat \<Rightarrow> u32 list \<Rightarrow> bool" where
  "ascending n xs \<longleftrightarrow> (\<forall>i j. i < j \<and> j < n \<longrightarrow> xs ! i \<le> xs ! j)"

definition ascending_but :: "nat \<Rightarrow> nat \<Rightarrow> u32 list \<Rightarrow> bool" where
  "ascending_but r n xs \<longleftrightarrow> (\<forall>i j. i < j \<and> j < n \<and> j \<noteq> r \<longrightarrow> xs ! i \<le> xs ! j)"

lemma ascending_sorted: "ascending (length xs) xs \<Longrightarrow> sorted xs"
  by (simp add: ascending_def sorted_iff_nth_mono_less)

lemma ascending_but_here:
  assumes "ascending_but r n xs" "r = 0 \<or> xs ! (r - 1) \<le> xs ! r"
  shows "ascending n xs"
proof -
  have "xs ! i \<le> xs ! j" if "i < j" "j < n" for i j
  proof (cases "j = r")
    case True
    then have "xs ! (r - 1) \<le> xs ! r" using assms(2) that by simp
    moreover have "xs ! i \<le> xs ! (r - 1)"
      using assms(1) that True unfolding ascending_but_def
      by (cases "i = r - 1") (simp, metis Suc_pred' less_Suc_eq less_trans linorder_not_less gr0I nat_less_le not_less_eq)
    ultimately show ?thesis using True by simp
  qed (use assms(1) that in \<open>simp add: ascending_but_def\<close>)
  then show ?thesis by (simp add: ascending_def)
qed

lemma ascending_but_swap:
  assumes "ascending_but (Suc l) n xs" "xs ! Suc l < xs ! l" "Suc l < length xs" "n \<le> length xs"
  shows "ascending_but l n (xs[Suc l := xs ! l, l := xs ! Suc l])"
  unfolding ascending_but_def
proof (intro allI impI)
  fix i j
  assume *: "i < j \<and> j < n \<and> j \<noteq> l"
  have le: "i < j \<Longrightarrow> j < n \<Longrightarrow> j \<noteq> Suc l \<Longrightarrow> xs ! i \<le> xs ! j" for i j
    using assms(1) by (simp add: ascending_but_def)
  show "xs[Suc l := xs ! l, l := xs ! Suc l] ! i \<le> xs[Suc l := xs ! l, l := xs ! Suc l] ! j"
  proof (cases "j = Suc l")
    case True
    then have "i = l \<or> i < l" using * by auto
    then show ?thesis using True * assms le [of i l] by (auto simp: nth_list_update)
  next
    case False
    then show ?thesis using * assms le [of i j] le [of l j] le [of "Suc l" j]
      by (auto simp: nth_list_update)
  qed
qed

lemma sort_shift_spec:
  assumes "gi_wf gi" "0 < stride" "left = right - stride" "0 \<le> right" "right < ngroups gi"
  shows "\<exists>gi' r. sort_shift gi stride tmp left right = Some (gi', r) \<and> gi_wf gi' \<and> same_shape gi gi' \<and>
           0 \<le> r \<and> r < ngroups gi \<and>
           mset ((groups_of gi')[nat r := tmp]) = mset ((groups_of gi)[nat right := tmp]) \<and>
           (\<forall>n \<le> nat (ngroups gi). stride = 1 \<and> ascending_but (nat right) n ((groups_of gi)[nat right := tmp]) \<longrightarrow>
              ascending n ((groups_of gi')[nat r := tmp]))"
  using assms
proof (induction "nat right" arbitrary: gi left right rule: less_induct)
  case less
  let ?xs = "groups_of gi"
  have len: "length ?xs = nat (ngroups gi)" "nat right < length ?xs" using less.prems by (auto simp: length_groups_of)
  show ?case
  proof (cases "0 \<le> left \<and> tmp < ?xs ! nat left")
    case True
    have l: "0 \<le> left" "left < ngroups gi" "nat left < nat right" using True less.prems by auto
    note at = GROUP_AT_flat [OF less.prems(1) l(1,2)]
    obtain gi1 where gi1: "set_GROUP_AT gi right (?xs ! nat left) = Some gi1" "gi_wf gi1" "same_shape gi gi1"
      "groups_of gi1 = ?xs[nat right := ?xs ! nat left]"
      using set_GROUP_AT_flat [OF less.prems(1,4,5)] by metis
    let ?ys = "?xs[nat right := tmp]"
    have ys: "(groups_of gi1)[nat left := tmp] = ?ys[nat right := ?ys ! nat left, nat left := ?ys ! nat right]"
      using len l nat_neq_iff [of "nat left" "nat right"] by (simp add: gi1(4) nth_list_update)
    have run: "sort_shift gi stride tmp left right = sort_shift gi1 stride tmp (left - stride) left"
      using True by (simp add: sort_shift.simps [of gi] at gi1(1))
    obtain gi' r where r: "sort_shift gi1 stride tmp (left - stride) left = Some (gi', r)" "gi_wf gi'"
      "same_shape gi1 gi'" "0 \<le> r" "r < ngroups gi"
      "mset ((groups_of gi')[nat r := tmp]) = mset ((groups_of gi1)[nat left := tmp])"
      "\<forall>n \<le> nat (ngroups gi). stride = 1 \<and> ascending_but (nat left) n ((groups_of gi1)[nat left := tmp]) \<longrightarrow>
         ascending n ((groups_of gi')[nat r := tmp])"
      using less.hyps [OF l(3) gi1(2) less.prems(2) refl l(1)] l(2) same_shape_ngroups [OF gi1(3)] by auto
    have "mset ((groups_of gi1)[nat left := tmp]) = mset ?ys"
      unfolding ys using len l by (intro mset_swap) auto
    moreover have "ascending_but (nat left) n ((groups_of gi1)[nat left := tmp])"
      if "stride = 1" "n \<le> nat (ngroups gi)" "ascending_but (nat right) n ?ys" for n
    proof -
      have "nat right = Suc (nat left)" using that(1) less.prems(3) l(1) by simp
      then show ?thesis using ascending_but_swap [of "nat left" n ?ys] that len True by (simp add: ys)
    qed
    ultimately show ?thesis using r run same_shape_trans [OF gi1(3) r(3)] by auto
  next
    case False
    have "GROUP_AT gi left = Some (?xs ! nat left)" if "0 \<le> left"
      using GROUP_AT_flat [OF less.prems(1) that] less.prems by simp
    then have run: "sort_shift gi stride tmp left right = Some (gi, right)"
      using False by (auto simp: sort_shift.simps [of gi])
    have "ascending n (?xs[nat right := tmp])"
      if "stride = 1" "ascending_but (nat right) n (?xs[nat right := tmp])" for n
    proof (rule ascending_but_here [OF that(2)])
      have "nat right = 0 \<or> nat left = nat right - 1 \<and> 0 \<le> left" using that(1) less.prems by auto
      then show "nat right = 0 \<or> ?xs[nat right := tmp] ! (nat right - 1) \<le> ?xs[nat right := tmp] ! nat right"
        using False len by (auto simp: not_less nth_list_update split: if_splits)
    qed
    then show ?thesis using run less.prems by auto
  qed
qed

lemma sort_pass_spec:
  assumes "gi_wf gi" "0 < stride" "0 \<le> base"
  shows "\<exists>gi'. sort_pass gi stride base (ngroups gi - stride) = Some gi' \<and> gi_wf gi' \<and> same_shape gi gi' \<and>
           mset (groups_of gi') = mset (groups_of gi) \<and>
           (stride = 1 \<and> base < ngroups gi \<and> ascending (nat base + 1) (groups_of gi) \<longrightarrow> sorted (groups_of gi'))"
  using assms
proof (induction "nat (ngroups gi - base)" arbitrary: gi base rule: less_induct)
  case less
  let ?xs = "groups_of gi" and ?right = "base + stride"
  show ?case
  proof (cases "?right < ngroups gi")
    case True
    let ?tmp = "?xs ! nat ?right"
    have len: "length ?xs = nat (ngroups gi)" "nat ?right < length ?xs" using True less.prems by (auto simp: length_groups_of)
    have r0: "0 \<le> ?right" using less.prems by simp
    note at = GROUP_AT_flat [OF less.prems(1) r0 True]
    obtain gi1 r where 1: "sort_shift gi stride ?tmp base ?right = Some (gi1, r)" "gi_wf gi1" "same_shape gi gi1"
      "0 \<le> r" "r < ngroups gi1" "mset ((groups_of gi1)[nat r := ?tmp]) = mset ?xs"
      "\<forall>n \<le> nat (ngroups gi). stride = 1 \<and> ascending_but (nat ?right) n ?xs \<longrightarrow> ascending n ((groups_of gi1)[nat r := ?tmp])"
      using sort_shift_spec [OF less.prems(1,2) _ r0 True, of base ?tmp] by (auto simp: same_shape_ngroups)
    obtain gi2 where 2: "set_GROUP_AT gi1 r ?tmp = Some gi2" "gi_wf gi2" "same_shape gi1 gi2"
      "groups_of gi2 = (groups_of gi1)[nat r := ?tmp]" using set_GROUP_AT_flat [OF 1(2,4,5)] by metis
    have n2: "ngroups gi2 = ngroups gi" using same_shape_ngroups [OF 1(3)] same_shape_ngroups [OF 2(3)] by simp
    have run: "sort_pass gi stride base (ngroups gi - stride) = sort_pass gi2 stride (base + 1) (ngroups gi - stride)"
      using True by (simp add: sort_pass.simps [of gi] at 1(1) 2(1))
    have asc: "ascending (nat (base + 1) + 1) (groups_of gi2)"
      if "stride = 1" "ascending (nat base + 1) ?xs"
    proof -
      have "nat (base + 1) + 1 \<le> nat (ngroups gi)" using True that(1) less.prems by auto
      moreover have "ascending_but (nat ?right) (nat (base + 1) + 1) ?xs"
        using that less.prems by (auto simp: ascending_but_def ascending_def nat_add_distrib)
      ultimately show ?thesis using 1(7) that(1) by (auto simp: 2(4))
    qed
    have "nat (ngroups gi2 - (base + 1)) < nat (ngroups gi - base)" using True less.prems n2 by simp
    from less.hyps [OF this 2(2) less.prems(2)] less.prems(3) obtain gi' where
      3: "sort_pass gi2 stride (base + 1) (ngroups gi - stride) = Some gi'" "gi_wf gi'" "same_shape gi2 gi'"
      "mset (groups_of gi') = mset (groups_of gi2)"
      "stride = 1 \<and> base + 1 < ngroups gi \<and> ascending (nat (base + 1) + 1) (groups_of gi2) \<longrightarrow> sorted (groups_of gi')"
      unfolding n2 by auto
    have "same_shape gi gi'" using 1(3) 2(3) 3(3) same_shape_trans by blast
    then show ?thesis using 3 run asc True by (auto simp: 1(6) 2(4))
  next
    case False
    then have "sort_pass gi stride base (ngroups gi - stride) = Some gi" by (simp add: sort_pass.simps [of gi])
    moreover have "sorted ?xs" if "stride = 1" "base < ngroups gi" "ascending (nat base + 1) ?xs"
    proof -
      have "nat base + 1 = length ?xs" using that False less.prems by (simp add: length_groups_of)
      then show ?thesis using that ascending_sorted by metis
    qed
    ultimately show ?thesis using less.prems by auto
  qed
qed

text \<open>The strides.\<close>

inductive shell_stride :: "int \<Rightarrow> bool" where
  "shell_stride 0"
| "shell_stride s \<Longrightarrow> shell_stride (3 * s + 1)"

inductive_cases shell_strideE: "shell_stride s"

lemma shell_stride_nonneg: "shell_stride s \<Longrightarrow> 0 \<le> s"
  by (induction rule: shell_stride.induct) auto

lemma first_stride_spec:
  assumes "shell_stride s" "0 < s"
  shows "\<exists>s'. first_stride s n = Some s' \<and> shell_stride s' \<and> 0 < s' \<and> n \<le> s'"
  using assms
proof (induction "nat (n - s)" arbitrary: s rule: less_induct)
  case less
  show ?case
  proof (cases "s < n")
    case True
    then have "nat (n - (3 * s + 1)) < nat (n - s)" using less.prems by simp
    then show ?thesis using less True shell_stride.intros(2) by (simp add: first_stride.simps [of s])
  qed (use less in \<open>simp add: first_stride.simps [of s]\<close>)
qed

lemma sort_strides_spec:
  assumes "shell_stride s" "gi_wf gi"
  shows "\<exists>gi'. sort_strides gi s (ngroups gi) = Some gi' \<and> gi_wf gi' \<and> same_shape gi gi' \<and>
           mset (groups_of gi') = mset (groups_of gi) \<and> (0 < s \<and> 0 < ngroups gi \<longrightarrow> sorted (groups_of gi'))"
  using assms
proof (induction s arbitrary: gi rule: shell_stride.induct)
  case 1
  then show ?case by (simp add: sort_strides.simps)
next
  case (2 s)
  then have s: "0 \<le> s" by (simp add: shell_stride_nonneg)
  obtain gi1 where 1: "sort_pass gi (3 * s + 1) 0 (ngroups gi - (3 * s + 1)) = Some gi1" "gi_wf gi1" "same_shape gi gi1"
    "mset (groups_of gi1) = mset (groups_of gi)"
    "3 * s + 1 = 1 \<and> 0 < ngroups gi \<and> ascending (nat 0 + 1) (groups_of gi) \<longrightarrow> sorted (groups_of gi1)"
    using sort_pass_spec [OF 2(3), of "3 * s + 1" 0] s by auto
  have n1: "ngroups gi1 = ngroups gi" using 1(3) same_shape_ngroups by blast
  from 2(2) [OF 1(2)] obtain gi' where 2: "sort_strides gi1 s (ngroups gi) = Some gi'" "gi_wf gi'" "same_shape gi1 gi'"
    "mset (groups_of gi') = mset (groups_of gi1)" "0 < s \<and> 0 < ngroups gi \<longrightarrow> sorted (groups_of gi')"
    unfolding n1 by auto
  have "(3 * s + 1) div 3 = s" by simp
  then have run: "sort_strides gi (3 * s + 1) (ngroups gi) = Some gi'"
    using s by (simp add: sort_strides.simps [of gi] 1(1) 2(1))
  have "sorted (groups_of gi')" if "0 < ngroups gi"
  proof (cases "s = 0")
    case True
    then have "gi' = gi1" using 2(1) by (simp add: sort_strides.simps)
    then show ?thesis using 1(5) True that by (simp add: ascending_def)
  qed (use 2(5) that s in auto)
  then show ?case using run 2 1(4) same_shape_trans [OF 1(3) 2(3)] by auto
qed

lemma groups_sort_spec:
  assumes "gi_wf gi"
  shows "\<exists>gi'. groups_sort gi = Some gi' \<and> gi_wf gi' \<and> same_shape gi gi' \<and> groups_of gi' = sort (groups_of gi)"
proof -
  have "shell_stride 1" using shell_stride.intros(2) [OF shell_stride.intros(1)] by simp
  then obtain s where s: "first_stride 1 (ngroups gi) = Some s" "shell_stride s" "0 < s" "ngroups gi \<le> s"
    using first_stride_spec by fastforce
  from s(2) s(3) obtain s' where s': "s = 3 * s' + 1" "shell_stride s'" by (cases rule: shell_stride.cases) auto
  obtain gi' where gi': "sort_strides gi s' (ngroups gi) = Some gi'" "gi_wf gi'" "same_shape gi gi'"
    "mset (groups_of gi') = mset (groups_of gi)" "0 < s' \<and> 0 < ngroups gi \<longrightarrow> sorted (groups_of gi')"
    using sort_strides_spec [OF s'(2) assms] by auto
  have "sorted (groups_of gi')"
  proof (cases "0 < s' \<and> 0 < ngroups gi")
    case False
    then have "ngroups gi \<le> 1" using s' s(4) shell_stride_nonneg [OF s'(2)] by auto
    then have "length (groups_of gi') \<le> 1" using gi'(2) same_shape_ngroups [OF gi'(3)] by (simp add: length_groups_of)
    then show ?thesis by (cases "groups_of gi'") auto
  qed (use gi'(5) in blast)
  then have "groups_of gi' = sort (groups_of gi)" using gi'(4) by (metis properties_for_sort)
  moreover have "s div 3 = s'" using s'(1) by simp
  ultimately show ?thesis using gi' s(1) by (auto simp: groups_sort_def)
qed


subsection \<open>The search\<close>

lemma unat_mid:
  fixes l r :: u32
  assumes "unat l \<le> 2 ^ 30" "unat r \<le> 2 ^ 30"
  shows "unat ((l + r) div 2) = (unat l + unat r) div 2"
proof -
  have "unat (l + r) = unat l + unat r" using assms by (intro unat_add_lem [THEN iffD1]) simp
  then show ?thesis by (simp add: unat_div)
qed

lemma groups_search_loop_spec:
  assumes "gi_wf gi" "sorted (groups_of gi)" "unat r \<le> nat (ngroups gi)"
  shows "groups_search_loop gi grp l r = Some (\<exists>i. unat l \<le> i \<and> i < unat r \<and> groups_of gi ! i = grp)"
  using assms(3)
proof (induction "unat r - unat l" arbitrary: l r rule: less_induct)
  case less
  let ?xs = "groups_of gi" and ?mid = "(l + r) div 2"
  have len: "length ?xs = nat (ngroups gi)" using assms(1) by (rule length_groups_of)
  have small: "unat r \<le> 65536" "ngroups gi \<le> 65536" "0 \<le> ngroups gi"
    using less.prems assms(1) by (auto simp: gi_wf_def ngroups_consts)
  show ?case
  proof (cases "l < r")
    case True
    then have lr: "unat l < unat r" by (simp add: word_less_nat_alt)
    then have mid: "unat ?mid = (unat l + unat r) div 2" using small by (intro unat_mid) auto
    then have m: "unat l \<le> unat ?mid" "unat ?mid < unat r" using lr by auto
    then have "unat (?mid + 1) = unat ?mid + unat (1 :: u32)"
      using small by (intro unat_add_lem [THEN iffD1]) simp
    then have m1: "unat (?mid + 1) = Suc (unat ?mid)" by simp
    have "unat ?mid < nat (ngroups gi)" using m(2) less.prems by linarith
    then have "uint ?mid < ngroups gi" unfolding uint_nat by linarith
    then have at: "GROUP_AT gi (uint ?mid) = Some (?xs ! unat ?mid)"
      using GROUP_AT_flat [OF assms(1) uint_ge_0] by (simp add: nat_uint_eq)
    have mono: "i \<le> j \<Longrightarrow> j < unat r \<Longrightarrow> ?xs ! i \<le> ?xs ! j" for i j
      using assms(2) less.prems len by (intro sorted_nth_mono) auto
    consider "?xs ! unat ?mid < grp" | "grp < ?xs ! unat ?mid" | "?xs ! unat ?mid = grp" by (rule linorder_cases)
    then show ?thesis
    proof cases
      case 1
      have above: "unat ?mid < i" if "i < unat r" "?xs ! i = grp" for i
        using mono [of i "unat ?mid"] that m(2) 1 by (cases "i \<le> unat ?mid") auto
      have "(unat l \<le> i \<and> i < unat r \<and> ?xs ! i = grp) \<longleftrightarrow> (Suc (unat ?mid) \<le> i \<and> i < unat r \<and> ?xs ! i = grp)" for i
        by (cases "i < unat r \<and> ?xs ! i = grp") (use above [of i] m(1) in auto)
      moreover have "groups_search_loop gi grp (?mid + 1) r = Some (\<exists>i. Suc (unat ?mid) \<le> i \<and> i < unat r \<and> ?xs ! i = grp)"
        using less.hyps [of r "?mid + 1"] m m1 lr less.prems by auto
      ultimately show ?thesis using True 1 by (simp add: groups_search_loop.simps [of gi grp l r] at Let_def)
    next
      case 2
      have below: "i < unat ?mid" if "i < unat r" "?xs ! i = grp" for i
        using mono [of "unat ?mid" i] that 2 by (cases "unat ?mid \<le> i") auto
      have "(\<exists>i. unat l \<le> i \<and> i < unat r \<and> ?xs ! i = grp) \<longleftrightarrow> (\<exists>i. unat l \<le> i \<and> i < unat ?mid \<and> ?xs ! i = grp)"
        using below m(2) by (auto intro: less_trans)
      moreover have "groups_search_loop gi grp l ?mid = Some (\<exists>i. unat l \<le> i \<and> i < unat ?mid \<and> ?xs ! i = grp)"
        using less.hyps [of ?mid l] m less.prems by auto
      ultimately show ?thesis using True 2 less_not_sym [OF 2] by (simp add: groups_search_loop.simps [of gi grp l r] at Let_def)
    next
      case 3
      then show ?thesis using True m by (auto simp: groups_search_loop.simps [of gi grp l] at Let_def)
    qed
  qed (auto simp: groups_search_loop.simps [of gi grp l] word_less_nat_alt)
qed

lemma groups_search_spec:
  assumes "gi_wf gi" "sorted (groups_of gi)"
  shows "groups_search (Some gi) grp = Some (grp \<in> set (groups_of gi))"
proof -
  have "0 \<le> ngroups gi" "ngroups gi < 2 ^ 32" using assms(1) by (auto simp: gi_wf_def ngroups_consts)
  then have n: "unat (word_of_int (ngroups gi) :: u32) = nat (ngroups gi)"
    by (simp add: unat_eq_nat_uint uint_word_of_int)
  have "groups_search_loop gi grp 0 (word_of_int (ngroups gi)) =
      Some (\<exists>i. unat (0 :: u32) \<le> i \<and> i < unat (word_of_int (ngroups gi) :: u32) \<and> groups_of gi ! i = grp)"
    using assms by (rule groups_search_loop_spec) (simp add: n)
  then show ?thesis unfolding n using length_groups_of [OF assms(1)] by (simp add: groups_search_def in_set_conv_nth conj_commute)
qed

subsection \<open>Allocation and release\<close>

lemma undo_partial_alloc_eq: "undo_partial_alloc n l = l\<lparr>pages := pages l - int n\<rparr>"
  by (induction n l rule: undo_partial_alloc.induct) (simp_all add: free_page_def)

lemma free_page_power: "(free_page ^^ n) l = l\<lparr>pages := pages l - int n\<rparr>"
  by (induction n) (simp_all add: free_page_def)

lemma alloc_blocks_spec:
  assumes "alloc_blocks page (length bs) n bs l = (r, l')" "\<And>i b. page i = Some b \<Longrightarrow> length b = 1024"
    "\<forall>b \<in> set bs. length b = 1024"
  shows "case r of
           None \<Rightarrow> l' = l\<lparr>pages := pages l - int (length bs)\<rparr>
         | Some bs' \<Rightarrow> length bs' = length bs + n \<and> (\<forall>b \<in> set bs'. length b = 1024) \<and> l' = l\<lparr>pages := pages l + int n\<rparr>"
  using assms
proof (induction n arbitrary: bs l)
  case (Suc n)
  show ?case
  proof (cases "page (length bs)")
    case (Some b)
    then have "alloc_blocks page (length (bs @ [b])) n (bs @ [b]) (l\<lparr>pages := pages l + 1\<rparr>) = (r, l')"
      using Suc.prems by simp
    note * = Suc.IH [OF this Suc.prems(2)]
    have "\<forall>c \<in> set (bs @ [b]). length c = 1024" using Suc.prems Some by auto
    from * [OF _ this] show ?thesis by (auto split: option.splits)
  qed (use Suc.prems in \<open>auto simp: undo_partial_alloc_eq\<close>)
qed auto

lemma groups_alloc_spec:
  assumes "groups_alloc kmalloc page n l = (r, l')" "0 \<le> n" "n \<le> NGROUPS_MAX"
    "\<And>b. kmalloc = Some b \<Longrightarrow> length b = 32" "\<And>i b. page i = Some b \<Longrightarrow> length b = 1024"
  shows "case r of
           None \<Rightarrow> l' = l
         | Some gi \<Rightarrow> gi_wf gi \<and> ngroups gi = n \<and> gi_usage gi = 1 \<and> groups_free gi l' = l"
proof (cases kmalloc)
  case (Some sb)
  define q where "q = (n + NGROUPS_PER_BLOCK - 1) div NGROUPS_PER_BLOCK"
  show ?thesis
  proof (cases "n \<le> NGROUPS_SMALL")
    case True
    then have q: "q = (if n = 0 then 0 else 1)" using assms(2) by (auto simp: q_def ngroups_consts)
    with True have "r = Some \<lparr>gi_usage = 1, ngroups = n, nblocks = 1, is_small = True, blocks = [sb]\<rparr>"
      "l' = l\<lparr>objects := objects l + 1\<rparr>"
      using assms(1) Some by (auto simp: groups_alloc_def q_def [symmetric] Let_def split: if_splits)
    then show ?thesis using assms True q Some by (auto simp: gi_wf_def groups_free_def q_def)
  next
    case False
    then have q: "q \<noteq> 0" "1 \<le> q" by (auto simp: q_def ngroups_consts)
    obtain r1 l1 where al: "alloc_blocks page 0 (nat q) [] (l\<lparr>objects := objects l + 1\<rparr>) = (r1, l1)" by fastforce
    note spec = alloc_blocks_spec [of page "[]", simplified, OF al assms(5)]
    have res: "(r, l') = (case r1 of
        Some bs \<Rightarrow> (Some \<lparr>gi_usage = 1, ngroups = n, nblocks = q, is_small = False, blocks = bs\<rparr>, l1)
      | None \<Rightarrow> (None, l1\<lparr>objects := objects l1 - 1\<rparr>))"
      using assms(1) Some False q al by (simp add: groups_alloc_def q_def [symmetric] Let_def split: option.splits)
    show ?thesis
    proof (cases r1)
      case (Some bs)
      then show ?thesis using assms(2,3) res q spec
        by (simp add: gi_wf_def groups_free_def free_page_power q_def [symmetric])
    qed (use res spec in simp)
  qed
qed (use assms in \<open>auto simp: groups_alloc_def\<close>)

subsection \<open>Copies\<close>

lemma copy_from_user_length: "copy_from_user um a n = Some vs \<Longrightarrow> length vs = n"
  by (induction um a n arbitrary: vs rule: copy_from_user.induct) (auto split: option.splits)

lemma copy_from_user_add:
  "copy_from_user um a (m + n) =
     Option.bind (copy_from_user um a m) (\<lambda>vs. map_option ((@) vs) (copy_from_user um (a + int m) n))"
proof (induction m arbitrary: a)
  case 0
  then show ?case by (cases "copy_from_user um a n") auto
next
  case (Suc m)
  show ?case using Suc [of "a + 1"] by (auto split: option.splits simp: add.assoc map_option_case bind_split)
qed

lemma groups_from_user_loop_spec:
  assumes "\<forall>b \<in> set bs. length b = 1024" "0 \<le> n" "n \<le> int (length bs) * 1024"
  shows "case copy_from_user um a (nat n) of
           None \<Rightarrow> groups_from_user_loop um a n bs = None
         | Some vs \<Rightarrow> \<exists>bs'. groups_from_user_loop um a n bs = Some bs' \<and> length bs' = length bs \<and>
             (\<forall>b \<in> set bs'. length b = 1024) \<and> take (nat n) (concat bs') = vs"
  using assms
proof (induction bs arbitrary: a n)
  case (Cons b bs)
  let ?c = "min 1024 n"
  have split: "nat n = nat ?c + nat (n - ?c)" using Cons.prems by (subst nat_add_distrib [symmetric]) auto
  have pre: "0 \<le> n - ?c" "n - ?c \<le> int (length bs) * 1024" using Cons.prems by (auto simp: min_def)
  have far: "copy_from_user um (a + int (nat ?c)) (nat (n - ?c)) = copy_from_user um (a + 1024) (nat (n - ?c))"
    using Cons.prems by (cases "n < 1024") (simp_all add: min_def)
  note IH = Cons.IH [of "n - ?c" "a + 1024", OF _ pre]
  show ?case
  proof (cases "copy_from_user um a (nat ?c)")
    case None
    then have "copy_from_user um a (nat n) = None" by (subst split) (simp add: copy_from_user_add)
    with None show ?thesis by (simp add: NGROUPS_PER_BLOCK_def)
  next
    case (Some vs)
    note head = this
    have lv: "length vs = nat ?c" using head by (rule copy_from_user_length)
    show ?thesis
    proof (cases "copy_from_user um (a + 1024) (nat (n - ?c))")
      case None
      then have "copy_from_user um a (nat n) = None" using far head by (subst split) (simp add: copy_from_user_add)
      with None head IH Cons.prems show ?thesis by (simp add: NGROUPS_PER_BLOCK_def)
    next
      case (Some ws)
      then have all: "copy_from_user um a (nat n) = Some (vs @ ws)"
        using far head by (subst split) (simp add: copy_from_user_add)
      from Some IH Cons.prems obtain bs' where bs': "groups_from_user_loop um (a + 1024) (n - ?c) bs = Some bs'"
        "length bs' = length bs" "\<forall>b \<in> set bs'. length b = 1024" "take (nat (n - ?c)) (concat bs') = ws" by auto
      have "take (nat n) ((vs @ drop (nat ?c) b) @ concat bs') = vs @ ws"
      proof (cases "n \<le> 1024")
        case True
        then have "ws = []" using bs'(4) by simp
        then show ?thesis using True lv by simp
      next
        case False
        then have "drop (nat ?c) b = []" using Cons.prems by simp
        then show ?thesis using False lv bs'(4) by (simp add: nat_diff_distrib)
      qed
      then show ?thesis using head bs' all lv Cons.prems by (auto simp: NGROUPS_PER_BLOCK_def)
    qed
  qed
qed simp

lemma groups_from_user_spec:
  assumes "gi_wf gi"
  shows "case copy_from_user um a (nat (ngroups gi)) of
           None \<Rightarrow> groups_from_user um gi a = (Some EFAULT, gi)
         | Some vs \<Rightarrow> \<exists>gi'. groups_from_user um gi a = (None, gi') \<and> gi_wf gi' \<and> same_shape gi gi' \<and> groups_of gi' = vs"
  using assms
proof (cases rule: gi_wf_cases)
  case (small b)
  have n: "nat (nblocks gi) = 1" using assms small by (auto simp: gi_wf_def)
  have m: "min NGROUPS_PER_BLOCK (ngroups gi) = ngroups gi" using small by (simp add: NGROUPS_PER_BLOCK_def)
  show ?thesis
  proof (cases "copy_from_user um a (nat (ngroups gi))")
    case (Some vs)
    then have "length vs = nat (ngroups gi)" by (rule copy_from_user_length)
    with Some small assms m n show ?thesis
      by (auto simp: groups_from_user_def gi_wf_def groups_of_def same_shape_def)
  qed (use small m n in \<open>simp add: groups_from_user_def\<close>)
next
  case pages
  have n: "take (nat (nblocks gi)) (blocks gi) = blocks gi" using assms by (auto simp: gi_wf_def)
  have "ngroups gi \<le> int (length (blocks gi)) * 1024" using pages by linarith
  note spec = groups_from_user_loop_spec [OF pages(2,4) this, of um a]
  show ?thesis
  proof (cases "copy_from_user um a (nat (ngroups gi))")
    case (Some vs)
    with spec obtain bs' where bs': "groups_from_user_loop um a (ngroups gi) (blocks gi) = Some bs'"
      "length bs' = length (blocks gi)" "\<forall>b \<in> set bs'. length b = 1024" "take (nat (ngroups gi)) (concat bs') = vs" by auto
    have "gi_wf (gi\<lparr>blocks := bs'\<rparr>)" using assms pages bs' by (simp add: gi_wf_def)
    then show ?thesis using Some bs' n by (simp add: groups_from_user_def groups_of_def same_shape_def) blast
  qed (use spec n in \<open>simp add: groups_from_user_def\<close>)
qed


text \<open>User memory with the words \<open>vs\<close> written from address \<open>a\<close> on.\<close>

definition put_words :: "user_mem \<Rightarrow> int \<Rightarrow> u32 list \<Rightarrow> user_mem" where
  "put_words um a vs = (\<lambda>x. if a \<le> x \<and> x < a + int (length vs) then Some (vs ! nat (x - a)) else um x)"

lemma put_words_Nil [simp]: "put_words um a [] = um"
  by (rule ext) (auto simp: put_words_def)

lemma put_words_append: "put_words (put_words um a vs) (a + int (length vs)) ws = put_words um a (vs @ ws)"
proof
  fix x
  have "nat (x - (a + int (length vs))) = nat (x - a) - length vs" by (simp add: nat_diff_distrib' diff_diff_add [symmetric])
  then show "put_words (put_words um a vs) (a + int (length vs)) ws x = put_words um a (vs @ ws) x"
    by (auto simp: put_words_def nth_append)
qed

lemma put_words_Cons: "put_words um a (v # vs) = put_words (um(a \<mapsto> v)) (a + 1) vs"
proof -
  have "put_words um a [v] = um(a \<mapsto> v)" by (auto simp: put_words_def fun_eq_iff)
  then show ?thesis using put_words_append [of um a "[v]" vs] by simp
qed

lemma copy_to_user_True: "copy_to_user um a vs = (True, um') \<Longrightarrow> um' = put_words um a vs"
  by (induction um a vs rule: copy_to_user.induct) (auto simp: put_words_Cons split: option.splits)

lemma copy_back: "copy_from_user (put_words um a vs) a (length vs) = Some vs"
proof (induction vs arbitrary: um a)
  case (Cons v vs)
  have "put_words um a (v # vs) a = Some v" by (simp add: put_words_def)
  then show ?case using Cons by (simp add: put_words_Cons)
qed simp

lemma groups_to_user_loop_spec:
  assumes "\<forall>b \<in> set bs. length b = 1024" "0 \<le> n" "n \<le> int (length bs) * 1024"
    "groups_to_user_loop um a n bs = (None, um')"
  shows "um' = put_words um a (take (nat n) (concat bs))"
  using assms
proof (induction bs arbitrary: a n um)
  case (Cons b bs)
  let ?c = "min 1024 n" and ?vs = "take (nat (min 1024 n)) b"
  obtain um1 where 1: "copy_to_user um a ?vs = (True, um1)"
    "groups_to_user_loop um1 (a + 1024) (n - ?c) bs = (None, um')"
    using Cons.prems(4) by (auto simp: NGROUPS_PER_BLOCK_def Let_def split: prod.splits bool.splits)
  have um1: "um1 = put_words um a ?vs" using 1(1) by (rule copy_to_user_True)
  have "um' = put_words um1 (a + 1024) (take (nat (n - ?c)) (concat bs))"
    using Cons.IH [OF _ _ _ 1(2)] Cons.prems by (auto simp: min_def)
  also have "\<dots> = put_words um a (take (nat n) (concat (b # bs)))"
  proof (cases "n \<le> 1024")
    case False
    then have "?vs = b" "nat n - 1024 = nat (n - 1024)" using Cons.prems by auto
    then show ?thesis using False Cons.prems put_words_append [of um a b] by (simp add: um1)
  qed (use Cons.prems um1 in simp)
  finally show ?case .
qed simp

lemma groups_to_user_spec:
  assumes "gi_wf gi" "groups_to_user um a gi = (None, um')"
  shows "um' = put_words um a (groups_of gi)"
  using assms(1)
proof (cases rule: gi_wf_cases)
  case (small b)
  have n: "nat (nblocks gi) = 1" using assms small by (auto simp: gi_wf_def)
  have m: "min NGROUPS_PER_BLOCK (ngroups gi) = ngroups gi" using small by (simp add: NGROUPS_PER_BLOCK_def)
  show ?thesis using assms(2) small m n
    by (auto simp: groups_to_user_def groups_of_def Let_def dest: copy_to_user_True split: prod.splits bool.splits)
next
  case pages
  have n: "take (nat (nblocks gi)) (blocks gi) = blocks gi" using assms by (auto simp: gi_wf_def)
  have "ngroups gi \<le> int (length (blocks gi)) * 1024" using pages by linarith
  from groups_to_user_loop_spec [OF pages(2,4) this] show ?thesis
    using assms(2) n by (simp add: groups_to_user_def groups_of_def)
qed


text \<open>C24. The two-level array implements a set of groups. The Shell sort of \<open>groups_sort\<close> returns without an access outside
  the blocks and leaves the sorted list of the same ids, for every list of up to \<open>NGROUPS_MAX\<close> ids in pages or
  in the embedded block; on it the binary search, whose unsigned arithmetic never wraps, returns whether a
  group was on the list. Number of blocks and usage count stay.\<close>

theorem group_array_refines_list:
  assumes "gi_wf gi"
  shows "\<exists>gi'. groups_sort gi = Some gi' \<and> gi_wf gi' \<and> gi' = gi\<lparr>blocks := blocks gi'\<rparr> \<and>
    groups_of gi' = sort (groups_of gi) \<and> (\<forall>grp. groups_search (Some gi') grp = Some (grp \<in> set (groups_of gi)))"
proof -
  obtain gi' where gi': "groups_sort gi = Some gi'" "gi_wf gi'" "same_shape gi gi'" "groups_of gi' = sort (groups_of gi)"
    using groups_sort_spec [OF assms] by blast
  have "sorted (groups_of gi')" using gi'(4) by simp
  then have "groups_search (Some gi') grp = Some (grp \<in> set (groups_of gi))" for grp
    using groups_search_spec [OF gi'(2)] gi'(4) by simp
  moreover have "gi' = gi\<lparr>blocks := blocks gi'\<rparr>" using gi'(3) by (auto simp: same_shape_def)
  ultimately show ?thesis using gi' by blast
qed

text \<open>Five ids in the embedded block.\<close>

definition five_groups :: group_info where
  "five_groups = \<lparr>gi_usage = 1, ngroups = 5, nblocks = 1, is_small = True, blocks = [[50, 20, 40, 10, 30] @ replicate 27 0]\<rparr>"

theorem group_array_refines_list_witness:
  "\<exists>gi'. groups_sort five_groups = Some gi' \<and> groups_of gi' = [10, 20, 30, 40, 50] \<and> groups_search (Some gi') 40 = Some True"
proof -
  have wf: "gi_wf five_groups" by (simp add: gi_wf_def five_groups_def ngroups_consts)
  have "groups_of five_groups = [50, 20, 40, 10, 30]" by (simp add: groups_of_def five_groups_def)
  then show ?thesis using group_array_refines_list [OF wf] by auto
qed

end
