(* ===== verification/Cred.thy ===== *)
theory Cred
  imports Supp_Groups "HOL-Library.Monad_Syntax"
begin

text \<open>
  Task credentials (\<open>kernel/cred.c\<close>, \<open>struct cred\<close> of \<open>include/linux/cred.h\<close>, \<open>kernel/user_namespace.c\<close>): the
  copy-on-write protocol of \<open>prepare_creds\<close>, \<open>commit_creds\<close> and \<open>abort_creds\<close>, temporary overrides, inheritance on
  fork, release on exit, and the reference counts of credentials and of their group lists.

  Credentials and group lists live in stores indexed by address. An operation is a partial function on
  the state: \<open>None\<close> is a \<open>BUG_ON\<close> that fires, a \<open>panic\<close>, or an access to an object that was freed, so that a
  theorem that an operation returns says that none of these happens. Freeing after an RCU grace period is
  modelled as freeing at once; keyrings (\<open>CONFIG_KEYS\<close>) and the debugging fields (\<open>CONFIG_DEBUG_CREDENTIALS\<close>)
  are not configured in.
\<close>

subsection \<open>Data\<close>

text \<open>
  A user namespace is created by a user, and a user belongs to a namespace; the number is the identity of
  the namespace object. \<open>struct user_struct\<close> is determined by its namespace and uid (\<open>alloc_uid\<close> looks it up by
  them); its process count is kept in the state.
\<close>

datatype user_namespace = init_user_ns | child_user_ns nat (ns_creator: user_struct)
  and user_struct = user_struct (user_ns: user_namespace) (user_uid: u32)

definition INIT_USER :: user_struct where "INIT_USER = user_struct init_user_ns 0"

text \<open>A capability set: bit \<open>n\<close> is bit \<open>n mod 32\<close> of word \<open>n div 32\<close> of \<open>kernel_cap_t\<close>.\<close>

type_synonym kernel_cap_t = u64

record cred =
  cr_usage :: int
  uid :: u32
  gid :: u32
  suid :: u32
  sgid :: u32
  euid :: u32
  egid :: u32
  fsuid :: u32
  fsgid :: u32
  securebits :: u32
  cap_inheritable :: kernel_cap_t
  cap_permitted :: kernel_cap_t
  cap_effective :: kernel_cap_t
  cap_bset :: kernel_cap_t
  cr_user :: user_struct
  cr_group_info :: nat

text \<open>\<open>t_dumpable\<close> is \<open>None\<close> for a task without \<open>mm\<close>; both credential pointers are \<open>None\<close> after the exit.\<close>

record task =
  t_real_cred :: "nat option"
  t_cred :: "nat option"
  t_dumpable :: "u32 option"
  t_pdeath_signal :: u32
  t_flags :: u32

record cred_state =
  tasks :: "task list"
  creds :: "cred option list"
  infos :: "group_info option list"
  processes :: "user_struct \<Rightarrow> int"
  live :: live_mem
  next_ns :: nat

definition cred_at :: "cred_state \<Rightarrow> nat \<Rightarrow> cred option" where
  "cred_at s c = (if c < length (creds s) then creds s ! c else None)"

definition set_cred :: "nat \<Rightarrow> cred option \<Rightarrow> cred_state \<Rightarrow> cred_state" where
  "set_cred c cr s = s\<lparr>creds := (creds s)[c := cr]\<rparr>"

definition gi_at :: "cred_state \<Rightarrow> nat \<Rightarrow> group_info option" where
  "gi_at s g = (if g < length (infos s) then infos s ! g else None)"

definition set_gi :: "nat \<Rightarrow> group_info option \<Rightarrow> cred_state \<Rightarrow> cred_state" where
  "set_gi g gi s = s\<lparr>infos := (infos s)[g := gi]\<rparr>"

definition set_task :: "nat \<Rightarrow> task \<Rightarrow> cred_state \<Rightarrow> cred_state" where
  "set_task t ts s = s\<lparr>tasks := (tasks s)[t := ts]\<rparr>"

definition task_at :: "cred_state \<Rightarrow> nat \<Rightarrow> task option" where
  "task_at s t = (if t < length (tasks s) then Some (tasks s ! t) else None)"

text \<open>\<open>BUG_ON\<close> stops the machine.\<close>

definition BUG_ON :: "bool \<Rightarrow> unit option" where
  "BUG_ON b = (if b then None else Some ())"

subsection \<open>Reference counts\<close>

text \<open>The address of \<open>init_groups\<close> and of \<open>init_cred\<close> in their stores is 0.\<close>

definition init_groups :: group_info where
  "init_groups = \<lparr>gi_usage = 2, ngroups = 0, nblocks = 1, is_small = True, blocks = [replicate 32 0]\<rparr>"

definition init_cred :: cred where
  "init_cred = \<lparr>cr_usage = 4, uid = 0, gid = 0, suid = 0, sgid = 0, euid = 0, egid = 0, fsuid = 0, fsgid = 0,
     securebits = 0, cap_inheritable = 0, cap_permitted = -1, cap_effective = -1, cap_bset = -1,
     cr_user = INIT_USER, cr_group_info = 0\<rparr>"

definition get_group_info :: "nat \<Rightarrow> cred_state \<Rightarrow> cred_state option" where
  "get_group_info g s = do {
     gi \<leftarrow> gi_at s g;
     Some (set_gi g (Some (gi\<lparr>gi_usage := gi_usage gi + 1\<rparr>)) s)
   }"

definition put_group_info :: "nat \<Rightarrow> cred_state \<Rightarrow> cred_state option" where
  "put_group_info g s = do {
     gi \<leftarrow> gi_at s g;
     if gi_usage gi - 1 = 0
     then Some ((set_gi g None s)\<lparr>live := groups_free gi (live s)\<rparr>)
     else Some (set_gi g (Some (gi\<lparr>gi_usage := gi_usage gi - 1\<rparr>)) s)
   }"

definition get_cred :: "nat \<Rightarrow> cred_state \<Rightarrow> cred_state option" where
  "get_cred c s = do {
     cr \<leftarrow> cred_at s c;
     Some (set_cred c (Some (cr\<lparr>cr_usage := cr_usage cr + 1\<rparr>)) s)
   }"

definition put_cred_rcu :: "nat \<Rightarrow> cred_state \<Rightarrow> cred_state option" where
  "put_cred_rcu c s = do {
     cr \<leftarrow> cred_at s c;
     _ \<leftarrow> BUG_ON (cr_usage cr \<noteq> 0);
     s \<leftarrow> put_group_info (cr_group_info cr) s;
     Some (set_cred c None s)
   }"

text \<open>\<open>__put_cred\<close>; \<open>cur\<close> is the current task.\<close>

definition destroy_cred :: "nat \<Rightarrow> nat \<Rightarrow> cred_state \<Rightarrow> cred_state option" where
  "destroy_cred cur c s = do {
     cr \<leftarrow> cred_at s c;
     _ \<leftarrow> BUG_ON (cr_usage cr \<noteq> 0);
     ts \<leftarrow> task_at s cur;
     _ \<leftarrow> BUG_ON (t_cred ts = Some c);
     _ \<leftarrow> BUG_ON (t_real_cred ts = Some c);
     put_cred_rcu c s
   }"

definition put_cred :: "nat \<Rightarrow> nat \<Rightarrow> cred_state \<Rightarrow> cred_state option" where
  "put_cred cur c s = do {
     cr \<leftarrow> cred_at s c;
     let s = set_cred c (Some (cr\<lparr>cr_usage := cr_usage cr - 1\<rparr>)) s;
     if cr_usage cr - 1 = 0 then destroy_cred cur c s else Some s
   }"

subsection \<open>Preparing, committing and aborting\<close>

definition abort_creds :: "nat \<Rightarrow> nat \<Rightarrow> cred_state \<Rightarrow> cred_state option" where
  "abort_creds cur new s = do {
     cr \<leftarrow> cred_at s new;
     _ \<leftarrow> BUG_ON (cr_usage cr < 1);
     put_cred cur new s
   }"

text \<open>\<open>alloc\<close> is whether the slab allocation succeeds, \<open>lsm\<close> whether \<open>security_prepare_creds\<close> does.\<close>

definition prepare_creds :: "bool \<Rightarrow> bool \<Rightarrow> nat \<Rightarrow> cred_state \<Rightarrow> (nat option \<times> cred_state) option" where
  "prepare_creds alloc lsm cur s =
     (if \<not> alloc then Some (None, s)
      else do {
        ts \<leftarrow> task_at s cur;
        c \<leftarrow> t_cred ts;
        old \<leftarrow> cred_at s c;
        let new = length (creds s);
        let s = s\<lparr>creds := creds s @ [Some (old\<lparr>cr_usage := 1\<rparr>)]\<rparr>;
        s \<leftarrow> get_group_info (cr_group_info old) s;
        if \<not> lsm then do { s \<leftarrow> abort_creds cur new s; Some (None, s) }
        else Some (Some new, s)
      })"

text \<open>A capability set is a subset of another (\<open>cap_issubset\<close>: dropping the second leaves nothing).\<close>

definition cap_issubset :: "kernel_cap_t \<Rightarrow> kernel_cap_t \<Rightarrow> bool" where
  "cap_issubset a b \<longleftrightarrow> a AND NOT b = 0"

definition suid_dumpable_change :: "cred \<Rightarrow> cred \<Rightarrow> bool" where
  "suid_dumpable_change old new \<longleftrightarrow>
     euid old \<noteq> euid new \<or> egid old \<noteq> egid new \<or> fsuid old \<noteq> fsuid new \<or> fsgid old \<noteq> fsgid new \<or>
     \<not> cap_issubset (cap_permitted new) (cap_permitted old)"

definition commit_creds :: "u32 \<Rightarrow> nat \<Rightarrow> nat \<Rightarrow> cred_state \<Rightarrow> cred_state option" where
  "commit_creds suid_dumpable cur new s = do {
     ts \<leftarrow> task_at s cur;
     old \<leftarrow> t_real_cred ts;
     _ \<leftarrow> BUG_ON (t_cred ts \<noteq> Some old);
     ncr \<leftarrow> cred_at s new;
     _ \<leftarrow> BUG_ON (cr_usage ncr < 1);
     s \<leftarrow> get_cred new s;
     ocr \<leftarrow> cred_at s old;
     let ts = (if suid_dumpable_change ocr ncr
               then ts\<lparr>t_dumpable := map_option (\<lambda>_. suid_dumpable) (t_dumpable ts), t_pdeath_signal := 0\<rparr>
               else ts);
     let procs = (if cr_user ncr \<noteq> cr_user ocr
                  then (processes s)(cr_user ncr := processes s (cr_user ncr) + 1) else processes s);
     let s = set_task cur (ts\<lparr>t_real_cred := Some new, t_cred := Some new\<rparr>) s;
     let procs = (if cr_user ncr \<noteq> cr_user ocr
                  then procs(cr_user ocr := procs (cr_user ocr) - 1) else procs);
     let s = s\<lparr>processes := procs\<rparr>;
     s \<leftarrow> put_cred cur old s;
     put_cred cur old s
   }"

subsection \<open>Overriding\<close>

definition override_creds :: "nat \<Rightarrow> nat \<Rightarrow> cred_state \<Rightarrow> (nat \<times> cred_state) option" where
  "override_creds cur new s = do {
     ts \<leftarrow> task_at s cur;
     old \<leftarrow> t_cred ts;
     s \<leftarrow> get_cred new s;
     Some (old, set_task cur (ts\<lparr>t_cred := Some new\<rparr>) s)
   }"

definition revert_creds :: "nat \<Rightarrow> nat \<Rightarrow> cred_state \<Rightarrow> cred_state option" where
  "revert_creds cur old s = do {
     ts \<leftarrow> task_at s cur;
     override \<leftarrow> t_cred ts;
     put_cred cur override (set_task cur (ts\<lparr>t_cred := Some old\<rparr>) s)
   }"

subsection \<open>Fork and exit\<close>

text \<open>
  \<open>create_user_ns\<close>: \<open>alloc_ns\<close> and \<open>alloc_user\<close> are whether the namespace and its root user can be allocated.
\<close>

definition create_user_ns :: "bool \<Rightarrow> bool \<Rightarrow> nat \<Rightarrow> cred_state \<Rightarrow> (errno option \<times> cred_state) option" where
  "create_user_ns alloc_ns alloc_user new s =
     (if \<not> alloc_ns \<or> \<not> alloc_user then Some (Some ENOMEM, s)
      else do {
        cr \<leftarrow> cred_at s new;
        let ns = child_user_ns (next_ns s) (cr_user cr);
        let ncr = cr\<lparr>cr_user := user_struct ns 0, uid := 0, euid := 0, suid := 0, fsuid := 0,
                     gid := 0, egid := 0, sgid := 0, fsgid := 0\<rparr>;
        s \<leftarrow> put_group_info (cr_group_info cr) s;
        s \<leftarrow> get_group_info 0 s;
        Some (None, (set_cred new (Some (ncr\<lparr>cr_group_info := 0\<rparr>)) s)\<lparr>next_ns := next_ns s + 1\<rparr>)
      })"

record clone_env =
  CLONE_THREAD :: bool
  CLONE_NEWUSER :: bool
  cred_alloc_ok :: bool
  cred_lsm_ok :: bool
  ns_alloc_ok :: bool
  user_alloc_ok :: bool

definition charge_process :: "user_struct \<Rightarrow> cred_state \<Rightarrow> cred_state" where
  "charge_process u s = s\<lparr>processes := (processes s)(u := processes s u + 1)\<rparr>"

definition uncharge_process :: "user_struct \<Rightarrow> cred_state \<Rightarrow> cred_state" where
  "uncharge_process u s = s\<lparr>processes := (processes s)(u := processes s u - 1)\<rparr>"

text \<open>
  \<open>copy_creds\<close> on the copy \<open>p\<close> that \<open>dup_task_struct\<close> made of the current task; a successful fork adds the new
  task at the end of the task list.
\<close>

definition copy_creds :: "clone_env \<Rightarrow> nat \<Rightarrow> cred_state \<Rightarrow> (errno option \<times> cred_state) option" where
  "copy_creds env cur s = do {
     p \<leftarrow> task_at s cur;
     pc \<leftarrow> t_cred p;
     if CLONE_THREAD env then do {
       s \<leftarrow> get_cred pc s;
       s \<leftarrow> get_cred pc s;
       cr \<leftarrow> cred_at s pc;
       let s = charge_process (cr_user cr) s;
       Some (None, s\<lparr>tasks := tasks s @ [p\<lparr>t_real_cred := Some pc\<rparr>]\<rparr>)
     } else do {
       (new, s) \<leftarrow> prepare_creds (cred_alloc_ok env) (cred_lsm_ok env) cur s;
       case new of
         None \<Rightarrow> Some (Some ENOMEM, s)
       | Some new \<Rightarrow> do {
           (ret, s) \<leftarrow> (if CLONE_NEWUSER env then create_user_ns (ns_alloc_ok env) (user_alloc_ok env) new s
                        else Some (None, s));
           case ret of
             Some e \<Rightarrow> do { s \<leftarrow> put_cred cur new s; Some (Some e, s) }
           | None \<Rightarrow> do {
               cr \<leftarrow> cred_at s new;
               let s = charge_process (cr_user cr) s;
               s \<leftarrow> get_cred new s;
               Some (None, s\<lparr>tasks := tasks s @ [p\<lparr>t_cred := Some new, t_real_cred := Some new\<rparr>]\<rparr>)
             }
         }
     }
   }"

text \<open>The process count is dropped by \<open>release_task\<close>, the credentials when the task structure goes away.\<close>

definition release_task :: "nat \<Rightarrow> cred_state \<Rightarrow> cred_state option" where
  "release_task t s = do {
     ts \<leftarrow> task_at s t;
     c \<leftarrow> t_real_cred ts;
     cr \<leftarrow> cred_at s c;
     Some (uncharge_process (cr_user cr) s)
   }"

definition exit_creds :: "nat \<Rightarrow> nat \<Rightarrow> cred_state \<Rightarrow> cred_state option" where
  "exit_creds cur t s = do {
     ts \<leftarrow> task_at s t;
     c \<leftarrow> t_real_cred ts;
     let s = set_task t (ts\<lparr>t_real_cred := None\<rparr>) s;
     s \<leftarrow> put_cred cur c s;
     ts \<leftarrow> task_at s t;
     c \<leftarrow> t_cred ts;
     let s = set_task t (ts\<lparr>t_cred := None\<rparr>) s;
     put_cred cur c s
   }"

subsection \<open>Group lists of credentials\<close>

definition set_groups :: "nat \<Rightarrow> nat \<Rightarrow> cred_state \<Rightarrow> cred_state option" where
  "set_groups new g s = do {
     cr \<leftarrow> cred_at s new;
     s \<leftarrow> put_group_info (cr_group_info cr) s;
     gi \<leftarrow> gi_at s g;
     gi \<leftarrow> groups_sort gi;
     let s = set_gi g (Some gi) s;
     s \<leftarrow> get_group_info g s;
     Some (set_cred new (Some (cr\<lparr>cr_group_info := g\<rparr>)) s)
   }"


subsection \<open>References\<close>

text \<open>
  The references that tasks hold on a credential set and that credential sets hold on a group list
  (\<open>init_groups\<close> has one more reference so that it is never freed), and the user a task is charged to.
\<close>

definition cred_refs :: "cred_state \<Rightarrow> nat \<Rightarrow> nat" where
  "cred_refs s c = count_if (\<lambda>t. t_cred t = Some c) (tasks s) + count_if (\<lambda>t. t_real_cred t = Some c) (tasks s)"

definition gi_refs :: "cred_state \<Rightarrow> nat \<Rightarrow> nat" where
  "gi_refs s g = count_if (\<lambda>cr. map_option cr_group_info cr = Some g) (creds s) + of_bool (g = 0)"

definition real_user :: "cred_state \<Rightarrow> task \<Rightarrow> user_struct option" where
  "real_user s t = Option.bind (t_real_cred t) (\<lambda>c. map_option cr_user (cred_at s c))"

text \<open>
  The invariant, with what is in flight: \<open>H\<close> the references to credentials that kernel paths hold in local
  variables, \<open>G\<close> the same for group lists, \<open>P\<close> the users of tasks that were released but still have their
  credentials.
\<close>

definition counted :: "('a \<Rightarrow> int) \<Rightarrow> 'a option \<Rightarrow> nat \<Rightarrow> bool" where
  "counted usage obj n =
     (case obj of None \<Rightarrow> n = 0 | Some x \<Rightarrow> usage x = int n \<and> 0 < n)"

definition creds_counted :: "cred_state \<Rightarrow> nat multiset \<Rightarrow> bool" where
  "creds_counted s H \<longleftrightarrow> (\<forall>c. counted cr_usage (cred_at s c) (cred_refs s c + count H c))"

definition infos_counted :: "cred_state \<Rightarrow> nat multiset \<Rightarrow> bool" where
  "infos_counted s G \<longleftrightarrow> (\<forall>g. counted gi_usage (gi_at s g) (gi_refs s g + count G g))"

definition groups_ok :: "cred_state \<Rightarrow> bool" where
  "groups_ok s \<longleftrightarrow>
     (\<forall>g gi. gi_at s g = Some gi \<longrightarrow> gi_wf gi) \<and>
     (\<forall>gi. gi_at s 0 = Some gi \<longrightarrow> sorted (groups_of gi)) \<and>
     (\<forall>c cr gi. cred_at s c = Some cr \<longrightarrow> gi_at s (cr_group_info cr) = Some gi \<longrightarrow> sorted (groups_of gi))"

definition procs_counted :: "cred_state \<Rightarrow> user_struct multiset \<Rightarrow> bool" where
  "procs_counted s P \<longleftrightarrow>
     (\<forall>u. processes s u + int (count P u) = int (count_if (\<lambda>t. real_user s t = Some u) (tasks s)))"

definition cred_inv :: "cred_state \<Rightarrow> nat multiset \<Rightarrow> nat multiset \<Rightarrow> user_struct multiset \<Rightarrow> bool" where
  "cred_inv s H G P \<longleftrightarrow> creds_counted s H \<and> infos_counted s G \<and> groups_ok s \<and> procs_counted s P"

lemmas cred_inv_defs = cred_inv_def creds_counted_def infos_counted_def groups_ok_def procs_counted_def

subsection \<open>Stores\<close>

lemma cred_at_length: "cred_at s c = Some cr \<Longrightarrow> c < length (creds s)"
  by (simp add: cred_at_def split: if_splits)

lemma gi_at_length: "gi_at s g = Some gi \<Longrightarrow> g < length (infos s)"
  by (simp add: gi_at_def split: if_splits)

lemma cred_at_set_cred: "cred_at (set_cred c x s) d = (if d = c \<and> c < length (creds s) then x else cred_at s d)"
  by (auto simp: cred_at_def set_cred_def)

lemma gi_at_set_gi: "gi_at (set_gi g x s) h = (if h = g \<and> g < length (infos s) then x else gi_at s h)"
  by (auto simp: gi_at_def set_gi_def)

lemma set_cred_simps [simp]:
  "tasks (set_cred c x s) = tasks s" "infos (set_cred c x s) = infos s" "processes (set_cred c x s) = processes s"
  "gi_at (set_cred c x s) g = gi_at s g" "length (creds (set_cred c x s)) = length (creds s)"
  "task_at (set_cred c x s) t = task_at s t" "cred_refs (set_cred c x s) = cred_refs s"
  "live (set_cred c x s) = live s" "next_ns (set_cred c x s) = next_ns s"
  by (simp_all add: set_cred_def gi_at_def task_at_def cred_refs_def fun_eq_iff)

lemma set_gi_simps [simp]:
  "tasks (set_gi g x s) = tasks s" "creds (set_gi g x s) = creds s" "processes (set_gi g x s) = processes s"
  "cred_at (set_gi g x s) c = cred_at s c" "length (infos (set_gi g x s)) = length (infos s)"
  "task_at (set_gi g x s) t = task_at s t" "cred_refs (set_gi g x s) = cred_refs s" "gi_refs (set_gi g x s) = gi_refs s"
  "live (set_gi g x s) = live s" "next_ns (set_gi g x s) = next_ns s"
  by (simp_all add: set_gi_def cred_at_def task_at_def cred_refs_def gi_refs_def fun_eq_iff)

lemma set_task_simps [simp]:
  "creds (set_task t x s) = creds s" "infos (set_task t x s) = infos s" "processes (set_task t x s) = processes s"
  "cred_at (set_task t x s) c = cred_at s c" "gi_at (set_task t x s) g = gi_at s g"
  "gi_refs (set_task t x s) = gi_refs s"
  "live (set_task t x s) = live s" "next_ns (set_task t x s) = next_ns s"
  by (simp_all add: set_task_def cred_at_def gi_at_def gi_refs_def fun_eq_iff)

lemma real_user_simps [simp]:
  "real_user (set_gi g x s) = real_user s" "real_user (set_task t y s) = real_user s"
  by (simp_all add: real_user_def fun_eq_iff)

lemma set_gi_set_cred: "set_gi g y (set_cred c x s) = set_cred c x (set_gi g y s)"
  by (simp add: set_gi_def set_cred_def)

lemma task_at_Some [simp]: "task_at s t = Some ts \<longleftrightarrow> t < length (tasks s) \<and> ts = tasks s ! t"
  by (auto simp: task_at_def)

lemma BUG_ON_simps [simp]: "BUG_ON False = Some ()" "BUG_ON True = None"
  by (simp_all add: BUG_ON_def)

lemma set_cred_twice [simp]: "set_cred c x (set_cred c y s) = set_cred c x s"
  by (simp add: set_cred_def)

text \<open>Group list operations do not look at the credential store.\<close>

lemma put_group_info_set_cred: "put_group_info g (set_cred c x s) = map_option (set_cred c x) (put_group_info g s)"
  by (cases "gi_at s g") (simp_all add: put_group_info_def set_gi_set_cred, simp add: set_cred_def)

lemma get_group_info_set_cred: "get_group_info g (set_cred c x s) = map_option (set_cred c x) (get_group_info g s)"
  by (cases "gi_at s g") (simp_all add: get_group_info_def set_gi_set_cred)

text \<open>A change of one credential set, in the counts.\<close>

lemma gi_refs_set_cred:
  assumes "c < length (creds s)"
  shows "gi_refs (set_cred c x s) g + of_bool (map_option cr_group_info (cred_at s c) = Some g) =
         gi_refs s g + of_bool (map_option cr_group_info x = Some g)"
  using assms count_if_update [OF assms, of "\<lambda>cr. map_option cr_group_info cr = Some g" x]
  by (simp add: gi_refs_def set_cred_def cred_at_def)

lemma real_user_set_cred:
  assumes "map_option cr_user x = map_option cr_user (cred_at s c)"
  shows "real_user (set_cred c x s) = real_user s"
  using assms by (auto simp: real_user_def cred_at_set_cred fun_eq_iff bind_eq_Some_conv split: bind_split)

lemma cred_refs_pos:
  assumes "t < length (tasks s)" "t_cred (tasks s ! t) = Some c \<or> t_real_cred (tasks s ! t) = Some c"
  shows "0 < cred_refs s c"
  using assms count_if_pos [of t "tasks s" "\<lambda>t. t_cred t = Some c"] count_if_pos [of t "tasks s" "\<lambda>t. t_real_cred t = Some c"]
  by (auto simp: cred_refs_def)

lemma count_if_cong: "(\<And>x. x \<in> set xs \<Longrightarrow> P x = Q x) \<Longrightarrow> count_if P xs = count_if Q xs"
  by (auto simp: count_if_def cong: filter_cong)

text \<open>What the invariant says of an object that someone refers to.\<close>

lemma counted_pos: "counted usage obj n \<Longrightarrow> 0 < n \<Longrightarrow> \<exists>x. obj = Some x \<and> usage x = int n"
  by (auto simp: counted_def split: option.splits)

lemma cred_live:
  assumes "cred_inv s H G P" "0 < cred_refs s c + count H c"
  obtains cr where "cred_at s c = Some cr" "cr_usage cr = int (cred_refs s c + count H c)"
proof -
  have "counted cr_usage (cred_at s c) (cred_refs s c + count H c)"
    using assms(1) by (simp add: cred_inv_def creds_counted_def)
  from counted_pos [OF this assms(2)] that show thesis by blast
qed

lemma gi_live:
  assumes "cred_inv s H G P" "0 < gi_refs s g + count G g"
  obtains gi where "gi_at s g = Some gi" "gi_usage gi = int (gi_refs s g + count G g)" "gi_wf gi"
proof -
  have "counted gi_usage (gi_at s g) (gi_refs s g + count G g)" "\<And>gi. gi_at s g = Some gi \<Longrightarrow> gi_wf gi"
    using assms(1) by (auto simp: cred_inv_def infos_counted_def groups_ok_def)
  with counted_pos [OF this(1) assms(2)] that show thesis by blast
qed

lemma gi_refs_pos:
  assumes "cred_at s c = Some cr"
  shows "0 < gi_refs s (cr_group_info cr)"
proof -
  have "c < length (creds s)" "creds s ! c = Some cr" using assms by (auto simp: cred_at_def split: if_splits)
  then show ?thesis
    using count_if_pos [of c "creds s" "\<lambda>x. map_option cr_group_info x = Some (cr_group_info cr)"] by (simp add: gi_refs_def)
qed

subsection \<open>The primitive operations transfer references\<close>

lemma touch_cred_inv:
  assumes "cred_inv s H G P" "cred_at s c = Some cr" "cr_group_info cr' = cr_group_info cr" "cr_user cr' = cr_user cr"
    "\<And>d. d \<noteq> c \<Longrightarrow> count H' d = count H d" "counted cr_usage (Some cr') (cred_refs s c + count H' c)"
  shows "cred_inv (set_cred c (Some cr') s) H' G P"
proof -
  let ?s = "set_cred c (Some cr') s"
  have c: "c < length (creds s)" using assms(2) by (rule cred_at_length)
  have "gi_refs ?s = gi_refs s" using gi_refs_set_cred [OF c, of "Some cr'"] assms(2,3) by (auto simp: fun_eq_iff)
  moreover have "real_user ?s = real_user s" using assms(2,4) by (intro real_user_set_cred) simp
  moreover have "creds_counted ?s H'"
    unfolding creds_counted_def
  proof
    fix d
    have "counted cr_usage (cred_at s d) (cred_refs s d + count H d)"
      using assms(1) by (simp add: cred_inv_def creds_counted_def)
    then show "counted cr_usage (cred_at ?s d) (cred_refs ?s d + count H' d)"
      using assms(5,6) c by (auto simp: cred_at_set_cred)
  qed
  moreover have "groups_ok ?s"
    using assms(1-3) by (auto simp: cred_inv_def groups_ok_def cred_at_set_cred split: if_splits)
  ultimately show ?thesis using assms(1) by (simp add: cred_inv_def infos_counted_def procs_counted_def)
qed

lemma get_cred_inv:
  assumes "cred_inv s H G P" "cred_at s c = Some cr"
  shows "\<exists>s'. get_cred c s = Some s' \<and> cred_inv s' (add_mset c H) G P"
proof -
  have "counted cr_usage (cred_at s c) (cred_refs s c + count H c)"
    using assms(1) by (simp add: cred_inv_def creds_counted_def)
  then have "cred_inv (set_cred c (Some (cr\<lparr>cr_usage := cr_usage cr + 1\<rparr>)) s) (add_mset c H) G P"
    using assms by (intro touch_cred_inv [OF assms]) (auto simp: counted_def)
  then show ?thesis using assms(2) by (simp add: get_cred_def)
qed

text \<open>
  The group list operations only need the second half of the invariant, which reads the credential store
  through the pointers to group lists alone. \<open>set_cred c None\<close> takes such a pointer out.
\<close>

definition infos_inv :: "cred_state \<Rightarrow> nat multiset \<Rightarrow> bool" where
  "infos_inv s G \<longleftrightarrow> infos_counted s G \<and> groups_ok s"

definition same_but_infos :: "cred_state \<Rightarrow> cred_state \<Rightarrow> bool" where
  "same_but_infos s s' \<longleftrightarrow> tasks s' = tasks s \<and> creds s' = creds s \<and> processes s' = processes s \<and> next_ns s' = next_ns s"

lemma same_but_infos_refl [simp]: "same_but_infos s s"
  by (simp add: same_but_infos_def)

lemma same_but_infos_trans: "same_but_infos a b \<Longrightarrow> same_but_infos b c \<Longrightarrow> same_but_infos a c"
  by (simp add: same_but_infos_def)

lemma same_but_infosD:
  assumes "same_but_infos s s'"
  shows "tasks s' = tasks s" "creds s' = creds s" "cred_at s' = cred_at s" "cred_refs s' = cred_refs s"
    "real_user s' = real_user s"
proof -
  show *: "tasks s' = tasks s" "creds s' = creds s" using assms by (simp_all add: same_but_infos_def)
  then show "cred_at s' = cred_at s" by (simp add: cred_at_def fun_eq_iff)
  then show "real_user s' = real_user s" by (simp add: real_user_def fun_eq_iff)
  show "cred_refs s' = cred_refs s" using * by (simp add: cred_refs_def fun_eq_iff)
qed

lemma same_but_infos_counted:
  "same_but_infos s s' \<Longrightarrow> creds_counted s' H = creds_counted s H"
  "same_but_infos s s' \<Longrightarrow> procs_counted s' P = procs_counted s P"
  by (simp_all add: creds_counted_def procs_counted_def same_but_infosD) (simp add: same_but_infos_def)

lemma touch_gi_infos:
  assumes "infos_inv s G" "gi_at s g = Some gi" "\<And>h. h \<noteq> g \<Longrightarrow> count G' h = count G h"
    "counted gi_usage x (gi_refs s g + count G' g)"
    "\<And>gi'. x = Some gi' \<Longrightarrow> gi_wf gi' \<and> (sorted (groups_of gi) \<longrightarrow> sorted (groups_of gi'))"
  shows "infos_inv (set_gi g x s) G'"
proof -
  let ?s = "set_gi g x s"
  have g: "g < length (infos s)" using assms(2) by (rule gi_at_length)
  have "infos_counted ?s G'"
    unfolding infos_counted_def
  proof
    fix h
    have "counted gi_usage (gi_at s h) (gi_refs s h + count G h)"
      using assms(1) by (simp add: infos_inv_def infos_counted_def)
    then show "counted gi_usage (gi_at ?s h) (gi_refs ?s h + count G' h)"
      using assms(3,4) g by (auto simp: gi_at_set_gi)
  qed
  moreover have "groups_ok ?s"
    using assms(1,2,5) g by (auto simp: infos_inv_def groups_ok_def gi_at_set_gi split: if_splits)
  ultimately show ?thesis by (simp add: infos_inv_def)
qed

lemma groups_usage [simp]:
  "gi_wf (gi\<lparr>gi_usage := n\<rparr>) = gi_wf gi" "groups_of (gi\<lparr>gi_usage := n\<rparr>) = groups_of gi"
  by (simp_all add: gi_wf_def groups_of_def)

lemma infos_inv_at:
  assumes "infos_inv s G"
  shows "counted gi_usage (gi_at s g) (gi_refs s g + count G g)" "gi_at s g = Some gi \<Longrightarrow> gi_wf gi"
  using assms by (auto simp: infos_inv_def infos_counted_def groups_ok_def)

lemma set_gi_same_but_infos [simp]: "same_but_infos s (set_gi g x s)" "same_but_infos s ((set_gi g x s)\<lparr>live := l\<rparr>)"
  by (simp_all add: same_but_infos_def)

lemma get_group_info_infos:
  assumes "infos_inv s G" "gi_at s g = Some gi"
  shows "\<exists>s'. get_group_info g s = Some s' \<and> infos_inv s' (add_mset g G) \<and> same_but_infos s s'"
proof -
  have "infos_inv (set_gi g (Some (gi\<lparr>gi_usage := gi_usage gi + 1\<rparr>)) s) (add_mset g G)"
    using infos_inv_at [OF assms(1), of g] assms(2) by (intro touch_gi_infos [OF assms]) (auto simp: counted_def)
  then show ?thesis using assms(2) by (simp add: get_group_info_def)
qed

lemma live_infos [simp]: "infos_inv (s\<lparr>live := l\<rparr>) G = infos_inv s G"
  by (simp add: infos_inv_def infos_counted_def groups_ok_def gi_at_def gi_refs_def cred_at_def cong: if_cong)

lemma put_group_info_infos:
  assumes "infos_inv s (add_mset g G)"
  shows "\<exists>s'. put_group_info g s = Some s' \<and> infos_inv s' G \<and> same_but_infos s s'"
proof -
  note at = infos_inv_at [OF assms, of g]
  obtain gi where gi: "gi_at s g = Some gi" "gi_usage gi = int (gi_refs s g + count (add_mset g G) g)"
    using counted_pos [OF at(1)] by auto
  let ?x = "if gi_usage gi = 1 then None else Some (gi\<lparr>gi_usage := gi_usage gi - 1\<rparr>)"
  have "infos_inv (set_gi g ?x s) G"
    using gi at(2) by (intro touch_gi_infos [OF assms gi(1)]) (auto simp: counted_def not_in_iff split: if_splits)
  then show ?thesis using gi(1) by (auto simp: put_group_info_def)
qed

lemma take_gi_infos:
  assumes "infos_inv s G" "cred_at s c = Some cr"
  shows "infos_inv (set_cred c None s) (add_mset (cr_group_info cr) G)"
proof -
  let ?s = "set_cred c None s"
  have c: "c < length (creds s)" using assms(2) by (rule cred_at_length)
  have "gi_refs ?s g + count (add_mset (cr_group_info cr) G) g = gi_refs s g + count G g" for g
    using gi_refs_set_cred [OF c, of None g] assms(2) by auto
  then have "infos_counted ?s (add_mset (cr_group_info cr) G)"
    using assms(1) unfolding infos_inv_def infos_counted_def set_cred_simps by metis
  moreover have "groups_ok ?s" using assms(1) by (auto simp: infos_inv_def groups_ok_def cred_at_set_cred split: if_splits)
  ultimately show ?thesis by (simp add: infos_inv_def)
qed

lemma give_gi_infos:
  assumes "infos_inv (set_cred c None s) (add_mset (cr_group_info cr) G)" "c < length (creds s)"
    "\<And>gi. gi_at s (cr_group_info cr) = Some gi \<Longrightarrow> sorted (groups_of gi)"
  shows "infos_inv (set_cred c (Some cr) s) G"
proof -
  let ?s = "set_cred c (Some cr) s" and ?n = "set_cred c None s"
  have "gi_refs ?s g = gi_refs ?n g + of_bool (g = cr_group_info cr)" for g
    using gi_refs_set_cred [of c ?n "Some cr" g] assms(2) by (auto simp: cred_at_set_cred)
  then have "gi_refs ?s g + count G g = gi_refs ?n g + count (add_mset (cr_group_info cr) G) g" for g by auto
  then have "infos_counted ?s G"
    using assms(1) unfolding infos_inv_def infos_counted_def set_cred_simps by metis
  moreover have "groups_ok ?s"
    using assms(1,3) by (auto simp: infos_inv_def groups_ok_def cred_at_set_cred split: if_splits)
  ultimately show ?thesis by (simp add: infos_inv_def)
qed

lemma cred_inv_split: "cred_inv s H G P \<longleftrightarrow> creds_counted s H \<and> procs_counted s P \<and> infos_inv s G"
  by (auto simp: cred_inv_def infos_inv_def)

lemma cred_inv_infos:
  "cred_inv s H G P \<Longrightarrow> same_but_infos s s' \<Longrightarrow> infos_inv s' G' \<Longrightarrow> cred_inv s' H G' P"
  by (simp add: cred_inv_split same_but_infos_counted)

lemma get_group_info_inv:
  assumes "cred_inv s H G P" "gi_at s g = Some gi"
  shows "\<exists>s'. get_group_info g s = Some s' \<and> cred_inv s' H (add_mset g G) P \<and> same_but_infos s s'"
  using get_group_info_infos [of s G g gi] assms cred_inv_infos [OF assms(1)] by (auto simp: cred_inv_split)

lemma put_group_info_inv:
  assumes "cred_inv s H (add_mset g G) P"
  shows "\<exists>s'. put_group_info g s = Some s' \<and> cred_inv s' H G P \<and> same_but_infos s s'"
  using put_group_info_infos [of s g G] assms cred_inv_infos [OF assms] by (auto simp: cred_inv_split)

text \<open>A credential set leaves the store with its last reference, and hands back the one on its group list.\<close>

lemma drop_cred_inv:
  assumes "cred_inv s (add_mset c H) G P" "cred_at s c = Some cr" "cr_usage cr = 1"
  shows "cred_inv (set_cred c None s) H (add_mset (cr_group_info cr) G) P"
proof -
  let ?s = "set_cred c None s"
  have c: "c < length (creds s)" using assms(2) by (rule cred_at_length)
  have "cr_usage cr = int (cred_refs s c + count (add_mset c H) c)"
    using assms(1) by (rule cred_live [of _ _ _ _ c]) (use assms(2) in simp_all)
  then have none: "cred_refs s c = 0" "count H c = 0" using assms(3) by auto
  have "real_user ?s t = real_user s t" if "t \<in> set (tasks s)" for t
  proof -
    have "t_real_cred t \<noteq> Some c" using none(1) that by (force simp: cred_refs_def count_if_def filter_empty_conv)
    then show ?thesis by (auto simp: real_user_def cred_at_set_cred split: bind_split)
  qed
  then have "count_if (\<lambda>t. real_user ?s t = Some u) (tasks s) = count_if (\<lambda>t. real_user s t = Some u) (tasks s)" for u
    by (intro count_if_cong) auto
  then have "procs_counted ?s P" using assms(1) by (simp add: cred_inv_def procs_counted_def)
  moreover have "creds_counted ?s H"
    unfolding creds_counted_def
  proof
    fix d
    have "counted cr_usage (cred_at s d) (cred_refs s d + count (add_mset c H) d)"
      using assms(1) by (simp add: cred_inv_def creds_counted_def)
    then show "counted cr_usage (cred_at ?s d) (cred_refs ?s d + count H d)"
      using none c by (auto simp: cred_at_set_cred counted_def split: if_splits)
  qed
  moreover have "infos_inv ?s (add_mset (cr_group_info cr) G)"
    using take_gi_infos assms(1,2) by (simp add: cred_inv_split)
  ultimately show ?thesis by (simp add: cred_inv_split)
qed

lemma put_cred_inv:
  assumes "cred_inv s (add_mset c H) G P" "cur < length (tasks s)"
  shows "\<exists>s'. put_cred cur c s = Some s' \<and> cred_inv s' H G P"
proof -
  obtain cr where cr: "cred_at s c = Some cr" "cr_usage cr = int (cred_refs s c + count (add_mset c H) c)"
    using assms(1) by (rule cred_live [where c = c]) simp
  have c: "c < length (creds s)" using cr(1) by (rule cred_at_length)
  show ?thesis
  proof (cases "cr_usage cr = 1")
    case True
    then have none: "cred_refs s c = 0" using cr(2) by simp
    then have cur: "t_cred (tasks s ! cur) \<noteq> Some c" "t_real_cred (tasks s ! cur) \<noteq> Some c"
      using cred_refs_pos [OF assms(2), of c] by auto
    obtain s' where s': "put_group_info (cr_group_info cr) (set_cred c None s) = Some s'" "cred_inv s' H G P"
      using put_group_info_inv [OF drop_cred_inv [OF assms(1) cr(1) True]] by blast
    then have "map_option (set_cred c None) (put_group_info (cr_group_info cr) s) = Some s'"
      by (simp add: put_group_info_set_cred)
    then have "put_cred cur c s = Some s'"
      using cr(1) True c assms(2) cur
      by (auto simp: put_cred_def destroy_cred_def put_cred_rcu_def cred_at_set_cred put_group_info_set_cred task_at_def)
    then show ?thesis using s'(2) by blast
  next
    case False
    then have "cred_inv (set_cred c (Some (cr\<lparr>cr_usage := cr_usage cr - 1\<rparr>)) s) H G P"
      using cr(2) by (intro touch_cred_inv [OF assms(1) cr(1)]) (auto simp: counted_def not_in_iff)
    then show ?thesis using cr(1) False by (simp add: put_cred_def)
  qed
qed


subsection \<open>What the primitive operations leave alone\<close>

text \<open>
  Taking and dropping references changes usage counts and frees objects, nothing else: what is left has
  the contents it had.
\<close>

definition same_cred :: "cred \<Rightarrow> cred \<Rightarrow> bool" where
  "same_cred a b \<longleftrightarrow> a\<lparr>cr_usage := 0\<rparr> = b\<lparr>cr_usage := 0\<rparr>"

definition same_contents :: "cred_state \<Rightarrow> cred_state \<Rightarrow> bool" where
  "same_contents s s' \<longleftrightarrow>
     (\<forall>d cr'. cred_at s' d = Some cr' \<longrightarrow> (\<exists>cr. cred_at s d = Some cr \<and> same_cred cr cr')) \<and>
     (\<forall>g gi'. gi_at s' g = Some gi' \<longrightarrow> (\<exists>gi. gi_at s g = Some gi \<and> groups_of gi' = groups_of gi))"

definition keeps :: "cred_state \<Rightarrow> cred_state \<Rightarrow> bool" where
  "keeps s s' \<longleftrightarrow> tasks s' = tasks s \<and> length (creds s') = length (creds s) \<and> processes s' = processes s \<and>
     same_contents s s'"

lemma same_cred_refl [simp]: "same_cred a a" "same_cred a (a\<lparr>cr_usage := n\<rparr>)"
  by (simp_all add: same_cred_def)

lemma same_cred_sym: "same_cred a b \<Longrightarrow> same_cred b a"
  by (simp add: same_cred_def)

lemma same_cred_trans: "same_cred a b \<Longrightarrow> same_cred b c \<Longrightarrow> same_cred a c"
  by (simp add: same_cred_def)

lemma same_credD:
  assumes "same_cred a b"
  shows "uid b = uid a" "gid b = gid a" "suid b = suid a" "sgid b = sgid a" "euid b = euid a" "egid b = egid a"
    "fsuid b = fsuid a" "fsgid b = fsgid a" "securebits b = securebits a" "cap_inheritable b = cap_inheritable a"
    "cap_permitted b = cap_permitted a" "cap_effective b = cap_effective a" "cap_bset b = cap_bset a"
    "cr_user b = cr_user a" "cr_group_info b = cr_group_info a"
  using assms unfolding same_cred_def by (cases a; cases b; simp)+

lemma contents_cred:
  "same_contents s s' \<Longrightarrow> cred_at s' d = Some cr' \<Longrightarrow> \<exists>cr. cred_at s d = Some cr \<and> same_cred cr cr'"
  by (simp add: same_contents_def)

lemma contents_gi:
  "same_contents s s' \<Longrightarrow> gi_at s' g = Some gi' \<Longrightarrow> \<exists>gi. gi_at s g = Some gi \<and> groups_of gi' = groups_of gi"
  by (simp add: same_contents_def)

lemma same_contents_trans:
  assumes "same_contents a b" "same_contents b c"
  shows "same_contents a c"
proof -
  have "\<exists>cr. cred_at a d = Some cr \<and> same_cred cr cr'" if "cred_at c d = Some cr'" for d cr'
    using contents_cred [OF assms(2) that] contents_cred [OF assms(1)] same_cred_trans by blast
  moreover have "\<exists>gi. gi_at a g = Some gi \<and> groups_of gi' = groups_of gi" if "gi_at c g = Some gi'" for g gi'
    using contents_gi [OF assms(2) that] contents_gi [OF assms(1)] by force
  ultimately show ?thesis by (simp add: same_contents_def)
qed

lemma keeps_refl [simp]: "keeps s s"
  by (auto simp: keeps_def same_contents_def)

lemma keeps_trans: "keeps a b \<Longrightarrow> keeps b c \<Longrightarrow> keeps a c"
  using same_contents_trans by (auto simp: keeps_def)

lemma keeps_cred: "keeps s s' \<Longrightarrow> cred_at s' d = Some cr' \<Longrightarrow> \<exists>cr. cred_at s d = Some cr \<and> same_cred cr cr'"
  by (auto simp: keeps_def dest: contents_cred)

lemma keeps_gi: "keeps s s' \<Longrightarrow> gi_at s' g = Some gi' \<Longrightarrow> \<exists>gi. gi_at s g = Some gi \<and> groups_of gi' = groups_of gi"
  by (auto simp: keeps_def dest: contents_gi)

lemma keeps_tasks: "keeps s s' \<Longrightarrow> tasks s' = tasks s"
  by (simp add: keeps_def)

lemma keeps_set_cred:
  "cred_at s c = Some cr \<Longrightarrow> (\<And>cr'. x = Some cr' \<Longrightarrow> same_cred cr cr') \<Longrightarrow> keeps s (set_cred c x s)"
  by (auto simp: keeps_def same_contents_def cred_at_set_cred)

lemma keeps_set_gi:
  "gi_at s g = Some gi \<Longrightarrow> (\<And>gi'. x = Some gi' \<Longrightarrow> groups_of gi' = groups_of gi) \<Longrightarrow> keeps s (set_gi g x s)"
  by (auto simp: keeps_def same_contents_def gi_at_set_gi)

lemma keeps_live [simp]: "keeps s (s'\<lparr>live := l\<rparr>) = keeps s s'"
  by (simp add: keeps_def same_contents_def cred_at_def gi_at_def cong: if_cong)

lemma get_cred_keeps: "get_cred c s = Some s' \<Longrightarrow> keeps s s'"
  by (auto simp: get_cred_def bind_eq_Some_conv intro: keeps_set_cred)

lemma get_group_info_keeps: "get_group_info g s = Some s' \<Longrightarrow> keeps s s'"
  by (cases "gi_at s g") (auto simp: get_group_info_def intro!: keeps_set_gi)

lemma put_group_info_keeps: "put_group_info g s = Some s' \<Longrightarrow> keeps s s'"
  by (cases "gi_at s g") (auto simp: put_group_info_def intro!: keeps_set_gi split: if_splits)

lemma put_cred_keeps:
  assumes "put_cred cur c s = Some s'"
  shows "keeps s s'"
proof -
  obtain cr where cr: "cred_at s c = Some cr" using assms by (auto simp: put_cred_def bind_eq_Some_conv)
  let ?s = "set_cred c (Some (cr\<lparr>cr_usage := cr_usage cr - 1\<rparr>)) s"
  have 1: "keeps s ?s" using cr by (auto intro: keeps_set_cred)
  show ?thesis
  proof (cases "cr_usage cr - 1 = 0")
    case True
    then obtain s1 where s1: "put_group_info (cr_group_info cr) ?s = Some s1" "s' = set_cred c None s1"
      using assms cr
      by (auto simp: put_cred_def destroy_cred_def put_cred_rcu_def bind_eq_Some_conv cred_at_set_cred cred_at_length BUG_ON_def
          split: if_splits)
    have 2: "keeps ?s s1" using s1(1) by (rule put_group_info_keeps)
    have "keeps s1 s'" using s1(2) by (auto simp: keeps_def same_contents_def cred_at_set_cred)
    then show ?thesis using 1 2 keeps_trans by blast
  qed (use 1 assms cr in \<open>auto simp: put_cred_def\<close>)
qed

lemma put_cred_inv_keeps:
  assumes "cred_inv s (add_mset c H) G P" "cur < length (tasks s)"
  obtains s' where "put_cred cur c s = Some s'" "cred_inv s' H G P" "keeps s s'"
  using put_cred_inv [OF assms] put_cred_keeps by blast

subsection \<open>The credential operations keep the invariant\<close>

text \<open>The references of a pointer variable.\<close>

fun mo :: "'a option \<Rightarrow> 'a multiset" where
  "mo None = {#}" | "mo (Some x) = {#x#}"

lemma count_mo [simp]: "count (mo x) a = of_bool (x = Some a)"
  by (cases x) auto

definition task_refs :: "task \<Rightarrow> nat multiset" where
  "task_refs t = mo (t_cred t) + mo (t_real_cred t)"

lemma set_task_inv:
  assumes "cred_inv s H G P" "t < length (tasks s)"
    "H' + task_refs ts = H + task_refs (tasks s ! t)"
    "P' + mo (real_user s (tasks s ! t)) = P + mo (real_user s ts)"
  shows "cred_inv (set_task t ts s) H' G P'"
proof -
  let ?s = "set_task t ts s"
  have upd: "count_if Q (tasks ?s) + of_bool (Q (tasks s ! t)) = count_if Q (tasks s) + of_bool (Q ts)" for Q
    using count_if_update [OF assms(2)] by (simp add: set_task_def)
  have "cred_refs ?s c + count H' c = cred_refs s c + count H c" for c
  proof -
    have "count H' c + count (task_refs ts) c = count H c + count (task_refs (tasks s ! t)) c"
      using assms(3) by (metis count_union)
    then show ?thesis
      using upd [of "\<lambda>t. t_cred t = Some c"] upd [of "\<lambda>t. t_real_cred t = Some c"]
      by (simp add: cred_refs_def task_refs_def)
  qed
  then have "creds_counted ?s H'" using assms(1) by (simp add: cred_inv_def creds_counted_def)
  moreover have "procs_counted ?s P'"
    unfolding procs_counted_def
  proof
    fix u
    have "count P' u + count (mo (real_user s (tasks s ! t))) u = count P u + count (mo (real_user s ts)) u"
      using assms(4) by (metis count_union)
    moreover have "processes s u + int (count P u) = int (count_if (\<lambda>t. real_user s t = Some u) (tasks s))"
      using assms(1) by (simp add: cred_inv_def procs_counted_def)
    ultimately show "processes ?s u + int (count P' u) = int (count_if (\<lambda>t. real_user ?s t = Some u) (tasks ?s))"
      using upd [of "\<lambda>t. real_user s t = Some u"] by (simp split: if_splits)
  qed
  ultimately show ?thesis
    using assms(1) by (simp add: cred_inv_def infos_counted_def groups_ok_def)
qed

lemma add_task_inv:
  assumes "cred_inv s (H + task_refs ts) G P" "P' = P + mo (real_user s ts)"
  shows "cred_inv (s\<lparr>tasks := tasks s @ [ts]\<rparr>) H G P'"
proof -
  let ?s = "s\<lparr>tasks := tasks s @ [ts]\<rparr>"
  have same: "cred_at ?s = cred_at s" "gi_at ?s = gi_at s" "gi_refs ?s = gi_refs s"
    by (simp_all add: cred_at_def gi_at_def gi_refs_def fun_eq_iff)
  then have ru: "real_user ?s = real_user s" by (simp add: real_user_def fun_eq_iff)
  have "cred_refs ?s c + count H c = cred_refs s c + count (H + task_refs ts) c" for c
    by (simp add: cred_refs_def task_refs_def)
  then have "creds_counted ?s H" using assms(1) unfolding cred_inv_def creds_counted_def same by metis
  moreover have "procs_counted ?s P'"
    using assms by (simp add: cred_inv_def procs_counted_def ru)
  ultimately show ?thesis using assms(1) by (simp add: cred_inv_def infos_counted_def groups_ok_def same)
qed

lemma charge_process_inv:
  "cred_inv s H G (add_mset u P) \<Longrightarrow> cred_inv (charge_process u s) H G P"
  "cred_inv s H G P \<Longrightarrow> cred_inv (uncharge_process u s) H G (add_mset u P)"
proof -
  have same: "cred_at (s\<lparr>processes := f\<rparr>) = cred_at s" "gi_at (s\<lparr>processes := f\<rparr>) = gi_at s"
    "gi_refs (s\<lparr>processes := f\<rparr>) = gi_refs s" "cred_refs (s\<lparr>processes := f\<rparr>) = cred_refs s"
    "real_user (s\<lparr>processes := f\<rparr>) = real_user s" for f
    by (simp_all add: cred_at_def gi_at_def gi_refs_def cred_refs_def real_user_def fun_eq_iff cong: if_cong)
  show "cred_inv s H G (add_mset u P) \<Longrightarrow> cred_inv (charge_process u s) H G P"
    by (auto simp: cred_inv_defs charge_process_def same split: if_splits)
  show "cred_inv s H G P \<Longrightarrow> cred_inv (uncharge_process u s) H G (add_mset u P)"
    by (auto simp: cred_inv_defs uncharge_process_def same)
qed


lemma task_cred_live:
  assumes "cred_inv s H G P" "t < length (tasks s)"
    "t_cred (tasks s ! t) = Some c \<or> t_real_cred (tasks s ! t) = Some c"
  obtains cr where "cred_at s c = Some cr" "0 < cr_usage cr"
  using cred_live [OF assms(1), of c] cred_refs_pos [OF assms(2,3)] that by (metis add_gr_0 of_nat_0_less_iff)

lemma cred_group_live:
  assumes "cred_inv s H G P" "cred_at s c = Some cr"
  obtains gi where "gi_at s (cr_group_info cr) = Some gi" "gi_wf gi" "sorted (groups_of gi)"
proof -
  have "0 < gi_refs s (cr_group_info cr) + count G (cr_group_info cr)" using gi_refs_pos [OF assms(2)] by simp
  from gi_live [OF assms(1) this] obtain gi where "gi_at s (cr_group_info cr) = Some gi" "gi_wf gi" by blast
  then show ?thesis using that assms by (auto simp: cred_inv_def groups_ok_def)
qed

lemma cred_dead:
  assumes "cred_inv s H G P"
  shows "cred_at s c = None \<longleftrightarrow> cred_refs s c = 0 \<and> count H c = 0"
proof -
  have "counted cr_usage (cred_at s c) (cred_refs s c + count H c)"
    using assms by (simp add: cred_inv_def creds_counted_def)
  then show ?thesis by (auto simp: counted_def split: option.splits)
qed

lemma new_cred_inv:
  assumes inv: "cred_inv s H (add_mset (cr_group_info cr) G) P" and one: "cr_usage cr = 1"
    and sorted: "\<And>gi. gi_at s (cr_group_info cr) = Some gi \<Longrightarrow> sorted (groups_of gi)"
  shows "cred_inv (s\<lparr>creds := creds s @ [Some cr]\<rparr>) (add_mset (length (creds s)) H) G P"
proof -
  let ?s = "s\<lparr>creds := creds s @ [Some cr]\<rparr>" and ?n = "length (creds s)"
  have at: "cred_at ?s d = (if d = ?n then Some cr else cred_at s d)" for d by (simp add: cred_at_def nth_append)
  have refs: "cred_refs ?s = cred_refs s" and gi: "gi_at ?s = gi_at s" by (simp_all add: cred_refs_def gi_at_def fun_eq_iff)
  have "cred_at s ?n = None" by (simp add: cred_at_def)
  then have none: "cred_refs s ?n = 0" "count H ?n = 0" using cred_dead [OF inv] by auto
  have "creds_counted ?s (add_mset ?n H)"
    using inv none one by (auto simp: cred_inv_def creds_counted_def at refs counted_def not_in_iff)
  moreover have "real_user ?s t = real_user s t" if "t \<in> set (tasks s)" for t
  proof -
    have "t_real_cred t \<noteq> Some ?n" using none(1) that by (force simp: cred_refs_def count_if_def filter_empty_conv)
    then show ?thesis by (auto simp: real_user_def at split: bind_split)
  qed
  then have "procs_counted ?s P" using inv count_if_cong [of "tasks s" "\<lambda>t. real_user ?s t = Some _" "\<lambda>t. real_user s t = Some _"]
    by (simp add: cred_inv_def procs_counted_def)
  moreover have "gi_refs ?s g + count G g = gi_refs s g + count (add_mset (cr_group_info cr) G) g" for g
    by (simp add: gi_refs_def)
  then have "infos_counted ?s G" using inv unfolding cred_inv_def infos_counted_def gi by metis
  moreover have "groups_ok ?s" using inv sorted by (auto simp: cred_inv_def groups_ok_def at gi)
  ultimately show ?thesis by (simp add: cred_inv_def)
qed

lemma get_group_info_append:
  "get_group_info g (s\<lparr>creds := f (creds s)\<rparr>) = map_option (\<lambda>s. s\<lparr>creds := f (creds s)\<rparr>) (get_group_info g s)"
proof -
  have "gi_at (s\<lparr>creds := f (creds s)\<rparr>) g = gi_at s g" by (simp add: gi_at_def)
  then show ?thesis by (cases "gi_at s g") (simp_all add: get_group_info_def set_gi_def)
qed

text \<open>
  \<open>prepare_creds\<close> returns a copy of the current credentials that only the caller refers to, or leaves
  everything as it was.
\<close>

lemma prepare_creds_inv:
  assumes "cred_inv s H G P" "cur < length (tasks s)" "t_cred (tasks s ! cur) = Some c"
  shows "\<exists>r s'. prepare_creds alloc lsm cur s = Some (r, s') \<and> cred_inv s' (mo r + H) G P \<and>
     tasks s' = tasks s \<and> (r \<noteq> None \<longleftrightarrow> alloc \<and> lsm) \<and>
     (\<forall>d cr'. Some d \<noteq> r \<longrightarrow> cred_at s' d = Some cr' \<longrightarrow> (\<exists>cr. cred_at s d = Some cr \<and> same_cred cr cr')) \<and>
     (\<forall>g gi'. gi_at s' g = Some gi' \<longrightarrow> (\<exists>gi. gi_at s g = Some gi \<and> groups_of gi' = groups_of gi)) \<and>
     (\<forall>n. r = Some n \<longrightarrow> cred_at s n = None \<and>
        (\<exists>old. cred_at s c = Some old \<and> cred_at s' n = Some (old\<lparr>cr_usage := 1\<rparr>)))"
proof (cases alloc)
  case True
  obtain old where old: "cred_at s c = Some old" using task_cred_live [OF assms(1,2)] assms(3) by blast
  obtain gi where gi: "gi_at s (cr_group_info old) = Some gi" "sorted (groups_of gi)"
    using cred_group_live [OF assms(1) old] by blast
  obtain s1 where s1: "get_group_info (cr_group_info old) s = Some s1"
    "cred_inv s1 H (add_mset (cr_group_info old) G) P" "same_but_infos s s1"
    using get_group_info_inv [OF assms(1) gi(1)] by blast
  let ?n = "length (creds s)" and ?new = "old\<lparr>cr_usage := 1\<rparr>"
  let ?s2 = "s1\<lparr>creds := creds s1 @ [Some ?new]\<rparr>"
  have k1: "keeps s s1" using s1(1) by (rule get_group_info_keeps)
  have n: "length (creds s1) = ?n" using s1(3) by (simp add: same_but_infos_def)
  have "sorted (groups_of gi')" if "gi_at s1 (cr_group_info old) = Some gi'" for gi'
    using keeps_gi [OF k1 that] gi by auto
  then have inv2: "cred_inv ?s2 (add_mset ?n H) G P" using new_cred_inv [of s1 H ?new] s1(2) n by simp
  have step: "get_group_info (cr_group_info old) (s\<lparr>creds := creds s @ [Some ?new]\<rparr>) = Some ?s2"
    using get_group_info_append [where f = "\<lambda>cs. cs @ [Some ?new]"] s1(1) by simp
  have at2: "cred_at ?s2 d = (if d = ?n then Some ?new else cred_at s d)" for d
    using same_but_infosD(3) [OF s1(3)] n by (auto simp: cred_at_def nth_append fun_eq_iff split: if_splits)
  have g2: "gi_at ?s2 = gi_at s1" and t2: "tasks ?s2 = tasks s"
    using same_but_infosD(1) [OF s1(3)] by (simp_all add: gi_at_def fun_eq_iff)
  have fresh: "cred_at s ?n = None" by (simp add: cred_at_def)
  show ?thesis
  proof (cases lsm)
    case True
    have "prepare_creds alloc lsm cur s = Some (Some ?n, ?s2)"
      using \<open>alloc\<close> True assms(2,3) old step by (simp add: prepare_creds_def task_at_def)
    then show ?thesis using \<open>alloc\<close> True inv2 at2 g2 t2 old fresh keeps_gi [OF k1] by auto
  next
    case False
    have "cur < length (tasks ?s2)" using t2 assms(2) by simp
    then obtain s3 where s3: "put_cred cur ?n ?s2 = Some s3" "cred_inv s3 H G P" "keeps ?s2 s3"
      using put_cred_inv_keeps [OF inv2] by blast
    have "cred_refs s3 = cred_refs s" using keeps_tasks [OF s3(3)] t2 by (simp add: cred_refs_def fun_eq_iff)
    then have gone: "cred_at s3 ?n = None" using cred_dead [OF s3(2)] cred_dead [OF assms(1)] fresh by simp
    have "abort_creds cur ?n ?s2 = Some s3" using s3(1) by (simp add: abort_creds_def at2)
    then have "prepare_creds alloc lsm cur s = Some (None, s3)"
      using \<open>alloc\<close> False assms(2,3) old step by (simp add: prepare_creds_def task_at_def)
    moreover have "\<exists>cr. cred_at s d = Some cr \<and> same_cred cr cr'" if "cred_at s3 d = Some cr'" for d cr'
      using keeps_cred [OF s3(3) that] that gone by (auto simp: at2 split: if_splits)
    ultimately show ?thesis
      using False s3(2) keeps_tasks [OF s3(3)] t2 keeps_gi [OF s3(3)] keeps_gi [OF k1] by (fastforce simp: g2)
  qed
qed (use assms in \<open>auto simp: prepare_creds_def\<close>)


lemma abort_creds_inv:
  assumes "cred_inv s (add_mset c H) G P" "cur < length (tasks s)"
  obtains s' where "abort_creds cur c s = Some s'" "cred_inv s' H G P" "keeps s s'"
proof -
  obtain cr where "cred_at s c = Some cr" "cr_usage cr = int (cred_refs s c + count (add_mset c H) c)"
    using assms(1) by (rule cred_live [where c = c]) simp
  then have "abort_creds cur c s = put_cred cur c s" by (simp add: abort_creds_def)
  then show ?thesis using put_cred_inv_keeps [OF assms] that by metis
qed

text \<open>
  The credentials a task has after a commit: the task points at the new set with both pointers, and the
  contents of the sets that are left are what they were.
\<close>

definition committed_task :: "u32 \<Rightarrow> cred \<Rightarrow> cred \<Rightarrow> nat \<Rightarrow> task \<Rightarrow> task" where
  "committed_task suid_dumpable old ncr new ts =
     (if suid_dumpable_change old ncr
      then ts\<lparr>t_dumpable := map_option (\<lambda>_. suid_dumpable) (t_dumpable ts), t_pdeath_signal := 0\<rparr> else ts)
       \<lparr>t_real_cred := Some new, t_cred := Some new\<rparr>"

lemma keeps_same_contents: "keeps s s' \<Longrightarrow> same_contents s s'"
  by (simp add: keeps_def)

lemma charge_same_contents [simp]:
  "same_contents s (charge_process u s')  = same_contents s s'" "same_contents s (uncharge_process u s') = same_contents s s'"
  "same_contents s (set_task t ts s') = same_contents s s'"
  by (simp_all add: same_contents_def charge_process_def uncharge_process_def cred_at_def gi_at_def set_task_def cong: if_cong)

lemma commit_creds_inv:
  assumes inv: "cred_inv s (add_mset new H) G P" and cur: "cur < length (tasks s)"
    and ptr: "t_real_cred (tasks s ! cur) = Some old" "t_cred (tasks s ! cur) = Some old"
  obtains s' ocr ncr where "commit_creds sd cur new s = Some s'" "cred_inv s' H G P"
    "cred_at s old = Some ocr" "cred_at s new = Some ncr"
    "tasks s' = (tasks s)[cur := committed_task sd ocr ncr new (tasks s ! cur)]" "same_contents s s'"
proof -
  obtain ocr where o0: "cred_at s old = Some ocr" using task_cred_live [OF inv cur] ptr by blast
  obtain ncr where n0: "cred_at s new = Some ncr" "cr_usage ncr = int (cred_refs s new + count (add_mset new H) new)"
    using inv by (rule cred_live [where c = new]) simp
  obtain s1 where s1: "get_cred new s = Some s1" "cred_inv s1 (add_mset new (add_mset new H)) G P"
    using get_cred_inv [OF inv n0(1)] by blast
  have k1: "keeps s s1" using s1(1) by (rule get_cred_keeps)
  have cur1: "cur < length (tasks s1)" using keeps_tasks [OF k1] cur by simp
  have old_new: "cred_at s1 d = map_option (\<lambda>cr. if d = new then cr\<lparr>cr_usage := cr_usage cr + 1\<rparr> else cr) (cred_at s d)" for d
    using s1(1) n0(1) by (auto simp: get_cred_def cred_at_set_cred cred_at_length option.map_ident)
  define ocr1 where "ocr1 = (if old = new then ocr\<lparr>cr_usage := cr_usage ocr + 1\<rparr> else ocr)"
  have o1: "cred_at s1 old = Some ocr1" using o0 by (simp add: old_new ocr1_def)
  have sc: "same_cred ocr ocr1" by (simp add: ocr1_def)
  let ?ts = "committed_task sd ocr1 ncr new (tasks s ! cur)"
  define s2 where "s2 = uncharge_process (cr_user ocr1) s1"
  define s3 where "s3 = set_task cur ?ts s2"
  define s4 where "s4 = charge_process (cr_user ncr) s3"
  have i2: "cred_inv s2 (add_mset new (add_mset new H)) G (add_mset (cr_user ocr1) P)"
    unfolding s2_def using s1(2) by (rule charge_process_inv)
  have at2: "cred_at s2 = cred_at s1" "tasks s2 = tasks s"
    using keeps_tasks [OF k1] by (simp_all add: s2_def uncharge_process_def cred_at_def fun_eq_iff)
  have ru: "real_user s2 (tasks s ! cur) = Some (cr_user ocr1)" using ptr o1 by (simp add: real_user_def at2)
  have run: "real_user s2 ?ts = Some (cr_user ncr)" using n0(1) by (simp add: real_user_def at2 committed_task_def old_new)
  have "cred_inv s3 (add_mset old (add_mset old H)) G (add_mset (cr_user ncr) P)"
    unfolding s3_def using cur at2(2)
    by (intro set_task_inv [OF i2]) (simp_all only: at2(2) ru run, simp_all add: task_refs_def committed_task_def ptr)
  then have i4: "cred_inv s4 (add_mset old (add_mset old H)) G P" unfolding s4_def by (rule charge_process_inv)
  have t4: "tasks s4 = (tasks s)[cur := ?ts]" by (simp add: s4_def charge_process_def s3_def set_task_def at2)
  then have "cur < length (tasks s4)" using cur by simp
  then obtain s5 where s5: "put_cred cur old s4 = Some s5" "cred_inv s5 (add_mset old H) G P" "keeps s4 s5"
    using put_cred_inv_keeps [OF i4] by blast
  then have "cur < length (tasks s5)" using keeps_tasks [OF s5(3)] t4 cur by simp
  then obtain s6 where s6: "put_cred cur old s5 = Some s6" "cred_inv s6 H G P" "keeps s5 s6"
    using put_cred_inv_keeps [OF s5(2)] by blast
  have "1 \<le> cr_usage ncr" using n0(2) by simp
  then have "commit_creds sd cur new s = Some s6"
    using cur ptr n0(1) s1(1) o1 s5(1) s6(1) keeps_tasks [OF k1]
    by (cases "cr_user ncr = cr_user ocr1")
      (simp_all add: commit_creds_def task_at_def s4_def s3_def s2_def charge_process_def uncharge_process_def
        set_task_def committed_task_def Let_def fun_upd_twist)
  moreover have "?ts = committed_task sd ocr ncr new (tasks s ! cur)"
    using same_credD [OF sc] by (simp add: committed_task_def suid_dumpable_change_def)
  then have "tasks s6 = (tasks s)[cur := committed_task sd ocr ncr new (tasks s ! cur)]"
    using keeps_tasks [OF s5(3)] keeps_tasks [OF s6(3)] t4 by simp
  moreover have "same_contents s s4" using keeps_same_contents [OF k1] by (simp add: s4_def s3_def s2_def)
  then have "same_contents s s6"
    using keeps_same_contents [OF s5(3)] keeps_same_contents [OF s6(3)] same_contents_trans by blast
  ultimately show ?thesis using that s6(2) o0 n0(1) by blast
qed


lemma override_creds_inv:
  assumes inv: "cred_inv s H G P" and cur: "cur < length (tasks s)" and ptr: "t_cred (tasks s ! cur) = Some old"
    and new: "cred_at s new = Some cr"
  obtains s' where "override_creds cur new s = Some (old, s')" "cred_inv s' (add_mset old H) G P"
    "tasks s' = (tasks s)[cur := (tasks s ! cur)\<lparr>t_cred := Some new\<rparr>]" "same_contents s s'"
proof -
  let ?ts = "(tasks s ! cur)\<lparr>t_cred := Some new\<rparr>"
  obtain s1 where s1: "get_cred new s = Some s1" "cred_inv s1 (add_mset new H) G P" using get_cred_inv [OF inv new] by blast
  have k1: "keeps s s1" using s1(1) by (rule get_cred_keeps)
  have "cred_inv (set_task cur ?ts s1) (add_mset old H) G P"
    using cur keeps_tasks [OF k1] ptr by (intro set_task_inv [OF s1(2)]) (simp_all add: task_refs_def real_user_def)
  moreover have "override_creds cur new s = Some (old, set_task cur ?ts s1)"
    using cur ptr s1(1) by (simp add: override_creds_def task_at_def)
  moreover have "tasks (set_task cur ?ts s1) = (tasks s)[cur := ?ts]" using keeps_tasks [OF k1] by (simp add: set_task_def)
  moreover have "same_contents s (set_task cur ?ts s1)" using keeps_same_contents [OF k1] by simp
  ultimately show ?thesis using that by blast
qed

lemma revert_creds_inv:
  assumes inv: "cred_inv s (add_mset old H) G P" and cur: "cur < length (tasks s)" and ptr: "t_cred (tasks s ! cur) = Some ov"
  obtains s' where "revert_creds cur old s = Some s'" "cred_inv s' H G P"
    "tasks s' = (tasks s)[cur := (tasks s ! cur)\<lparr>t_cred := Some old\<rparr>]" "same_contents s s'"
proof -
  let ?s = "set_task cur ((tasks s ! cur)\<lparr>t_cred := Some old\<rparr>) s"
  have "cred_inv ?s (add_mset ov H) G P"
    using cur ptr by (intro set_task_inv [OF inv]) (simp_all add: task_refs_def real_user_def)
  moreover have cur': "cur < length (tasks ?s)" using cur by (simp add: set_task_def)
  ultimately obtain s' where s': "put_cred cur ov ?s = Some s'" "cred_inv s' H G P" "keeps ?s s'"
    using put_cred_inv_keeps by blast
  have "revert_creds cur old s = Some s'" using s'(1) cur ptr by (simp add: revert_creds_def task_at_def)
  moreover have "same_contents s ?s" using keeps_same_contents [OF keeps_refl [of s]] by simp
  then have "same_contents s s'" using keeps_same_contents [OF s'(3)] same_contents_trans by blast
  ultimately show ?thesis using that s'(2) keeps_tasks [OF s'(3)] by (simp add: set_task_def)
qed

text \<open>A change of the contents of a set that no task uses, or that keeps its user.\<close>

lemma rewrite_cred_counted:
  assumes "cred_at s c = Some cr" "cr_usage cr' = cr_usage cr" "cr_user cr' = cr_user cr \<or> cred_refs s c = 0"
  shows "creds_counted (set_cred c (Some cr') s) H = creds_counted s H"
    and "procs_counted (set_cred c (Some cr') s) P = procs_counted s P"
proof -
  let ?s = "set_cred c (Some cr') s"
  have c: "c < length (creds s)" using assms(1) by (rule cred_at_length)
  have "counted cr_usage (cred_at ?s d) n = counted cr_usage (cred_at s d) n" for d n
    using assms(1,2) c by (auto simp: cred_at_set_cred counted_def)
  then show "creds_counted ?s H = creds_counted s H" by (simp add: creds_counted_def)
  have "real_user ?s t = real_user s t" if "t \<in> set (tasks s)" for t
  proof (cases "t_real_cred t = Some c")
    case True
    then have "cred_refs s c \<noteq> 0" using that by (force simp: cred_refs_def count_if_def filter_empty_conv)
    then show ?thesis using assms c True by (simp add: real_user_def cred_at_set_cred)
  qed (auto simp: real_user_def cred_at_set_cred split: bind_split)
  then have "count_if (\<lambda>t. real_user ?s t = Some u) (tasks s) = count_if (\<lambda>t. real_user s t = Some u) (tasks s)" for u
    by (intro count_if_cong) auto
  then show "procs_counted ?s P = procs_counted s P" by (simp add: procs_counted_def)
qed

lemma alter_cred_inv:
  assumes inv: "cred_inv s (add_mset c H) G P" and cr: "cred_at s c = Some cr" "cr_usage cr = 1"
    and cr': "cr_usage cr' = 1" "cr_group_info cr' = cr_group_info cr"
  shows "cred_inv (set_cred c (Some cr') s) (add_mset c H) G P"
proof -
  have c: "c < length (creds s)" using cr(1) by (rule cred_at_length)
  have "cr_usage cr = int (cred_refs s c + count (add_mset c H) c)"
    using inv by (rule cred_live [where c = c]) (use cr in simp_all)
  then have "cred_refs s c = 0" using cr(2) by simp
  then have "creds_counted (set_cred c (Some cr') s) (add_mset c H)" "procs_counted (set_cred c (Some cr') s) P"
    using inv rewrite_cred_counted [OF cr(1), of cr'] cr cr' by (simp_all add: cred_inv_def)
  moreover have "infos_inv (set_cred c (Some cr') s) G"
  proof (rule give_gi_infos [OF _ c])
    show "infos_inv (set_cred c None s) (add_mset (cr_group_info cr') G)"
      using take_gi_infos [OF _ cr(1)] inv cr'(2) by (simp add: cred_inv_split)
    show "sorted (groups_of gi)" if "gi_at s (cr_group_info cr') = Some gi" for gi
      using cred_group_live [OF inv cr(1)] that cr'(2) by auto
  qed
  ultimately show ?thesis by (simp add: cred_inv_split)
qed

text \<open>A credential set exchanges its group list for one that the caller holds a reference on.\<close>

lemma regroup_cred_inv:
  assumes inv: "cred_inv s H G P" and cr: "cred_at s c = Some cr"
    and cr': "cr_usage cr' = cr_usage cr" "cr_user cr' = cr_user cr \<or> cred_refs s c = 0"
    and same: "same_but_infos s s1" and infos: "infos_inv (set_cred c None s1) (add_mset (cr_group_info cr') G')"
    and sorted: "\<And>gi. gi_at s1 (cr_group_info cr') = Some gi \<Longrightarrow> sorted (groups_of gi)"
  shows "cred_inv (set_cred c (Some cr') s1) H G' P"
proof -
  note eq = same_but_infosD [OF same]
  have "creds_counted s1 H" "procs_counted s1 P" using inv same_but_infos_counted [OF same] by (simp_all add: cred_inv_def)
  moreover have "cred_at s1 c = Some cr" "c < length (creds s1)" using cr cred_at_length [OF cr] by (simp_all add: eq)
  ultimately show ?thesis
    using rewrite_cred_counted [of s1 c cr cr'] cr' give_gi_infos [OF infos _ sorted] by (simp add: cred_inv_split eq)
qed

lemma set_groups_inv:
  assumes inv: "cred_inv s H (add_mset g G) P" and cr: "cred_at s new = Some cr"
  obtains s' gi where "set_groups new g s = Some s'" "cred_inv s' H (add_mset g G) P" "tasks s' = tasks s"
    "cred_at s' = (cred_at s)(new \<mapsto> cr\<lparr>cr_group_info := g\<rparr>)" "gi_at s g = Some gi"
    "\<exists>gi'. gi_at s' g = Some gi' \<and> groups_of gi' = sort (groups_of gi)"
proof -
  have c: "new < length (creds s)" using cr by (rule cred_at_length)
  let ?n = "set_cred new None"
  have "infos_inv (?n s) (add_mset (cr_group_info cr) (add_mset g G))"
    using take_gi_infos [OF _ cr] inv by (simp add: cred_inv_split)
  from put_group_info_infos [OF this] obtain p where p: "put_group_info (cr_group_info cr) s = Some p"
    "infos_inv (?n p) (add_mset g G)" by (auto simp: put_group_info_set_cred)
  have kp: "keeps s p" using p(1) by (rule put_group_info_keeps)
  have sp: "same_but_infos s p" using p(1) by (auto simp: put_group_info_def bind_eq_Some_conv split: if_splits)
  obtain gi1 where gi1: "gi_at p g = Some gi1"
    using counted_pos [OF infos_inv_at(1) [OF p(2), of g]] by auto
  obtain gi where gi: "gi_at s g = Some gi" "groups_of gi1 = groups_of gi" using keeps_gi [OF kp gi1] by auto
  have wf1: "gi_wf gi1" using infos_inv_at(2) [OF p(2)] gi1 by simp
  obtain gi2 where gi2: "groups_sort gi1 = Some gi2" "gi_wf gi2" "same_shape gi1 gi2" "groups_of gi2 = sort (groups_of gi1)"
    using groups_sort_spec [OF wf1] by blast
  let ?q = "set_gi g (Some gi2) p"
  have "gi_usage gi2 = gi_usage gi1" using gi2(3) by (auto simp: same_shape_def)
  then have "infos_inv (set_gi g (Some gi2) (?n p)) (add_mset g G)"
    using infos_inv_at [OF p(2), of g] gi1 gi2 by (intro touch_gi_infos [OF p(2)]) (auto simp: counted_def)
  then have q: "infos_inv (?n ?q) (add_mset g G)" by (simp add: set_gi_set_cred)
  have qg: "gi_at ?q g = Some gi2" using gi_at_length [OF gi1] by (simp add: gi_at_set_gi)
  from get_group_info_infos [OF q] qg obtain r where r: "get_group_info g ?q = Some r"
    "infos_inv (?n r) (add_mset g (add_mset g G))" by (auto simp: get_group_info_set_cred)
  have sr: "same_but_infos ?q r" using r(1) by (auto simp: get_group_info_def bind_eq_Some_conv)
  have same: "same_but_infos s r" using sp sr same_but_infos_trans set_gi_same_but_infos(1) by blast
  have rg: "\<exists>gi'. gi_at r g = Some gi' \<and> groups_of gi' = sort (groups_of gi)"
    using r(1) qg gi2(4) gi(2) gi_at_length [OF gi1] by (auto simp: get_group_info_def gi_at_set_gi)
  let ?cr = "cr\<lparr>cr_group_info := g\<rparr>" and ?r = "set_cred new (Some (cr\<lparr>cr_group_info := g\<rparr>)) r"
  have "cred_inv ?r H (add_mset g G) P"
    using regroup_cred_inv [OF inv cr, of ?cr r "add_mset g G"] same r(2) rg by auto
  moreover have "set_groups new g s = Some ?r" using cr p(1) gi1 gi2(1) r(1) by (simp add: set_groups_def)
  moreover have "cred_at ?r = (cred_at s)(new \<mapsto> ?cr)"
    using same_but_infosD(2,3) [OF same] c by (auto simp: cred_at_set_cred)
  ultimately show ?thesis using that gi(1) rg same_but_infosD(1) [OF same] by simp
qed


lemma put_group_info_same: "put_group_info g s = Some s' \<Longrightarrow> same_but_infos s s'"
  by (auto simp: put_group_info_def bind_eq_Some_conv split: if_splits)

lemma get_group_info_same: "get_group_info g s = Some s' \<Longrightarrow> same_but_infos s s'"
  by (auto simp: get_group_info_def bind_eq_Some_conv)

lemma next_ns_inv [simp]: "cred_inv (s\<lparr>next_ns := n\<rparr>) H G P = cred_inv s H G P"
proof -
  have "cred_at (s\<lparr>next_ns := n\<rparr>) = cred_at s" by (simp add: cred_at_def fun_eq_iff)
  then show ?thesis by (simp add: cred_inv_defs gi_at_def cred_refs_def gi_refs_def real_user_def)
qed

lemma live_inv [simp]: "cred_inv (s\<lparr>live := l\<rparr>) H G P = cred_inv s H G P"
proof -
  have "cred_at (s\<lparr>live := l\<rparr>) = cred_at s" by (simp add: cred_at_def fun_eq_iff)
  then show ?thesis by (simp add: cred_inv_defs gi_at_def cred_refs_def gi_refs_def real_user_def)
qed

text \<open>\<open>init_groups\<close> is always there.\<close>

lemma init_groups_live:
  assumes "infos_inv s G"
  obtains gi where "gi_at s 0 = Some gi" "sorted (groups_of gi)"
proof -
  have "0 < gi_refs s 0 + count G 0" by (simp add: gi_refs_def)
  from counted_pos [OF infos_inv_at(1) [OF assms, of 0] this] obtain gi where "gi_at s 0 = Some gi" by blast
  then show ?thesis using that assms by (auto simp: infos_inv_def groups_ok_def)
qed

lemma create_user_ns_inv:
  assumes inv: "cred_inv s (add_mset new H) G P" and cr: "cred_at s new = Some cr" "cr_usage cr = 1"
  obtains r s' where "create_user_ns a b new s = Some (r, s')" "cred_inv s' (add_mset new H) G P" "tasks s' = tasks s"
    "\<exists>cr'. cred_at s' new = Some cr' \<and> cr_usage cr' = 1"
proof (cases "a \<and> b")
  case True
  have c: "new < length (creds s)" using cr(1) by (rule cred_at_length)
  let ?n = "set_cred new None"
  let ?ncr = "cr\<lparr>cr_user := user_struct (child_user_ns (next_ns s) (cr_user cr)) 0, uid := 0, euid := 0, suid := 0,
    fsuid := 0, gid := 0, egid := 0, sgid := 0, fsgid := 0, cr_group_info := 0\<rparr>"
  have "infos_inv (?n s) (add_mset (cr_group_info cr) G)"
    using take_gi_infos [OF _ cr(1)] inv by (simp add: cred_inv_split)
  from put_group_info_infos [OF this] obtain p where p: "put_group_info (cr_group_info cr) s = Some p"
    "infos_inv (?n p) G" by (auto simp: put_group_info_set_cred)
  obtain gi where gi: "gi_at p 0 = Some gi" "sorted (groups_of gi)" using init_groups_live [OF p(2)] by auto
  have "gi_at (?n p) 0 = Some gi" using gi by simp
  from get_group_info_infos [OF p(2) this] obtain q where q: "get_group_info 0 p = Some q"
    "infos_inv (?n q) (add_mset 0 G)" by (auto simp: get_group_info_set_cred)
  have same: "same_but_infos s q"
    using put_group_info_same [OF p(1)] get_group_info_same [OF q(1)] same_but_infos_trans by blast
  have srt: "sorted (groups_of gi')" if "gi_at q 0 = Some gi'" for gi'
    using keeps_gi [OF get_group_info_keeps [OF q(1)] that] gi by auto
  have "cr_usage cr = int (cred_refs s new + count (add_mset new H) new)"
    using inv by (rule cred_live [where c = new]) (use cr in simp_all)
  then have "cred_refs s new = 0" using cr(2) by simp
  then have "cred_inv (set_cred new (Some ?ncr) q) (add_mset new H) G P"
    using regroup_cred_inv [OF inv cr(1) _ _ same, of ?ncr G] q(2) srt by simp
  moreover have "create_user_ns a b new s = Some (None, (set_cred new (Some ?ncr) q)\<lparr>next_ns := next_ns q + 1\<rparr>)"
    using True cr(1) p(1) q(1) by (simp add: create_user_ns_def Let_def)
  moreover have "cred_at ((set_cred new (Some ?ncr) q)\<lparr>next_ns := next_ns q + 1\<rparr>) new = Some ?ncr"
    using same c by (simp add: cred_at_def set_cred_def same_but_infos_def)
  ultimately show ?thesis using that cr(2) same_but_infosD(1) [OF same] by simp
qed (use that inv cr in \<open>auto simp: create_user_ns_def\<close>)

lemma charge_process_commutes:
  "charge_process u (s\<lparr>tasks := f\<rparr>) = (charge_process u s)\<lparr>tasks := f\<rparr>"
  "charge_process u (set_cred c x s) = set_cred c x (charge_process u s)"
  by (cases s; simp add: charge_process_def set_cred_def)+

lemma charge_process_cred_at [simp]: "cred_at (charge_process u s) c = cred_at s c"
  by (simp add: charge_process_def cred_at_def)

lemma fork_task_inv:
  assumes "cred_inv s (add_mset c (add_mset c H)) G P" "cred_at s c = Some cr"
  shows "cred_inv ((charge_process (cr_user cr) s)\<lparr>tasks := tasks s @ [p\<lparr>t_cred := Some c, t_real_cred := Some c\<rparr>]\<rparr>) H G P"
proof -
  let ?p = "p\<lparr>t_cred := Some c, t_real_cred := Some c\<rparr>"
  have "cred_inv (s\<lparr>tasks := tasks s @ [?p]\<rparr>) H G (add_mset (cr_user cr) P)"
    using assms by (intro add_task_inv [of _ _ _ _ P]) (simp_all add: task_refs_def real_user_def)
  from charge_process_inv(1) [OF this] show ?thesis by (simp add: charge_process_commutes)
qed

lemma copy_creds_inv:
  assumes inv: "cred_inv s H G P" and cur: "cur < length (tasks s)" and ptr: "t_cred (tasks s ! cur) = Some c"
  obtains r s' where "copy_creds env cur s = Some (r, s')" "cred_inv s' H G P"
    "tasks s' = tasks s @ (if r = None then [last (tasks s')] else [])"
    "r = None \<Longrightarrow> t_cred (last (tasks s')) = t_real_cred (last (tasks s')) \<and> t_cred (last (tasks s')) \<noteq> None"
proof (cases "CLONE_THREAD env")
  case True
  obtain cr where cr: "cred_at s c = Some cr" using task_cred_live [OF inv cur] ptr by blast
  obtain s1 where s1: "get_cred c s = Some s1" "cred_inv s1 (add_mset c H) G P" using get_cred_inv [OF inv cr] by blast
  obtain cr1 where cr1: "cred_at s1 c = Some cr1" using s1(2) by (rule cred_live [where c = c]) simp_all
  obtain s2 where s2: "get_cred c s1 = Some s2" "cred_inv s2 (add_mset c (add_mset c H)) G P"
    using get_cred_inv [OF s1(2) cr1] by blast
  obtain cr2 where cr2: "cred_at s2 c = Some cr2" using s2(2) by (rule cred_live [where c = c]) simp_all
  have t2: "tasks s2 = tasks s" using keeps_tasks [OF get_cred_keeps [OF s1(1)]] keeps_tasks [OF get_cred_keeps [OF s2(1)]] by simp
  have p: "(tasks s ! cur)\<lparr>t_real_cred := Some c\<rparr> = (tasks s ! cur)\<lparr>t_cred := Some c, t_real_cred := Some c\<rparr>"
    using ptr by (cases "tasks s ! cur") simp
  have "copy_creds env cur s = Some (None, (charge_process (cr_user cr2) s2)
      \<lparr>tasks := tasks s2 @ [(tasks s ! cur)\<lparr>t_cred := Some c, t_real_cred := Some c\<rparr>]\<rparr>)"
    unfolding p [symmetric] using True cur ptr s1(1) s2(1) cr2
    by (simp add: copy_creds_def task_at_def charge_process_def Let_def)
  then show ?thesis using that fork_task_inv [OF s2(2) cr2] t2 by simp
next
  case False
  let ?a = "cred_alloc_ok env" and ?l = "cred_lsm_ok env"
  obtain r s1 where s1: "prepare_creds ?a ?l cur s = Some (r, s1)" "cred_inv s1 (mo r + H) G P" "tasks s1 = tasks s"
    "\<forall>n. r = Some n \<longrightarrow> (\<exists>old. cred_at s1 n = Some (old\<lparr>cr_usage := 1\<rparr>))"
    using prepare_creds_inv [OF inv cur ptr, of ?a ?l] by metis
  show ?thesis
  proof (cases r)
    case None
    then have "copy_creds env cur s = Some (Some ENOMEM, s1)" using False cur ptr s1(1) by (simp add: copy_creds_def task_at_def)
    then show ?thesis using that s1 None by simp
  next
    case (Some n)
    have i1: "cred_inv s1 (add_mset n H) G P" using s1(2) Some by simp
    obtain cr1 where cr1: "cred_at s1 n = Some cr1" "cr_usage cr1 = 1" using s1(4) Some by auto
    define res where "res = (if CLONE_NEWUSER env then create_user_ns (ns_alloc_ok env) (user_alloc_ok env) n s1 else Some (None, s1))"
    have "\<exists>e s2. res = Some (e, s2) \<and> cred_inv s2 (add_mset n H) G P \<and> tasks s2 = tasks s1"
    proof (cases "CLONE_NEWUSER env")
      case True
      then show ?thesis using create_user_ns_inv [OF i1 cr1] by (metis res_def)
    qed (use i1 in \<open>auto simp: res_def\<close>)
    then obtain e s2 where s2: "res = Some (e, s2)" "cred_inv s2 (add_mset n H) G P" "tasks s2 = tasks s" using s1(3) by auto
    obtain cr2 where cr2: "cred_at s2 n = Some cr2" using s2(2) by (rule cred_live [where c = n]) simp_all
    show ?thesis
    proof (cases e)
      case (Some err)
      have "cur < length (tasks s2)" using s2(3) cur by simp
      then obtain s3 where s3: "put_cred cur n s2 = Some s3" "cred_inv s3 H G P" "keeps s2 s3"
        using put_cred_inv_keeps [OF s2(2)] by blast
      have "copy_creds env cur s = Some (Some err, s3)"
        using False cur ptr s1(1) \<open>r = Some n\<close> s2(1) Some s3(1) by (simp add: copy_creds_def task_at_def res_def)
      then show ?thesis using that s3(2) keeps_tasks [OF s3(3)] s2(3) by simp
    next
      case None
      obtain s3 where s3: "get_cred n (charge_process (cr_user cr2) s2) = Some s3"
        "s3 = charge_process (cr_user cr2) (set_cred n (Some (cr2\<lparr>cr_usage := cr_usage cr2 + 1\<rparr>)) s2)"
        using cr2 by (simp add: get_cred_def charge_process_commutes)
      let ?s = "set_cred n (Some (cr2\<lparr>cr_usage := cr_usage cr2 + 1\<rparr>)) s2"
      have a: "cred_inv ?s (add_mset n (add_mset n H)) G P" using get_cred_inv [OF s2(2) cr2] cr2 by (auto simp: get_cred_def)
      have b: "cred_at ?s n = Some (cr2\<lparr>cr_usage := cr_usage cr2 + 1\<rparr>)" using cred_at_length [OF cr2] by (simp add: cred_at_set_cred)
      have i: "cred_inv (s3\<lparr>tasks := tasks s2 @ [(tasks s ! cur)\<lparr>t_cred := Some n, t_real_cred := Some n\<rparr>]\<rparr>) H G P"
        using fork_task_inv [OF a b] s3(2) by simp
      have "tasks s3 = tasks s2" by (simp add: s3(2) charge_process_def)
      then have "copy_creds env cur s =
          Some (None, s3\<lparr>tasks := tasks s2 @ [(tasks s ! cur)\<lparr>t_cred := Some n, t_real_cred := Some n\<rparr>]\<rparr>)"
        using False cur ptr s1(1) \<open>r = Some n\<close> s2(1) None cr2 s3(1) by (simp add: copy_creds_def task_at_def res_def Let_def)
      then show ?thesis using that i s2(3) by simp
    qed
  qed
qed


lemma exit_creds_inv:
  assumes inv: "cred_inv s H G P" and cur: "cur < length (tasks s)" and t: "t < length (tasks s)"
    and ptr: "t_real_cred (tasks s ! t) = Some c" "t_cred (tasks s ! t) = Some d"
  obtains s' where "Option.bind (release_task t s) (exit_creds cur t) = Some s'" "cred_inv s' H G P"
    "tasks s' = (tasks s)[t := (tasks s ! t)\<lparr>t_real_cred := None, t_cred := None\<rparr>]"
proof -
  obtain cr where cr: "cred_at s c = Some cr" using task_cred_live [OF inv t] ptr by blast
  let ?u = "cr_user cr" and ?t1 = "(tasks s ! t)\<lparr>t_real_cred := None\<rparr>"
  define s1 where "s1 = uncharge_process ?u s"
  have t1: "tasks s1 = tasks s" and at1: "cred_at s1 = cred_at s" by (simp_all add: s1_def uncharge_process_def cred_at_def fun_eq_iff)
  have i1: "cred_inv s1 H G (add_mset ?u P)" unfolding s1_def using inv by (rule charge_process_inv)
  define s2 where "s2 = set_task t ?t1 s1"
  have "cred_inv s2 (add_mset c H) G P"
    unfolding s2_def using t ptr cr
    by (intro set_task_inv [OF i1]) (simp_all add: t1 at1 task_refs_def real_user_def)
  moreover have t2: "tasks s2 = (tasks s)[t := ?t1]" by (simp add: s2_def set_task_def t1)
  moreover have "cur < length (tasks s2)" using cur t2 by simp
  ultimately obtain s3 where s3: "put_cred cur c s2 = Some s3" "cred_inv s3 H G P" "keeps s2 s3"
    using put_cred_inv_keeps by blast
  have t3: "tasks s3 = (tasks s)[t := ?t1]" using keeps_tasks [OF s3(3)] t2 by simp
  define s4 where "s4 = set_task t (?t1\<lparr>t_cred := None\<rparr>) s3"
  have "cred_inv s4 (add_mset d H) G P"
    unfolding s4_def using t ptr by (intro set_task_inv [OF s3(2)]) (simp_all add: t3 task_refs_def real_user_def)
  moreover have t4: "tasks s4 = (tasks s)[t := ?t1\<lparr>t_cred := None\<rparr>]" by (simp add: s4_def set_task_def t3)
  moreover have "cur < length (tasks s4)" using cur t4 by simp
  ultimately obtain s5 where s5: "put_cred cur d s4 = Some s5" "cred_inv s5 H G P" "keeps s4 s5"
    using put_cred_inv_keeps by blast
  have "release_task t s = Some s1" using t ptr cr by (simp add: release_task_def task_at_def s1_def)
  moreover have "exit_creds cur t s1 = Some s5"
    using t ptr s3(1) s5(1) t1 t3 by (simp add: exit_creds_def task_at_def s2_def s4_def)
  ultimately show ?thesis using that s5(2) keeps_tasks [OF s5(3)] t4 by simp
qed

text \<open>A group list just allocated, with the reference of the caller.\<close>

definition add_group_info :: "group_info \<Rightarrow> cred_state \<Rightarrow> nat \<times> cred_state" where
  "add_group_info gi s = (length (infos s), s\<lparr>infos := infos s @ [Some gi]\<rparr>)"

lemma add_group_info_inv:
  assumes inv: "cred_inv s H G P" and gi: "gi_wf gi" "gi_usage gi = 1"
  shows "cred_inv (snd (add_group_info gi s)) H (add_mset (length (infos s)) G) P"
proof -
  let ?s = "s\<lparr>infos := infos s @ [Some gi]\<rparr>" and ?n = "length (infos s)"
  have at: "gi_at ?s g = (if g = ?n then Some gi else gi_at s g)" for g by (simp add: gi_at_def nth_append)
  have same: "same_but_infos s ?s" by (simp add: same_but_infos_def)
  have refs: "gi_refs ?s = gi_refs s" by (simp add: gi_refs_def fun_eq_iff)
  have inf: "infos_inv s G" using inv by (simp add: cred_inv_split)
  have "gi_at s ?n = None" by (simp add: gi_at_def)
  then have none: "gi_refs s ?n = 0" "count G ?n = 0"
    using infos_inv_at(1) [OF inf, of ?n] by (auto simp: counted_def)
  have "infos_counted ?s (add_mset ?n G)"
    unfolding infos_counted_def
  proof
    fix g
    show "counted gi_usage (gi_at ?s g) (gi_refs ?s g + count (add_mset ?n G) g)"
      using infos_inv_at(1) [OF inf, of g] none gi(2) by (auto simp: at refs counted_def not_in_iff)
  qed
  moreover have "groups_ok ?s"
  proof -
    have "cr_group_info cr \<noteq> ?n" if "cred_at s c = Some cr" for c cr using gi_refs_pos [OF that] none(1) by auto
    moreover have "?n \<noteq> 0" using none(1) by (auto simp: gi_refs_def)
    ultimately show ?thesis
      using inf gi(1) by (auto simp: infos_inv_def groups_ok_def at same_but_infosD(3) [OF same])
  qed
  ultimately show ?thesis using cred_inv_infos [OF inv same] by (simp add: add_group_info_def infos_inv_def)
qed

end
