(* ===== verification/Cred_Protocol.thy ===== *)
theory Cred_Protocol
  imports Cred
begin

text \<open>
  The credential operations of \<open>kernel/cred.c\<close> in every order the callers may use them: the reference counts
  of credentials and group lists are exact, no task ever runs with freed credentials, and no \<open>BUG_ON\<close> fires.
\<close>

subsection \<open>All sequences of credential operations\<close>

text \<open>
  The kernel paths that use credentials, as a transition system. \<open>ks_held\<close> and \<open>ks_gi_held\<close> are the references
  in local variables. \<open>op_allowed\<close> is what the callers respect: a path gives away only references it holds,
  changes only a set that nobody else refers to, and commits only when the subjective credentials of the
  task are not overridden.
\<close>

record kstate =
  ks :: cred_state
  ks_held :: "nat multiset"
  ks_gi_held :: "nat multiset"

datatype cred_op =
    Op_prepare nat bool bool | Op_alter nat cred | Op_set_groups nat nat | Op_commit u32 nat nat
  | Op_abort nat nat | Op_override nat nat | Op_revert nat nat | Op_get nat | Op_put nat nat
  | Op_copy clone_env nat | Op_exit nat nat | Op_new_groups group_info | Op_put_groups nat

definition alive :: "cred_state \<Rightarrow> nat \<Rightarrow> bool" where
  "alive s t \<longleftrightarrow> t < length (tasks s) \<and> t_cred (tasks s ! t) \<noteq> None"

definition only_held :: "kstate \<Rightarrow> nat \<Rightarrow> bool" where
  "only_held k c \<longleftrightarrow> c \<in># ks_held k \<and> map_option cr_usage (cred_at (ks k) c) = Some 1"

fun op_allowed :: "cred_op \<Rightarrow> kstate \<Rightarrow> bool" where
  "op_allowed (Op_prepare cur a l) k = alive (ks k) cur"
| "op_allowed (Op_alter c cr) k \<longleftrightarrow> only_held k c \<and> cr_usage cr = 1 \<and>
     map_option cr_group_info (cred_at (ks k) c) = Some (cr_group_info cr)"
| "op_allowed (Op_set_groups c g) k \<longleftrightarrow> only_held k c \<and> g \<in># ks_gi_held k"
| "op_allowed (Op_commit sd cur c) k \<longleftrightarrow> c \<in># ks_held k \<and> alive (ks k) cur \<and>
     t_cred (tasks (ks k) ! cur) = t_real_cred (tasks (ks k) ! cur)"
| "op_allowed (Op_abort cur c) k \<longleftrightarrow> c \<in># ks_held k \<and> alive (ks k) cur"
| "op_allowed (Op_override cur c) k \<longleftrightarrow> alive (ks k) cur \<and> cred_at (ks k) c \<noteq> None"
| "op_allowed (Op_revert cur c) k \<longleftrightarrow> c \<in># ks_held k \<and> alive (ks k) cur"
| "op_allowed (Op_get c) k \<longleftrightarrow> cred_at (ks k) c \<noteq> None"
| "op_allowed (Op_put cur c) k \<longleftrightarrow> c \<in># ks_held k \<and> alive (ks k) cur"
| "op_allowed (Op_copy env cur) k \<longleftrightarrow> alive (ks k) cur"
| "op_allowed (Op_exit cur t) k \<longleftrightarrow> alive (ks k) cur \<and> alive (ks k) t"
| "op_allowed (Op_new_groups gi) k \<longleftrightarrow> gi_wf gi \<and> gi_usage gi = 1"
| "op_allowed (Op_put_groups g) k \<longleftrightarrow> g \<in># ks_gi_held k"

fun op_run :: "cred_op \<Rightarrow> kstate \<Rightarrow> kstate option" where
  "op_run (Op_prepare cur a l) k =
     map_option (\<lambda>(r, s). k\<lparr>ks := s, ks_held := mo r + ks_held k\<rparr>) (prepare_creds a l cur (ks k))"
| "op_run (Op_alter c cr) k = Some (k\<lparr>ks := set_cred c (Some cr) (ks k)\<rparr>)"
| "op_run (Op_set_groups c g) k = map_option (\<lambda>s. k\<lparr>ks := s\<rparr>) (set_groups c g (ks k))"
| "op_run (Op_commit sd cur c) k =
     map_option (\<lambda>s. k\<lparr>ks := s, ks_held := ks_held k - {#c#}\<rparr>) (commit_creds sd cur c (ks k))"
| "op_run (Op_abort cur c) k =
     map_option (\<lambda>s. k\<lparr>ks := s, ks_held := ks_held k - {#c#}\<rparr>) (abort_creds cur c (ks k))"
| "op_run (Op_override cur c) k =
     map_option (\<lambda>(old, s). k\<lparr>ks := s, ks_held := add_mset old (ks_held k)\<rparr>) (override_creds cur c (ks k))"
| "op_run (Op_revert cur c) k =
     map_option (\<lambda>s. k\<lparr>ks := s, ks_held := ks_held k - {#c#}\<rparr>) (revert_creds cur c (ks k))"
| "op_run (Op_get c) k = map_option (\<lambda>s. k\<lparr>ks := s, ks_held := add_mset c (ks_held k)\<rparr>) (get_cred c (ks k))"
| "op_run (Op_put cur c) k =
     map_option (\<lambda>s. k\<lparr>ks := s, ks_held := ks_held k - {#c#}\<rparr>) (put_cred cur c (ks k))"
| "op_run (Op_copy env cur) k = map_option (\<lambda>(r, s). k\<lparr>ks := s\<rparr>) (copy_creds env cur (ks k))"
| "op_run (Op_exit cur t) k = map_option (\<lambda>s. k\<lparr>ks := s\<rparr>) (Option.bind (release_task t (ks k)) (exit_creds cur t))"
| "op_run (Op_new_groups gi) k =
     (case add_group_info gi (ks k) of (g, s) \<Rightarrow> Some (k\<lparr>ks := s, ks_gi_held := add_mset g (ks_gi_held k)\<rparr>))"
| "op_run (Op_put_groups g) k =
     map_option (\<lambda>s. k\<lparr>ks := s, ks_gi_held := ks_gi_held k - {#g#}\<rparr>) (put_group_info g (ks k))"

text \<open>
  At boot one task runs with \<open>init_cred\<close>, whose two other references are never dropped; \<open>init_task\<close> is charged
  to the root user.
\<close>

definition boot :: kstate where
  "boot = \<lparr>ks = \<lparr>tasks = [\<lparr>t_real_cred = Some 0, t_cred = Some 0, t_dumpable = None, t_pdeath_signal = 0, t_flags = 0\<rparr>],
     creds = [Some init_cred], infos = [Some init_groups], processes = (\<lambda>u. if u = INIT_USER then 1 else 0),
     live = \<lparr>objects = 0, pages = 0\<rparr>, next_ns = 1\<rparr>, ks_held = {#0, 0#}, ks_gi_held = {#}\<rparr>"

definition kstate_inv :: "kstate \<Rightarrow> bool" where
  "kstate_inv k \<longleftrightarrow> cred_inv (ks k) (ks_held k) (ks_gi_held k) {#} \<and>
     (\<forall>t \<in> set (tasks (ks k)). t_cred t = None \<longleftrightarrow> t_real_cred t = None)"

definition op_step :: "kstate \<Rightarrow> cred_op \<Rightarrow> kstate \<Rightarrow> bool" where
  "op_step k l k' \<longleftrightarrow> op_allowed l k \<and> op_run l k = Some k'"


subsection \<open>The invariant\<close>

lemma boot_inv: "kstate_inv boot"
proof -
  have at: "cred_at (ks boot) c = (if c = 0 then Some init_cred else None)" "gi_at (ks boot) g = (if g = 0 then Some init_groups else None)" for c g
    by (simp_all add: boot_def cred_at_def gi_at_def)
  have "gi_wf init_groups" "groups_of init_groups = []" by (simp_all add: gi_wf_def groups_of_def init_groups_def ngroups_consts)
  then show ?thesis
    by (simp add: kstate_inv_def cred_inv_defs at counted_def cred_refs_def gi_refs_def real_user_def)
      (simp add: boot_def init_cred_def init_groups_def)
qed

lemma mset_split: "c \<in># H \<Longrightarrow> H = add_mset c (H - {#c#})"
  by simp

lemma pointers_update:
  assumes "\<forall>t \<in> set ts. t_cred t = None \<longleftrightarrow> t_real_cred t = None" "t_cred x = None \<longleftrightarrow> t_real_cred x = None"
  shows "\<forall>t \<in> set (ts[i := x]). t_cred t = None \<longleftrightarrow> t_real_cred t = None"
  using assms by (auto dest!: subsetD [OF set_update_subset_insert])

lemma alive_pointers:
  assumes "kstate_inv k" "alive (ks k) t"
  obtains c d where "t < length (tasks (ks k))" "t_cred (tasks (ks k) ! t) = Some c" "t_real_cred (tasks (ks k) ! t) = Some d"
proof -
  have t: "t < length (tasks (ks k))" "t_cred (tasks (ks k) ! t) \<noteq> None" using assms(2) by (simp_all add: alive_def)
  moreover have "t_cred (tasks (ks k) ! t) = None \<longleftrightarrow> t_real_cred (tasks (ks k) ! t) = None"
    using assms(1) nth_mem [OF t(1)] unfolding kstate_inv_def by blast
  ultimately have "t_real_cred (tasks (ks k) ! t) \<noteq> None" by simp
  then show thesis using that t by auto
qed

lemma kstate_invI:
  assumes "cred_inv (ks k) (ks_held k) (ks_gi_held k) {#}" "\<forall>t \<in> set (tasks (ks k)). t_cred t = None \<longleftrightarrow> t_real_cred t = None"
  shows "kstate_inv k"
  using assms by (simp add: kstate_inv_def)

lemma task_op_run_inv:
  assumes inv: "kstate_inv k" and ok: "op_allowed l k"
    and l: "l = Op_commit sd cur c \<or> l = Op_override cur c \<or> l = Op_revert cur c \<or> l = Op_copy env cur \<or> l = Op_exit cur c"
  shows "\<exists>k'. op_run l k = Some k' \<and> kstate_inv k'"
proof -
  let ?s = "ks k" and ?H = "ks_held k" and ?G = "ks_gi_held k"
  have i: "cred_inv ?s ?H ?G {#}" and ptrs: "\<forall>t \<in> set (tasks ?s). t_cred t = None \<longleftrightarrow> t_real_cred t = None"
    using inv by (simp_all add: kstate_inv_def)
  have "alive ?s cur" using ok l by auto
  then obtain o1 o2 where cur: "cur < length (tasks ?s)" "t_cred (tasks ?s ! cur) = Some o1" "t_real_cred (tasks ?s ! cur) = Some o2"
    using alive_pointers [OF inv] by metis
  note keep = pointers_update [OF ptrs]
  from l consider (commit) "l = Op_commit sd cur c" | (override) "l = Op_override cur c" | (revert) "l = Op_revert cur c"
    | (copy) "l = Op_copy env cur" | (exit) "l = Op_exit cur c" by blast
  then show ?thesis
  proof cases
    case commit
    then have c: "c \<in># ?H" "o1 = o2" using ok cur by auto
    have "cred_inv ?s (add_mset c (?H - {#c#})) ?G {#}" using i c by simp
    then obtain s' ocr ncr where s': "commit_creds sd cur c ?s = Some s'" "cred_inv s' (?H - {#c#}) ?G {#}"
      "tasks s' = (tasks ?s)[cur := committed_task sd ocr ncr c (tasks ?s ! cur)]"
      using commit_creds_inv [OF _ cur(1), of c "?H - {#c#}" ?G "{#}" o2 sd] cur c by metis
    then show ?thesis using commit keep [of "committed_task sd ocr ncr c (tasks ?s ! cur)" cur]
      by (auto intro!: kstate_invI simp: committed_task_def)
  next
    case override
    then obtain cr where "cred_at ?s c = Some cr" using ok by auto
    then obtain s' where "override_creds cur c ?s = Some (o1, s')" "cred_inv s' (add_mset o1 ?H) ?G {#}"
      "tasks s' = (tasks ?s)[cur := (tasks ?s ! cur)\<lparr>t_cred := Some c\<rparr>]"
      using override_creds_inv [OF i cur(1,2)] by metis
    then show ?thesis using override keep [of "(tasks ?s ! cur)\<lparr>t_cred := Some c\<rparr>" cur] cur by (auto intro!: kstate_invI)
  next
    case revert
    then have "cred_inv ?s (add_mset c (?H - {#c#})) ?G {#}" using i ok by simp
    then obtain s' where "revert_creds cur c ?s = Some s'" "cred_inv s' (?H - {#c#}) ?G {#}"
      "tasks s' = (tasks ?s)[cur := (tasks ?s ! cur)\<lparr>t_cred := Some c\<rparr>]"
      using revert_creds_inv [OF _ cur(1,2)] by metis
    then show ?thesis using revert keep [of "(tasks ?s ! cur)\<lparr>t_cred := Some c\<rparr>" cur] cur by (auto intro!: kstate_invI)
  next
    case copy
    from copy_creds_inv [OF i cur(1,2), of env] obtain r s' where r: "copy_creds env cur ?s = Some (r, s')" "cred_inv s' ?H ?G {#}"
      "tasks s' = tasks ?s @ (if r = None then [last (tasks s')] else [])"
      "r = None \<Longrightarrow> t_cred (last (tasks s')) = t_real_cred (last (tasks s'))" by metis
    define xs where "xs = (if r = None then [last (tasks s')] else [])"
    have "\<forall>t \<in> set xs. t_cred t = None \<longleftrightarrow> t_real_cred t = None" using r(4) by (auto simp: xs_def)
    then have "\<forall>t \<in> set (tasks s'). t_cred t = None \<longleftrightarrow> t_real_cred t = None"
      using ptrs r(3) [folded xs_def] by auto
    then show ?thesis using copy r by (auto intro!: kstate_invI)
  next
    case exit
    then have "alive ?s c" using ok by simp
    then obtain d1 d2 where t: "c < length (tasks ?s)" "t_cred (tasks ?s ! c) = Some d1" "t_real_cred (tasks ?s ! c) = Some d2"
      using alive_pointers [OF inv] by metis
    obtain s' where "Option.bind (release_task c ?s) (exit_creds cur c) = Some s'" "cred_inv s' ?H ?G {#}"
      "tasks s' = (tasks ?s)[c := (tasks ?s ! c)\<lparr>t_real_cred := None, t_cred := None\<rparr>]"
      using exit_creds_inv [OF i cur(1) t(1,3,2)] by blast
    then show ?thesis using exit keep [of "(tasks ?s ! c)\<lparr>t_real_cred := None, t_cred := None\<rparr>" c]
      by (auto intro!: kstate_invI)
  qed
qed


lemma op_run_inv:
  assumes inv: "kstate_inv k" and ok: "op_allowed l k"
  shows "\<exists>k'. op_run l k = Some k' \<and> kstate_inv k'"
proof -
  let ?s = "ks k" and ?H = "ks_held k" and ?G = "ks_gi_held k"
  have i: "cred_inv ?s ?H ?G {#}" and ptrs: "\<forall>t \<in> set (tasks ?s). t_cred t = None \<longleftrightarrow> t_real_cred t = None"
    using inv by (simp_all add: kstate_inv_def)
  have held: "cred_inv ?s (add_mset c (?H - {#c#})) ?G {#}" if "c \<in># ?H" for c using i that by simp
  have gheld: "cred_inv ?s ?H (add_mset g (?G - {#g#})) {#}" if "g \<in># ?G" for g using i that by simp
  have only: "\<exists>cr. cred_at ?s c = Some cr \<and> cr_usage cr = 1" if "only_held k c" for c using that by (auto simp: only_held_def)
  note kinv = kstate_invI
  show ?thesis
  proof (cases l)
    case (Op_prepare cur a b)
    then obtain c d where "cur < length (tasks ?s)" "t_cred (tasks ?s ! cur) = Some c"
      using alive_pointers [OF inv, of cur] ok by auto
    from prepare_creds_inv [OF i this, of a b] show ?thesis using Op_prepare ptrs by (auto intro!: kinv)
  next
    case (Op_alter c cr)
    then obtain cr0 where "cred_at ?s c = Some cr0" "cr_usage cr0 = 1" "c \<in># ?H"
      using only [of c] ok by (auto simp: only_held_def)
    then show ?thesis using Op_alter ok alter_cred_inv [OF held, of c cr0 cr] ptrs by (auto intro!: kinv)
  next
    case (Op_set_groups c g)
    then obtain cr0 where cr0: "cred_at ?s c = Some cr0" "g \<in># ?G" using only [of c] ok by auto
    then obtain s' where "set_groups c g ?s = Some s'" "cred_inv s' ?H (add_mset g (?G - {#g#})) {#}" "tasks s' = tasks ?s"
      using set_groups_inv [OF gheld [OF cr0(2)] cr0(1)] by metis
    then show ?thesis using Op_set_groups cr0(2) ptrs by (auto intro!: kinv)
  next
    case (Op_abort cur c)
    then have "c \<in># ?H" "cur < length (tasks ?s)" using ok by (auto simp: alive_def)
    then obtain s' where "abort_creds cur c ?s = Some s'" "cred_inv s' (?H - {#c#}) ?G {#}" "keeps ?s s'"
      using abort_creds_inv [OF held] by metis
    then show ?thesis using Op_abort ptrs keeps_tasks by (auto intro!: kinv)
  next
    case (Op_put cur c)
    then have "c \<in># ?H" "cur < length (tasks ?s)" using ok by (auto simp: alive_def)
    then obtain s' where "put_cred cur c ?s = Some s'" "cred_inv s' (?H - {#c#}) ?G {#}" "keeps ?s s'"
      using put_cred_inv_keeps [OF held] by metis
    then show ?thesis using Op_put ptrs keeps_tasks by (auto intro!: kinv)
  next
    case (Op_get c)
    then obtain cr where "cred_at ?s c = Some cr" using ok by auto
    then obtain s' where s': "get_cred c ?s = Some s'" "cred_inv s' (add_mset c ?H) ?G {#}" using get_cred_inv [OF i] by blast
    then show ?thesis using Op_get ptrs keeps_tasks [OF get_cred_keeps [OF s'(1)]] by (auto intro!: kinv)
  next
    case (Op_new_groups gi)
    then show ?thesis using ok add_group_info_inv [OF i] ptrs by (auto simp: add_group_info_def intro!: kinv)
  next
    case (Op_put_groups g)
    then obtain s' where "put_group_info g ?s = Some s'" "cred_inv s' ?H (?G - {#g#}) {#}" "same_but_infos ?s s'"
      using put_group_info_inv [OF gheld] ok by auto
    then show ?thesis using Op_put_groups ptrs same_but_infosD by (auto intro!: kinv)
  qed (use task_op_run_inv [OF inv ok] in blast)+
qed

lemma op_step_inv: "kstate_inv k \<Longrightarrow> op_step k l k' \<Longrightarrow> kstate_inv k'"
  using op_run_inv [of k l] by (auto simp: op_step_def)

interpretation cred: invariant_of "\<lambda>k. k = boot" op_step kstate_inv
  by unfold_locales (simp_all add: boot_inv op_step_inv)

text \<open>C22. Over every sequence of credential operations from boot, an operation that its caller may use
  returns: no \<open>BUG_ON\<close> and no access to a freed object. The usage count of every credential set is the number
  of task pointers and of local references to it, every task that has credentials has live ones with a
  live, sorted group list, and every user is charged with exactly the tasks that run as that user.\<close>

theorem creds_exact_and_live:
  assumes "reachable (\<lambda>k. k = boot) op_step k"
  shows "(\<forall>l. op_allowed l k \<longrightarrow> (\<exists>k'. op_run l k = Some k')) \<and>
    (\<forall>c cr. cred_at (ks k) c = Some cr \<longrightarrow> cr_usage cr = int (cred_refs (ks k) c + count (ks_held k) c)) \<and>
    (\<forall>t < length (tasks (ks k)). \<forall>c \<in> set_option (t_cred (tasks (ks k) ! t)) \<union> set_option (t_real_cred (tasks (ks k) ! t)).
       \<exists>cr gi. cred_at (ks k) c = Some cr \<and> gi_at (ks k) (cr_group_info cr) = Some gi \<and> sorted (groups_of gi)) \<and>
    (\<forall>u. processes (ks k) u = int (count_if (\<lambda>t. real_user (ks k) t = Some u) (tasks (ks k))))"
proof -
  have k: "kstate_inv k" using assms by (rule cred.reachable_inv)
  then have i: "cred_inv (ks k) (ks_held k) (ks_gi_held k) {#}" by (simp add: kstate_inv_def)
  have cnt: "counted cr_usage (cred_at (ks k) c) (cred_refs (ks k) c + count (ks_held k) c)" for c
    using i by (simp add: cred_inv_def creds_counted_def)
  have "cr_usage cr = int (cred_refs (ks k) c + count (ks_held k) c)" if "cred_at (ks k) c = Some cr" for c cr
    using cnt [of c] that by (simp add: counted_def)
  moreover have "\<exists>cr gi. cred_at (ks k) c = Some cr \<and> gi_at (ks k) (cr_group_info cr) = Some gi \<and> sorted (groups_of gi)"
    if "t < length (tasks (ks k))" "c \<in> set_option (t_cred (tasks (ks k) ! t)) \<union> set_option (t_real_cred (tasks (ks k) ! t))" for t c
    using task_cred_live [OF i that(1), of c] cred_group_live [OF i] that(2) by (metis Un_iff elem_set)
  moreover have "\<exists>k'. op_run l k = Some k'" if "op_allowed l k" for l using op_run_inv [OF k that] by blast
  moreover have "procs_counted (ks k) {#}" using i by (simp add: cred_inv_def)
  ultimately show ?thesis by (auto simp: procs_counted_def)
qed

text \<open>A run used as an example: the first task prepares new credentials and gives up all capabilities.\<close>

definition prepared :: kstate where
  "prepared = boot\<lparr>ks := (ks boot)\<lparr>creds := [Some init_cred, Some (init_cred\<lparr>cr_usage := 1\<rparr>)],
     infos := [Some (init_groups\<lparr>gi_usage := 3\<rparr>)]\<rparr>, ks_held := {#0, 0, 1#}\<rparr>"

lemma prepared_reachable: "reachable (\<lambda>k. k = boot) op_step prepared"
proof (rule reachable.step [OF reachable.start])
  show "boot = boot" ..
  show "op_step boot (Op_prepare 0 True True) prepared"
    by (simp add: op_step_def alive_def prepare_creds_def boot_def prepared_def task_at_def cred_at_def
        get_group_info_def gi_at_def set_gi_def init_cred_def init_groups_def)
qed

theorem creds_exact_and_live_witness:
  "(\<exists>k'. op_run (Op_commit 0 0 1) prepared = Some k') \<and> cred_refs (ks prepared) 0 = 2 \<and> processes (ks prepared) INIT_USER = 1"
proof -
  have "op_allowed (Op_commit 0 0 1) prepared" by (simp add: prepared_def boot_def alive_def)
  then have "\<exists>k'. op_run (Op_commit 0 0 1) prepared = Some k'" using creds_exact_and_live [OF prepared_reachable] by blast
  moreover have "cred_refs (ks prepared) 0 = 2" by (simp add: prepared_def boot_def cred_refs_def)
  moreover have "processes (ks prepared) INIT_USER = 1" by (simp add: prepared_def boot_def)
  ultimately show ?thesis by blast
qed

end
