(* ===== verification/Capability.thy ===== *)
theory Capability
  imports Cred
begin

text \<open>
  The capability module (\<open>security/commoncap.c\<close>), the set operations of \<open>include/linux/capability.h\<close>, the
  credential part of \<open>execve\<close> (\<open>prepare_binprm\<close> of \<open>fs/exec.c\<close>) and \<open>capset\<close>/\<open>capget\<close> (\<open>kernel/capability.c\<close>), as
  functions on credentials. The capability module is the only security module: \<open>security_capable\<close> is
  \<open>cap_capable\<close>, and so on for the other hooks. The accounting flag \<open>PF_SUPERPRIV\<close> and audit messages are left
  out; \<open>audit_log_bprm_fcaps\<close>, which may fail, is a parameter.
\<close>

subsection \<open>Capability sets\<close>

definition CAP_CHOWN :: nat where "CAP_CHOWN = 0"
definition CAP_DAC_OVERRIDE :: nat where "CAP_DAC_OVERRIDE = 1"
definition CAP_DAC_READ_SEARCH :: nat where "CAP_DAC_READ_SEARCH = 2"
definition CAP_FOWNER :: nat where "CAP_FOWNER = 3"
definition CAP_FSETID :: nat where "CAP_FSETID = 4"
definition CAP_SETGID :: nat where "CAP_SETGID = 6"
definition CAP_SETUID :: nat where "CAP_SETUID = 7"
definition CAP_SETPCAP :: nat where "CAP_SETPCAP = 8"
definition CAP_LINUX_IMMUTABLE :: nat where "CAP_LINUX_IMMUTABLE = 9"
definition CAP_SYS_PTRACE :: nat where "CAP_SYS_PTRACE = 19"
definition CAP_SYS_ADMIN :: nat where "CAP_SYS_ADMIN = 21"
definition CAP_SYS_NICE :: nat where "CAP_SYS_NICE = 23"
definition CAP_MKNOD :: nat where "CAP_MKNOD = 27"
definition CAP_SETFCAP :: nat where "CAP_SETFCAP = 31"
definition CAP_MAC_OVERRIDE :: nat where "CAP_MAC_OVERRIDE = 32"
definition CAP_LAST_CAP :: nat where "CAP_LAST_CAP = 35"

definition cap_mask :: "nat \<Rightarrow> kernel_cap_t" where "cap_mask n = push_bit n 1"

definition cap_valid :: "nat \<Rightarrow> bool" where "cap_valid n \<longleftrightarrow> n \<le> CAP_LAST_CAP"
definition cap_raised :: "kernel_cap_t \<Rightarrow> nat \<Rightarrow> bool" where "cap_raised c n \<longleftrightarrow> c AND cap_mask n \<noteq> 0"
definition cap_lower :: "kernel_cap_t \<Rightarrow> nat \<Rightarrow> kernel_cap_t" where "cap_lower c n = c AND NOT (cap_mask n)"
definition cap_combine :: "kernel_cap_t \<Rightarrow> kernel_cap_t \<Rightarrow> kernel_cap_t" where "cap_combine a b = a OR b"
definition cap_intersect :: "kernel_cap_t \<Rightarrow> kernel_cap_t \<Rightarrow> kernel_cap_t" where "cap_intersect a b = a AND b"
definition cap_drop :: "kernel_cap_t \<Rightarrow> kernel_cap_t \<Rightarrow> kernel_cap_t" where "cap_drop a b = a AND NOT b"
definition cap_isclear :: "kernel_cap_t \<Rightarrow> bool" where "cap_isclear a \<longleftrightarrow> a = 0"

definition CAP_FULL_SET :: kernel_cap_t where "CAP_FULL_SET = NOT 0"

definition CAP_FS_SET :: kernel_cap_t where
  "CAP_FS_SET = cap_mask CAP_CHOWN OR cap_mask CAP_MKNOD OR cap_mask CAP_DAC_OVERRIDE OR cap_mask CAP_DAC_READ_SEARCH
     OR cap_mask CAP_FOWNER OR cap_mask CAP_FSETID OR cap_mask CAP_LINUX_IMMUTABLE OR cap_mask CAP_MAC_OVERRIDE"

definition cap_drop_fs_set :: "kernel_cap_t \<Rightarrow> kernel_cap_t" where
  "cap_drop_fs_set a = cap_drop a CAP_FS_SET"

definition cap_raise_fs_set :: "kernel_cap_t \<Rightarrow> kernel_cap_t \<Rightarrow> kernel_cap_t" where
  "cap_raise_fs_set a permitted = cap_combine a (cap_intersect permitted CAP_FS_SET)"

subsection \<open>Secure bits\<close>

definition SECURE_NOROOT :: nat where "SECURE_NOROOT = 0"
definition SECURE_NO_SETUID_FIXUP :: nat where "SECURE_NO_SETUID_FIXUP = 2"
definition SECURE_KEEP_CAPS :: nat where "SECURE_KEEP_CAPS = 4"
definition SECURE_KEEP_CAPS_LOCKED :: nat where "SECURE_KEEP_CAPS_LOCKED = 5"

definition issecure_mask :: "nat \<Rightarrow> u32" where "issecure_mask x = push_bit x 1"

definition SECURE_ALL_BITS :: u32 where
  "SECURE_ALL_BITS = issecure_mask SECURE_NOROOT OR issecure_mask SECURE_NO_SETUID_FIXUP OR issecure_mask SECURE_KEEP_CAPS"

definition SECURE_ALL_LOCKS :: u32 where "SECURE_ALL_LOCKS = push_bit 1 SECURE_ALL_BITS"

text \<open>The macro reads the secure bits of the current task.\<close>

definition issecure :: "cred \<Rightarrow> nat \<Rightarrow> bool" where
  "issecure current_cred x \<longleftrightarrow> issecure_mask x AND securebits current_cred \<noteq> 0"

subsection \<open>Capability checks\<close>

fun cap_capable :: "cred \<Rightarrow> user_namespace \<Rightarrow> nat \<Rightarrow> errno option" where
  "cap_capable cr init_user_ns cap =
     (if init_user_ns = user_ns (cr_user cr) then (if cap_raised (cap_effective cr) cap then None else Some EPERM)
      else Some EPERM)"
| "cap_capable cr (child_user_ns i (user_struct ns u)) cap =
     (if user_struct ns u = cr_user cr then None
      else if child_user_ns i (user_struct ns u) = user_ns (cr_user cr)
      then (if cap_raised (cap_effective cr) cap then None else Some EPERM)
      else cap_capable cr ns cap)"

definition ns_capable :: "cred \<Rightarrow> user_namespace \<Rightarrow> nat \<Rightarrow> bool" where
  "ns_capable current_cred ns cap \<longleftrightarrow> cap_capable current_cred ns cap = None"

definition capable :: "cred \<Rightarrow> nat \<Rightarrow> bool" where
  "capable current_cred cap = ns_capable current_cred init_user_ns cap"

definition nsown_capable :: "cred \<Rightarrow> nat \<Rightarrow> bool" where
  "nsown_capable current_cred cap = ns_capable current_cred (user_ns (cr_user current_cred)) cap"

definition cap_ptrace_access_check :: "cred \<Rightarrow> cred \<Rightarrow> errno option" where
  "cap_ptrace_access_check cr child_cred =
     (if user_ns (cr_user cr) = user_ns (cr_user child_cred) \<and> cap_issubset (cap_permitted child_cred) (cap_permitted cr)
      then None
      else if ns_capable cr (user_ns (cr_user child_cred)) CAP_SYS_PTRACE then None
      else Some EPERM)"

definition cap_ptrace_traceme :: "cred \<Rightarrow> cred \<Rightarrow> errno option" where
  "cap_ptrace_traceme parent_cred child_cred =
     (if user_ns (cr_user parent_cred) = user_ns (cr_user child_cred) \<and>
         cap_issubset (cap_permitted child_cred) (cap_permitted parent_cred)
      then None
      else if cap_capable parent_cred (user_ns (cr_user child_cred)) CAP_SYS_PTRACE = None then None
      else Some EPERM)"

definition cap_safe_nice :: "cred \<Rightarrow> cred \<Rightarrow> errno option" where
  "cap_safe_nice current_cred p_cred =
     (if \<not> cap_issubset (cap_permitted p_cred) (cap_permitted current_cred) \<and> \<not> capable current_cred CAP_SYS_NICE
      then Some EPERM else None)"

subsection \<open>Setting capabilities\<close>

definition cap_inh_is_capped :: "cred \<Rightarrow> bool" where
  "cap_inh_is_capped current_cred \<longleftrightarrow> cap_capable current_cred (user_ns (cr_user current_cred)) CAP_SETPCAP \<noteq> None"

text \<open>\<open>cap_capset\<close>; \<open>old\<close> is the credentials of the current task.\<close>

definition cap_capset :: "cred \<Rightarrow> cred \<Rightarrow> kernel_cap_t \<Rightarrow> kernel_cap_t \<Rightarrow> kernel_cap_t \<Rightarrow> errno option \<times> cred" where
  "cap_capset new old effective inheritable permitted =
     (if cap_inh_is_capped old \<and>
         \<not> cap_issubset inheritable (cap_combine (cap_inheritable old) (cap_permitted old)) then (Some EPERM, new)
      else if \<not> cap_issubset inheritable (cap_combine (cap_inheritable old) (cap_bset old)) then (Some EPERM, new)
      else if \<not> cap_issubset permitted (cap_permitted old) then (Some EPERM, new)
      else if \<not> cap_issubset effective permitted then (Some EPERM, new)
      else (None, new\<lparr>cap_effective := effective, cap_inheritable := inheritable, cap_permitted := permitted\<rparr>))"

text \<open>
  The user interface of \<open>capget\<close> and \<open>capset\<close>: \<open>version\<close> is \<open>None\<close> when the header cannot be read. The result
  is the number of words to copy.
\<close>

definition LINUX_CAPABILITY_VERSION_1 :: u32 where "LINUX_CAPABILITY_VERSION_1 = 0x19980330"
definition LINUX_CAPABILITY_VERSION_2 :: u32 where "LINUX_CAPABILITY_VERSION_2 = 0x20071026"
definition LINUX_CAPABILITY_VERSION_3 :: u32 where "LINUX_CAPABILITY_VERSION_3 = 0x20080522"

text \<open>\<open>hdr_writable\<close> is whether the kernel's own version can be stored into the header.\<close>

definition cap_validate_magic :: "u32 option \<Rightarrow> bool \<Rightarrow> errno + nat" where
  "cap_validate_magic version hdr_writable =
     (case version of
        None \<Rightarrow> Inl EFAULT
      | Some v \<Rightarrow>
          if v = LINUX_CAPABILITY_VERSION_1 then Inr 1
          else if v = LINUX_CAPABILITY_VERSION_2 \<or> v = LINUX_CAPABILITY_VERSION_3 then Inr 2
          else if \<not> hdr_writable then Inl EFAULT else Inl EINVAL)"

text \<open>Words of a capability set and back.\<close>

definition cap_word :: "kernel_cap_t \<Rightarrow> nat \<Rightarrow> u32" where
  "cap_word c i = ucast (drop_bit (32 * i) c)"

definition cap_of_words :: "u32 list \<Rightarrow> kernel_cap_t" where
  "cap_of_words ws = (ucast (ws ! 0)) OR push_bit 32 (ucast (ws ! 1))"

text \<open>\<open>struct __user_cap_data_struct\<close>\<close>

record user_cap_data =
  u_effective :: u32
  u_permitted :: u32
  u_inheritable :: u32

definition capget_data :: "cred \<Rightarrow> nat \<Rightarrow> user_cap_data list" where
  "capget_data cr tocopy =
     map (\<lambda>i. \<lparr>u_effective = cap_word (cap_effective cr) i, u_permitted = cap_word (cap_permitted cr) i,
               u_inheritable = cap_word (cap_inheritable cr) i\<rparr>) [0 ..< tocopy]"

definition capset_sets :: "user_cap_data list \<Rightarrow> kernel_cap_t \<times> kernel_cap_t \<times> kernel_cap_t" where
  "capset_sets kdata =
     (let pad = (\<lambda>f. map f kdata @ replicate (2 - length kdata) 0) in
      (cap_of_words (pad u_effective), cap_of_words (pad u_inheritable), cap_of_words (pad u_permitted)))"

subsection \<open>set*uid\<close>

definition cap_emulate_setxuid :: "cred \<Rightarrow> cred \<Rightarrow> cred" where
  "cap_emulate_setxuid new old =
     (let new = (if (uid old = 0 \<or> euid old = 0 \<or> suid old = 0) \<and> uid new \<noteq> 0 \<and> euid new \<noteq> 0 \<and> suid new \<noteq> 0 \<and>
                    \<not> issecure old SECURE_KEEP_CAPS
                 then new\<lparr>cap_permitted := 0, cap_effective := 0\<rparr> else new);
          new = (if euid old = 0 \<and> euid new \<noteq> 0 then new\<lparr>cap_effective := 0\<rparr> else new) in
      if euid old \<noteq> 0 \<and> euid new = 0 then new\<lparr>cap_effective := cap_permitted new\<rparr> else new)"

datatype lsm_setid = LSM_SETID_ID | LSM_SETID_RE | LSM_SETID_RES | LSM_SETID_FS

text \<open>The default case of the switch cannot be reached: the callers pass one of the four flags.\<close>

definition cap_task_fix_setuid :: "cred \<Rightarrow> cred \<Rightarrow> lsm_setid \<Rightarrow> cred" where
  "cap_task_fix_setuid new old flags =
     (case flags of
        LSM_SETID_FS \<Rightarrow>
          if \<not> issecure old SECURE_NO_SETUID_FIXUP then
            let new = (if fsuid old = 0 \<and> fsuid new \<noteq> 0
                       then new\<lparr>cap_effective := cap_drop_fs_set (cap_effective new)\<rparr> else new) in
            if fsuid old \<noteq> 0 \<and> fsuid new = 0
            then new\<lparr>cap_effective := cap_raise_fs_set (cap_effective new) (cap_permitted new)\<rparr> else new
          else new
      | _ \<Rightarrow> if \<not> issecure old SECURE_NO_SETUID_FIXUP then cap_emulate_setxuid new old else new)"

subsection \<open>prctl\<close>

datatype prctl_op =
    PR_CAPBSET_READ | PR_CAPBSET_DROP | PR_SET_SECUREBITS | PR_GET_SECUREBITS | PR_GET_KEEPCAPS | PR_SET_KEEPCAPS
  | PR_OTHER

definition cap_prctl_drop :: "cred \<Rightarrow> cred \<Rightarrow> u32 \<Rightarrow> errno + cred" where
  "cap_prctl_drop current_cred new cap =
     (if \<not> capable current_cred CAP_SETPCAP then Inl EPERM
      else if \<not> cap_valid (unat cap) then Inl EINVAL
      else Inr (new\<lparr>cap_bset := cap_lower (cap_bset new) (unat cap)\<rparr>))"

text \<open>
  \<open>cap_task_prctl\<close> between \<open>prepare_creds\<close> and the end: \<open>Inl\<close> is the return value when \<open>new\<close> is aborted (an error or
  a value), \<open>Inr\<close> the credentials to commit.
\<close>

definition cap_task_prctl :: "cred \<Rightarrow> cred \<Rightarrow> prctl_op \<Rightarrow> u32 \<Rightarrow> (errno + u32) + cred" where
  "cap_task_prctl current_cred new option arg2 =
     (case option of
        PR_CAPBSET_READ \<Rightarrow>
          if \<not> cap_valid (unat arg2) then Inl (Inl EINVAL)
          else Inl (Inr (if cap_raised (cap_bset new) (unat arg2) then 1 else 0))
      | PR_CAPBSET_DROP \<Rightarrow> (case cap_prctl_drop current_cred new arg2 of Inl e \<Rightarrow> Inl (Inl e) | Inr c \<Rightarrow> Inr c)
      | PR_SET_SECUREBITS \<Rightarrow>
          if drop_bit 1 (securebits new AND SECURE_ALL_LOCKS) AND (securebits new XOR arg2) \<noteq> 0 \<or>
             securebits new AND SECURE_ALL_LOCKS AND NOT arg2 \<noteq> 0 \<or>
             arg2 AND NOT (SECURE_ALL_LOCKS OR SECURE_ALL_BITS) \<noteq> 0 \<or>
             cap_capable current_cred (user_ns (cr_user current_cred)) CAP_SETPCAP \<noteq> None
          then Inl (Inl EPERM)
          else Inr (new\<lparr>securebits := arg2\<rparr>)
      | PR_GET_SECUREBITS \<Rightarrow> Inl (Inr (securebits new))
      | PR_GET_KEEPCAPS \<Rightarrow> Inl (Inr (if issecure current_cred SECURE_KEEP_CAPS then 1 else 0))
      | PR_SET_KEEPCAPS \<Rightarrow>
          if 1 < arg2 then Inl (Inl EINVAL)
          else if issecure current_cred SECURE_KEEP_CAPS_LOCKED then Inl (Inl EPERM)
          else if arg2 \<noteq> 0 then Inr (new\<lparr>securebits := securebits new OR issecure_mask SECURE_KEEP_CAPS\<rparr>)
          else Inr (new\<lparr>securebits := securebits new AND NOT (issecure_mask SECURE_KEEP_CAPS)\<rparr>)
      | PR_OTHER \<Rightarrow> Inl (Inl ENOSYS))"

subsection \<open>Capabilities of files\<close>

text \<open>
  The extended attribute as the filesystem returns it: \<open>xattr_size\<close> is the result of \<open>getxattr\<close> (negative
  results are errors), the words are what it stored, in the byte order of the processor.
\<close>

record vfs_cap_data =
  x_magic_etc :: u32
  x_permitted :: "u32 list"
  x_inheritable :: "u32 list"

record cpu_vfs_cap_data =
  c_magic_etc :: u32
  c_permitted :: kernel_cap_t
  c_inheritable :: kernel_cap_t

definition VFS_CAP_REVISION_MASK :: u32 where "VFS_CAP_REVISION_MASK = 0xFF000000"
definition VFS_CAP_FLAGS_EFFECTIVE :: u32 where "VFS_CAP_FLAGS_EFFECTIVE = 1"
definition VFS_CAP_REVISION_1 :: u32 where "VFS_CAP_REVISION_1 = 0x01000000"
definition VFS_CAP_REVISION_2 :: u32 where "VFS_CAP_REVISION_2 = 0x02000000"

text \<open>\<open>xattr\<close> is \<open>None\<close> when the inode has no \<open>getxattr\<close> operation.\<close>

definition get_vfs_caps_from_disk :: "(errno + nat \<times> vfs_cap_data) option \<Rightarrow> errno + cpu_vfs_cap_data" where
  "get_vfs_caps_from_disk xattr =
     (case xattr of
        None \<Rightarrow> Inl ENODATA
      | Some (Inl e) \<Rightarrow> if e = ENODATA \<or> e = EOPNOTSUPP then Inl ENODATA else Inl e
      | Some (Inr (sz, caps)) \<Rightarrow>
          if sz < 4 then Inl EINVAL
          else
            let magic_etc = x_magic_etc caps;
                rev = magic_etc AND VFS_CAP_REVISION_MASK;
                word = (\<lambda>ws tocopy i. if i < tocopy then ws ! i else 0);
                fill = (\<lambda>tocopy. Inr \<lparr>c_magic_etc = magic_etc,
                          c_permitted = cap_of_words (map (word (x_permitted caps) tocopy) [0, 1]),
                          c_inheritable = cap_of_words (map (word (x_inheritable caps) tocopy) [0, 1])\<rparr>) in
            if rev = VFS_CAP_REVISION_1 then (if sz \<noteq> 12 then Inl EINVAL else fill (1 :: nat))
            else if rev = VFS_CAP_REVISION_2 then (if sz \<noteq> 20 then Inl EINVAL else fill 2)
            else Inl EINVAL)"

text \<open>
  \<open>struct linux_binprm\<close>, as far as the credentials go, with what is read from the file: the mode and owner of
  its inode, whether the mount allows set-id, and its capability attribute.
\<close>

record linux_binprm =
  bprm_cred :: cred
  bprm_unsafe :: u32
  bprm_cap_effective :: bool
  f_op_ok :: bool
  i_mode :: u16
  i_uid :: u32
  i_gid :: u32
  mnt_nosuid :: bool
  f_caps :: "(errno + nat \<times> vfs_cap_data) option"

definition bprm_clear_caps :: "linux_binprm \<Rightarrow> linux_binprm" where
  "bprm_clear_caps b = b\<lparr>bprm_cred := (bprm_cred b)\<lparr>cap_permitted := 0\<rparr>, bprm_cap_effective := False\<rparr>"

text \<open>The loop over the words of the sets works on whole sets here.\<close>

definition bprm_caps_from_vfs_caps ::
    "cpu_vfs_cap_data \<Rightarrow> cred \<Rightarrow> bool \<Rightarrow> bool \<Rightarrow> errno option \<times> cred \<times> bool \<times> bool" where
  "bprm_caps_from_vfs_caps caps new effective has_cap =
     (let effective = (c_magic_etc caps AND VFS_CAP_FLAGS_EFFECTIVE \<noteq> 0 \<or> effective);
          has_cap = (c_magic_etc caps AND VFS_CAP_REVISION_MASK \<noteq> 0 \<or> has_cap);
          new = new\<lparr>cap_permitted := (cap_bset new AND c_permitted caps) OR (cap_inheritable new AND c_inheritable caps)\<rparr>;
          ret = (if c_permitted caps AND NOT (cap_permitted new) \<noteq> 0 then Some EPERM else None) in
      (if effective then ret else None, new, effective, has_cap))"

definition get_file_caps :: "bool \<Rightarrow> linux_binprm \<Rightarrow> errno option \<times> linux_binprm \<times> bool \<times> bool" where
  "get_file_caps file_caps_enabled bprm =
     (let bprm = bprm_clear_caps bprm in
      if \<not> file_caps_enabled \<or> mnt_nosuid bprm then (None, bprm, False, False)
      else (case get_vfs_caps_from_disk (f_caps bprm) of
              Inl e \<Rightarrow> if e = ENODATA then (None, bprm, False, False) else (Some e, bprm_clear_caps bprm, False, False)
            | Inr vcaps \<Rightarrow>
                (case bprm_caps_from_vfs_caps vcaps (bprm_cred bprm) False False of
                   (rc, new, effective, has_cap) \<Rightarrow>
                     let bprm = bprm\<lparr>bprm_cred := new\<rparr> in
                     (rc, if rc \<noteq> None then bprm_clear_caps bprm else bprm, effective, has_cap))))"

definition LSM_UNSAFE_PTRACE_CAP :: u32 where "LSM_UNSAFE_PTRACE_CAP = 4"

text \<open>
  \<open>old\<close> is the credentials of the current task; \<open>audit\<close> the result of \<open>audit_log_bprm_fcaps\<close>. The three parts:
  the override for root, the downgrade of a traced or shared process, and the end of the function.
\<close>

definition bprm_root_override :: "cred \<Rightarrow> cred \<Rightarrow> bool \<Rightarrow> bool \<Rightarrow> cred \<times> bool" where
  "bprm_root_override old new effective has_cap =
     (if \<not> issecure old SECURE_NOROOT then
        if has_cap \<and> uid new \<noteq> 0 \<and> euid new = 0 then (new, effective)
        else
          let new = (if euid new = 0 \<or> uid new = 0
                     then new\<lparr>cap_permitted := cap_combine (cap_bset old) (cap_inheritable old)\<rparr> else new) in
          (new, if euid new = 0 then True else effective)
      else (new, effective))"

definition bprm_downgrade :: "cred \<Rightarrow> cred \<Rightarrow> u32 \<Rightarrow> cred" where
  "bprm_downgrade old new unsafe =
     (if (euid new \<noteq> uid old \<or> egid new \<noteq> gid old \<or> \<not> cap_issubset (cap_permitted new) (cap_permitted old)) \<and>
         unsafe AND NOT LSM_UNSAFE_PTRACE_CAP \<noteq> 0
      then
        let new = (if \<not> capable old CAP_SETUID then new\<lparr>euid := uid new, egid := gid new\<rparr> else new) in
        new\<lparr>cap_permitted := cap_intersect (cap_permitted new) (cap_permitted old)\<rparr>
      else new)"

definition cap_bprm_set_creds :: "bool \<Rightarrow> errno option \<Rightarrow> cred \<Rightarrow> linux_binprm \<Rightarrow> errno option \<times> linux_binprm" where
  "cap_bprm_set_creds file_caps_enabled audit old bprm =
     (case get_file_caps file_caps_enabled bprm of
        (Some e, bprm, _) \<Rightarrow> (Some e, bprm)
      | (None, bprm, effective, has_cap) \<Rightarrow>
          let (new, effective) = bprm_root_override old (bprm_cred bprm) effective has_cap;
              new = bprm_downgrade old new (bprm_unsafe bprm);
              new = new\<lparr>suid := euid new, fsuid := euid new, sgid := egid new, fsgid := egid new\<rparr>;
              new = new\<lparr>cap_effective := (if effective then cap_permitted new else 0)\<rparr>;
              bprm = bprm\<lparr>bprm_cred := new, bprm_cap_effective := effective\<rparr>;
              ret = (if \<not> cap_isclear (cap_effective new) \<and>
                        (\<not> cap_issubset CAP_FULL_SET (cap_effective new) \<or> euid new \<noteq> 0 \<or> uid new \<noteq> 0 \<or>
                         issecure old SECURE_NOROOT)
                     then audit else None) in
          case ret of
            Some e \<Rightarrow> (Some e, bprm)
          | None \<Rightarrow> (None, bprm\<lparr>bprm_cred := new\<lparr>securebits := securebits new AND NOT (issecure_mask SECURE_KEEP_CAPS)\<rparr>\<rparr>))"

definition cap_bprm_secureexec :: "cred \<Rightarrow> bool \<Rightarrow> bool" where
  "cap_bprm_secureexec cr cap_eff =
     (if uid cr \<noteq> 0 \<and> (cap_eff \<or> \<not> cap_isclear (cap_permitted cr)) then True
      else euid cr \<noteq> uid cr \<or> egid cr \<noteq> gid cr)"

subsection \<open>The credentials of a new program\<close>

definition S_ISUID :: u16 where "S_ISUID = 0x800"
definition S_ISGID :: u16 where "S_ISGID = 0x400"
definition S_IXGRP :: u16 where "S_IXGRP = 0x8"

definition prepare_binprm :: "bool \<Rightarrow> errno option \<Rightarrow> cred \<Rightarrow> linux_binprm \<Rightarrow> errno option \<times> linux_binprm" where
  "prepare_binprm file_caps_enabled audit current_cred bprm =
     (if \<not> f_op_ok bprm then (Some EACCES, bprm)
      else
        let new = (bprm_cred bprm)\<lparr>euid := euid current_cred, egid := egid current_cred\<rparr>;
            new = (if \<not> mnt_nosuid bprm \<and> i_mode bprm AND S_ISUID \<noteq> 0 then new\<lparr>euid := i_uid bprm\<rparr> else new);
            new = (if \<not> mnt_nosuid bprm \<and> i_mode bprm AND (S_ISGID OR S_IXGRP) = S_ISGID OR S_IXGRP
                   then new\<lparr>egid := i_gid bprm\<rparr> else new) in
        cap_bprm_set_creds file_caps_enabled audit current_cred (bprm\<lparr>bprm_cred := new\<rparr>))"


subsection \<open>Sets as sets of bits\<close>

lemma cap_issubset_iff: "cap_issubset a b \<longleftrightarrow> (\<forall>n. bit a n \<longrightarrow> bit b n)"
proof -
  have "a AND NOT b = 0 \<longleftrightarrow> (\<forall>n < 64. bit a n \<longrightarrow> bit b n)"
    by (auto simp: bit_eq_iff bit_and_iff bit_not_iff)
  moreover have "bit a n \<Longrightarrow> n < 64" for n using bit_imp_le_length [of a n] by simp
  ultimately show ?thesis unfolding cap_issubset_def by blast
qed

lemma cap_raised_iff: "cap_raised c n \<longleftrightarrow> bit c n"
proof -
  have "c AND cap_mask n = 0 \<longleftrightarrow> (\<forall>m. \<not> bit (c AND cap_mask n) m)" by (auto intro!: bit_eqI)
  moreover have "bit c n \<Longrightarrow> n < 64" using bit_imp_le_length [of c n] by simp
  ultimately show ?thesis by (auto simp: cap_raised_def cap_mask_def bit_and_iff bit_exp_iff)
qed

lemmas cap_set_defs = cap_combine_def cap_intersect_def cap_drop_def cap_drop_fs_set_def cap_raise_fs_set_def cap_lower_def

lemma secure_mask_bit: "bit (issecure_mask x) n \<longleftrightarrow> n = x \<and> n < 32"
  by (auto simp: issecure_mask_def bit_exp_iff)

lemma issecure_iff: "issecure cr x \<longleftrightarrow> bit (securebits cr) x" if "x < 32"
proof -
  have "issecure_mask x AND securebits cr = 0 \<longleftrightarrow> (\<forall>n. \<not> bit (issecure_mask x AND securebits cr) n)"
    by (auto intro!: bit_eqI)
  then show ?thesis unfolding issecure_def using that by (auto simp: bit_and_iff secure_mask_bit)
qed

lemma secure_all_bits: "bit SECURE_ALL_BITS n \<longleftrightarrow> n \<in> {0, 2, 4}" "bit SECURE_ALL_LOCKS n \<longleftrightarrow> n \<in> {1, 3, 5}"
proof -
  show *: "bit SECURE_ALL_BITS n \<longleftrightarrow> n \<in> {0, 2, 4}" for n
    by (auto simp: SECURE_ALL_BITS_def bit_or_iff secure_mask_bit SECURE_NOROOT_def SECURE_NO_SETUID_FIXUP_def SECURE_KEEP_CAPS_def)
  show "bit SECURE_ALL_LOCKS n \<longleftrightarrow> n \<in> {1, 3, 5}"
    unfolding SECURE_ALL_LOCKS_def bit_push_bit_iff * by (cases n) auto
qed

subsection \<open>What a process can get\<close>

text \<open>
  The ways the capability sets of a task change: \<open>capset\<close>, the fix-up after a change of user ids (which leaves
  the sets and secure bits of the prepared credentials alone), \<open>prctl\<close>, and a new program. For the last,
  the credentials in preparation may already have been through \<open>prepare_binprm\<close> for a script.
\<close>

inductive cap_step :: "cred \<Rightarrow> unit \<Rightarrow> cred \<Rightarrow> bool" where
  capset: "cap_capset old old e i p = (None, new) \<Longrightarrow> cap_step old () new"
| setid: "\<lbrakk>cap_permitted new = cap_permitted old; cap_effective new = cap_effective old; cap_inheritable new = cap_inheritable old;
     cap_bset new = cap_bset old; securebits new = securebits old\<rbrakk> \<Longrightarrow> cap_step old () (cap_task_fix_setuid new old flags)"
| prctl: "cap_task_prctl old old op arg = Inr new \<Longrightarrow> cap_step old () new"
| exec: "\<lbrakk>cap_inheritable (bprm_cred bprm) = cap_inheritable old; cap_bset (bprm_cred bprm) = cap_bset old;
     securebits (bprm_cred bprm) = securebits old \<or> securebits (bprm_cred bprm) = securebits old AND NOT (issecure_mask SECURE_KEEP_CAPS);
     prepare_binprm enabled audit old bprm = (None, bprm')\<rbrakk> \<Longrightarrow> cap_step old () (bprm_cred bprm')"

text \<open>The secure bits 0 and 2 with their locks; bit 4 is cleared by every exec, locked or not.\<close>

definition locks_kept :: "u32 \<Rightarrow> u32 \<Rightarrow> bool" where
  "locks_kept a b \<longleftrightarrow>
     (\<forall>x \<in> {0, 2}. bit a (Suc x) \<longrightarrow> bit b (Suc x) \<and> bit b x = bit a x) \<and> (bit a 5 \<longrightarrow> bit b 5)"

definition caps_bounded :: "cred \<Rightarrow> cred \<Rightarrow> bool" where
  "caps_bounded cr0 cr \<longleftrightarrow>
     cap_issubset (cap_effective cr) (cap_permitted cr) \<and>
     cap_issubset (cap_bset cr) (cap_bset cr0) \<and>
     cap_issubset (cap_inheritable cr) (cap_combine (cap_inheritable cr0) (cap_bset cr0)) \<and>
     cap_issubset (cap_permitted cr) (cap_combine (cap_permitted cr0) (cap_combine (cap_inheritable cr0) (cap_bset cr0))) \<and>
     locks_kept (securebits cr0) (securebits cr)"

lemma locks_kept_refl [simp]: "locks_kept a a"
  by (simp add: locks_kept_def)

lemma locks_kept_trans: "locks_kept a b \<Longrightarrow> locks_kept b c \<Longrightarrow> locks_kept a c"
  by (auto simp: locks_kept_def)

lemma locks_kept_keep_caps:
  "locks_kept a (a AND NOT (issecure_mask SECURE_KEEP_CAPS))" "locks_kept a (a OR issecure_mask SECURE_KEEP_CAPS)"
  by (auto simp: locks_kept_def bit_and_iff bit_or_iff bit_not_iff secure_mask_bit SECURE_KEEP_CAPS_def)

lemma locks_kept_set:
  assumes "drop_bit 1 (a AND SECURE_ALL_LOCKS) AND (a XOR b) = 0" "a AND SECURE_ALL_LOCKS AND NOT b = 0"
  shows "locks_kept a b"
proof -
  have "\<not> bit (drop_bit 1 (a AND SECURE_ALL_LOCKS) AND (a XOR b)) n" "\<not> bit (a AND SECURE_ALL_LOCKS AND NOT b) n" for n
    using assms by simp_all
  then have "bit a (Suc n) \<Longrightarrow> n \<in> {0, 2, 4} \<Longrightarrow> bit a n = bit b n" "bit a n \<Longrightarrow> n \<in> {1, 3, 5} \<Longrightarrow> bit b n" if "n < 32" for n
    using that by (auto simp: bit_and_iff bit_drop_bit_eq bit_xor_iff bit_not_iff secure_all_bits)
  from this [of 0] this [of 1] this [of 2] this [of 3] this [of 5] show ?thesis
    by (simp add: locks_kept_def eval_nat_numeral)
qed

lemma prctl_locks: "cap_task_prctl cur new op arg = Inr new' \<Longrightarrow> locks_kept (securebits new) (securebits new')"
  by (auto simp: cap_task_prctl_def cap_prctl_drop_def locks_kept_keep_caps split: prctl_op.splits if_splits sum.splits
      intro: locks_kept_set)

text \<open>The sets that one step can reach, relative to the step before.\<close>

lemma capset_sets_bounded:
  assumes "cap_capset new old e i p = (None, new')"
  shows "cap_issubset (cap_effective new') (cap_permitted new')" "cap_issubset (cap_permitted new') (cap_permitted old)"
    "cap_issubset (cap_inheritable new') (cap_combine (cap_inheritable old) (cap_bset old))"
    "cap_bset new' = cap_bset new" "securebits new' = securebits new"
  using assms by (auto simp: cap_capset_def split: if_splits)

lemma fix_setuid_bounded:
  assumes "cap_issubset (cap_effective new) (cap_permitted new)"
  shows "cap_issubset (cap_effective (cap_task_fix_setuid new old flags)) (cap_permitted (cap_task_fix_setuid new old flags))"
    "cap_issubset (cap_permitted (cap_task_fix_setuid new old flags)) (cap_permitted new)"
    "cap_inheritable (cap_task_fix_setuid new old flags) = cap_inheritable new"
    "cap_bset (cap_task_fix_setuid new old flags) = cap_bset new"
    "securebits (cap_task_fix_setuid new old flags) = securebits new"
  using assms
  by (auto simp: cap_task_fix_setuid_def cap_emulate_setxuid_def Let_def cap_issubset_iff cap_set_defs bit_and_iff bit_or_iff bit_not_iff
      split: lsm_setid.splits if_splits)

lemma prctl_bounded:
  assumes "cap_task_prctl cur new op arg = Inr new'"
  shows "cap_effective new' = cap_effective new" "cap_permitted new' = cap_permitted new"
    "cap_inheritable new' = cap_inheritable new" "cap_issubset (cap_bset new') (cap_bset new)"
  using assms
  by (auto simp: cap_task_prctl_def cap_prctl_drop_def cap_issubset_iff cap_lower_def bit_and_iff
      split: prctl_op.splits if_splits sum.splits)

lemma get_file_caps_bounded:
  assumes "get_file_caps enabled bprm = (rc, bprm', eff, has)"
  shows "cap_issubset (cap_permitted (bprm_cred bprm')) (cap_combine (cap_inheritable (bprm_cred bprm)) (cap_bset (bprm_cred bprm)))"
    "bprm_cred bprm' = (bprm_cred bprm)\<lparr>cap_permitted := cap_permitted (bprm_cred bprm')\<rparr>" "bprm_unsafe bprm' = bprm_unsafe bprm"
  using assms
  by (auto simp: get_file_caps_def bprm_clear_caps_def bprm_caps_from_vfs_caps_def Let_def cap_issubset_iff cap_set_defs
      bit_and_iff bit_or_iff split: if_splits sum.splits prod.splits)

lemma root_override_bounded:
  assumes "bprm_root_override old new eff has = (new', eff')"
  shows "cap_issubset (cap_permitted new') (cap_combine (cap_permitted new) (cap_combine (cap_inheritable old) (cap_bset old)))"
    "new' = new\<lparr>cap_permitted := cap_permitted new'\<rparr>"
  using assms by (auto simp: bprm_root_override_def Let_def cap_issubset_iff cap_set_defs bit_or_iff split: if_splits)

lemma downgrade_bounded:
  "cap_issubset (cap_permitted (bprm_downgrade old new unsafe)) (cap_permitted new)"
  "cap_inheritable (bprm_downgrade old new unsafe) = cap_inheritable new" "cap_bset (bprm_downgrade old new unsafe) = cap_bset new"
  "securebits (bprm_downgrade old new unsafe) = securebits new"
  by (simp_all add: bprm_downgrade_def Let_def cap_issubset_iff cap_set_defs bit_and_iff)


lemma bprm_set_creds_bounded:
  assumes "cap_bprm_set_creds enabled audit old bprm = (None, bprm')"
  defines "new' \<equiv> bprm_cred bprm'"
  shows "cap_issubset (cap_effective new') (cap_permitted new')"
    "cap_issubset (cap_permitted new') (cap_combine (cap_combine (cap_inheritable (bprm_cred bprm)) (cap_bset (bprm_cred bprm)))
       (cap_combine (cap_inheritable old) (cap_bset old)))"
    "cap_inheritable new' = cap_inheritable (bprm_cred bprm)" "cap_bset new' = cap_bset (bprm_cred bprm)"
    "securebits new' = securebits (bprm_cred bprm) AND NOT (issecure_mask SECURE_KEEP_CAPS)"
proof -
  obtain rc b eff has where fc: "get_file_caps enabled bprm = (rc, b, eff, has)" by (metis prod_cases4)
  obtain new eff' where ro: "bprm_root_override old (bprm_cred b) eff has = (new, eff')" by fastforce
  let ?d = "bprm_downgrade old new (bprm_unsafe b)"
  have rc: "rc = None" using assms(1) fc by (auto simp: cap_bprm_set_creds_def split: option.splits)
  have new': "cap_effective new' = (if eff' then cap_permitted ?d else 0)" "cap_permitted new' = cap_permitted ?d"
    "cap_inheritable new' = cap_inheritable ?d" "cap_bset new' = cap_bset ?d"
    "securebits new' = securebits ?d AND NOT (issecure_mask SECURE_KEEP_CAPS)"
    using assms(1) fc ro rc by (auto simp: new'_def cap_bprm_set_creds_def Let_def split: option.splits if_splits)
  note b = get_file_caps_bounded [OF fc] and r = root_override_bounded [OF ro] and d = downgrade_bounded [of old new "bprm_unsafe b"]
  show "cap_issubset (cap_effective new') (cap_permitted new')" by (simp add: new' cap_issubset_iff)
  show "cap_issubset (cap_permitted new') (cap_combine (cap_combine (cap_inheritable (bprm_cred bprm)) (cap_bset (bprm_cred bprm)))
       (cap_combine (cap_inheritable old) (cap_bset old)))"
    using b(1) r(1) d(1) unfolding new' by (fastforce simp: cap_issubset_iff cap_combine_def bit_or_iff)
  have "cap_inheritable new = cap_inheritable (bprm_cred bprm)" "cap_bset new = cap_bset (bprm_cred bprm)"
    "securebits new = securebits (bprm_cred bprm)"
    using arg_cong [OF r(2), of cap_inheritable] arg_cong [OF b(2), of cap_inheritable] arg_cong [OF r(2), of cap_bset]
      arg_cong [OF b(2), of cap_bset] arg_cong [OF r(2), of securebits] arg_cong [OF b(2), of securebits] by simp_all
  then show "cap_inheritable new' = cap_inheritable (bprm_cred bprm)" "cap_bset new' = cap_bset (bprm_cred bprm)"
    "securebits new' = securebits (bprm_cred bprm) AND NOT (issecure_mask SECURE_KEEP_CAPS)"
    by (simp_all add: new' d)
qed

lemma prepare_binprm_bounded:
  assumes "prepare_binprm enabled audit old bprm = (None, bprm')"
  obtains b where "cap_bprm_set_creds enabled audit old b = (None, bprm')"
    "cap_inheritable (bprm_cred b) = cap_inheritable (bprm_cred bprm)" "cap_bset (bprm_cred b) = cap_bset (bprm_cred bprm)"
    "securebits (bprm_cred b) = securebits (bprm_cred bprm)"
  using assms by (auto simp: prepare_binprm_def Let_def split: if_splits)

lemma cap_step_bounded:
  assumes "caps_bounded cr0 old" "cap_step old l new"
  shows "caps_bounded cr0 new"
  using assms(2)
proof cases
  case (capset e i p)
  note b = capset_sets_bounded [OF capset(2)]
  show ?thesis using b assms(1) by (auto simp: caps_bounded_def cap_issubset_iff cap_combine_def bit_or_iff)
next
  case (setid new' flags)
  then have "cap_issubset (cap_effective new') (cap_permitted new')" using assms(1) by (simp add: caps_bounded_def)
  from fix_setuid_bounded [OF this] show ?thesis using assms(1) setid by (auto simp: caps_bounded_def cap_issubset_iff)
next
  case (prctl op arg)
  note b = prctl_bounded [OF prctl(2)] prctl_locks [OF prctl(2)]
  show ?thesis using b assms(1) by (auto simp: caps_bounded_def cap_issubset_iff intro: locks_kept_trans)
next
  case (exec bprm enabled audit bprm')
  obtain b where b: "cap_bprm_set_creds enabled audit old b = (None, bprm')"
    "cap_inheritable (bprm_cred b) = cap_inheritable old" "cap_bset (bprm_cred b) = cap_bset old"
    "securebits (bprm_cred b) = securebits (bprm_cred bprm)" using prepare_binprm_bounded [OF exec(6)] exec by metis
  note c = bprm_set_creds_bounded [OF b(1)]
  have "securebits new = securebits old AND NOT (issecure_mask SECURE_KEEP_CAPS)" using c(5) b(4) exec by (auto simp: and.assoc)
  then have "locks_kept (securebits old) (securebits new)" using locks_kept_keep_caps by simp
  then show ?thesis using c(1-4) b exec(2) assms(1) locks_kept_trans
    by (auto simp: caps_bounded_def cap_issubset_iff cap_combine_def bit_or_iff)
qed

lemma caps_bounded_start: "cap_issubset (cap_effective cr) (cap_permitted cr) \<Longrightarrow> caps_bounded cr cr"
  by (auto simp: caps_bounded_def cap_issubset_iff cap_combine_def bit_or_iff)

interpretation caps: invariant_of "\<lambda>cr. cr = cr0 \<and> cap_issubset (cap_effective cr0) (cap_permitted cr0)" cap_step "caps_bounded cr0"
  for cr0
  by unfold_locales (auto intro: caps_bounded_start cap_step_bounded)



text \<open>A run used as an example: the first process becomes user 1000.\<close>

definition as_user :: cred where
  "as_user = init_cred\<lparr>uid := 1000, euid := 1000, suid := 1000, fsuid := 1000\<rparr>"

lemma as_user_reachable:
  "reachable (\<lambda>cr. cr = init_cred \<and> cap_issubset (cap_effective init_cred) (cap_permitted init_cred)) cap_step
     (cap_task_fix_setuid as_user init_cred LSM_SETID_ID)"
proof (rule reachable.step [OF reachable.start])
  show "init_cred = init_cred \<and> cap_issubset (cap_effective init_cred) (cap_permitted init_cred)"
    by (simp add: cap_issubset_def init_cred_def)
  show "cap_step init_cred () (cap_task_fix_setuid as_user init_cred LSM_SETID_ID)"
    by (rule cap_step.setid) (simp_all add: as_user_def)
qed


subsection \<open>Checks in the namespace of the caller\<close>

text \<open>The creator of a namespace is not one of its users, so a task has in its own namespace what it has raised.\<close>

lemma size_creator: "size (user_ns u) < size u" "ns \<noteq> init_user_ns \<Longrightarrow> size (ns_creator ns) < size ns"
  by (cases u; simp) (cases ns; simp)

lemma creator_outside: "user_struct ns u \<noteq> v" if "user_ns v = child_user_ns i (user_struct ns u)"
  using that size_creator(1) [of v] by (cases v) (auto dest: arg_cong [of _ _ size])

lemma cap_capable_own: "cap_capable cr (user_ns (cr_user cr)) cap = (if cap_raised (cap_effective cr) cap then None else Some EPERM)"
proof (cases "user_ns (cr_user cr)")
  case (child_user_ns i c)
  then show ?thesis using creator_outside [of "cr_user cr" i] by (cases c) auto
qed simp

lemma nsown_capable_iff: "nsown_capable cr cap \<longleftrightarrow> cap_raised (cap_effective cr) cap"
  by (simp add: nsown_capable_def ns_capable_def cap_capable_own)

subsection \<open>The user interface\<close>

lemma cap_words_round: "cap_of_words [cap_word c 0, cap_word c 1] = c"
proof (rule bit_eqI)
  fix n
  assume "possible_bit TYPE(64 word) n"
  then have "n < 64" by simp
  then show "bit (cap_of_words [cap_word c 0, cap_word c 1]) n = bit c n"
    by (cases "n < 32") (auto simp: cap_of_words_def cap_word_def bit_or_iff bit_push_bit_iff bit_ucast_iff bit_drop_bit_eq)
qed

text \<open>What \<open>capget\<close> returns with a current version, \<open>capset\<close> reads back; an old program loses the upper word.\<close>

lemma capget_capset_round:
  "capset_sets (capget_data cr 2) = (cap_effective cr, cap_inheritable cr, cap_permitted cr)"
proof -
  have "[0 ..< 2] = [0, 1 :: nat]" by (simp add: upt_rec)
  then show ?thesis by (simp add: capset_sets_def capget_data_def cap_words_round [unfolded One_nat_def])
qed

text \<open>
  The comment above \<open>sys_capset\<close> says that raised inheritable capabilities must be a subset of the old
  permitted set. With \<open>CAP_SETPCAP\<close> the code only asks for the bounding set.
\<close>

definition setpcap_only :: cred where
  "setpcap_only = init_cred\<lparr>cap_permitted := cap_mask CAP_SETPCAP, cap_effective := cap_mask CAP_SETPCAP\<rparr>"

lemma capset_raises_inheritable_beyond_permitted:
  "\<exists>new. cap_capset setpcap_only setpcap_only (cap_mask CAP_SETPCAP) (cap_mask CAP_CHOWN) (cap_mask CAP_SETPCAP) = (None, new) \<and>
     \<not> cap_issubset (cap_inheritable new) (cap_permitted setpcap_only)"
proof -
  have "cap_raised (cap_effective setpcap_only) CAP_SETPCAP"
    by (simp add: setpcap_only_def cap_raised_iff cap_mask_def bit_exp_iff CAP_SETPCAP_def)
  then have "\<not> cap_inh_is_capped setpcap_only" by (simp add: cap_inh_is_capped_def cap_capable_own)
  then show ?thesis
    by (simp add: cap_capset_def setpcap_only_def init_cred_def cap_issubset_def cap_combine_def cap_mask_def CAP_CHOWN_def
        CAP_SETPCAP_def)
qed

end
