(* ===== verification/Set_Ids.thy ===== *)
theory Set_Ids
  imports Capability Cred_Protocol
begin

text \<open>
  The system calls that change the ids of a task (\<open>kernel/sys.c\<close>) and its capabilities (\<open>kernel/capability.c\<close>),
  its supplementary groups (\<open>kernel/groups.c\<close>), and the membership tests on them. Every call prepares new
  credentials, changes them and commits or aborts them; the part in between is a function on credentials, and
  \<open>with_new_creds\<close> is the frame around it.
\<close>

subsection \<open>Environment of a call\<close>

text \<open>
  Whether allocations succeed, the limit \<open>RLIMIT_NPROC\<close> of the task, the setting \<open>suid_dumpable\<close>, and the pages
  and slab object that \<open>groups_alloc\<close> would get.
\<close>

record call_env =
  env_cred_alloc :: bool
  env_cred_lsm :: bool
  env_user_alloc :: bool
  env_nproc :: int
  env_suid_dumpable :: u32
  env_kmalloc :: "u32 list option"
  env_page :: "nat \<Rightarrow> u32 list option"

definition PF_NPROC_EXCEEDED :: u32 where "PF_NPROC_EXCEEDED = 0x1000"

text \<open>\<open>(uid_t) -1\<close> stands for an id that is to stay as it is.\<close>

definition no_id :: u32 where "no_id = - 1"

text \<open>
  \<open>set_user\<close>: the user structure for the new real uid in the namespace of the caller. The process flags
  record whether the user is over its limit.
\<close>

definition set_user :: "call_env \<Rightarrow> (user_struct \<Rightarrow> int) \<Rightarrow> cred \<Rightarrow> cred \<Rightarrow> u32 \<Rightarrow> errno option \<times> cred \<times> u32" where
  "set_user env procs old new flags =
     (if \<not> env_user_alloc env then (Some EAGAIN, new, flags)
      else
        let new_user = user_struct (user_ns (cr_user old)) (uid new);
            flags = (if env_nproc env \<le> procs new_user \<and> new_user \<noteq> INIT_USER
                     then flags OR PF_NPROC_EXCEEDED else flags AND NOT PF_NPROC_EXCEEDED) in
        (None, new\<lparr>cr_user := new_user\<rparr>, flags))"

subsection \<open>The bodies\<close>

text \<open>
  A body gets the old credentials, the prepared copy and the process flags, and returns the error or \<open>None\<close>, the
  changed copy and the flags. \<open>setreuid\<close> and the others store an id before they check it; the copy is then
  thrown away.
\<close>

type_synonym cred_body = "(user_struct \<Rightarrow> int) \<Rightarrow> cred \<Rightarrow> cred \<Rightarrow> u32 \<Rightarrow> errno option \<times> cred \<times> u32"

definition setregid_body :: "u32 \<Rightarrow> u32 \<Rightarrow> cred_body" where
  "setregid_body rgid egid' procs old new fl =
     (if rgid \<noteq> no_id \<and> \<not> (gid old = rgid \<or> egid old = rgid \<or> nsown_capable old CAP_SETGID) then (Some EPERM, new, fl)
      else
        let new = new\<lparr>gid := (if rgid \<noteq> no_id then rgid else gid new)\<rparr> in
        if egid' \<noteq> no_id \<and> \<not> (gid old = egid' \<or> egid old = egid' \<or> sgid old = egid' \<or> nsown_capable old CAP_SETGID)
        then (Some EPERM, new, fl)
        else
          let new = new\<lparr>egid := (if egid' \<noteq> no_id then egid' else egid new)\<rparr>;
              new = new\<lparr>sgid := (if rgid \<noteq> no_id \<or> egid' \<noteq> no_id \<and> egid' \<noteq> gid old then egid new else sgid new)\<rparr> in
          (None, new\<lparr>fsgid := egid new\<rparr>, fl))"

definition setgid_body :: "u32 \<Rightarrow> cred_body" where
  "setgid_body gid' procs old new fl =
     (if nsown_capable old CAP_SETGID then (None, new\<lparr>gid := gid', egid := gid', sgid := gid', fsgid := gid'\<rparr>, fl)
      else if gid' = gid old \<or> gid' = sgid old then (None, new\<lparr>egid := gid', fsgid := gid'\<rparr>, fl)
      else (Some EPERM, new, fl))"

definition fix_setuid :: "lsm_setid \<Rightarrow> cred \<Rightarrow> cred \<Rightarrow> u32 \<Rightarrow> errno option \<times> cred \<times> u32" where
  "fix_setuid flags old new fl = (None, cap_task_fix_setuid new old flags, fl)"

definition setreuid_body :: "call_env \<Rightarrow> u32 \<Rightarrow> u32 \<Rightarrow> cred_body" where
  "setreuid_body env ruid euid' procs old new fl =
     (let new = new\<lparr>uid := (if ruid \<noteq> no_id then ruid else uid new)\<rparr> in
      if ruid \<noteq> no_id \<and> uid old \<noteq> ruid \<and> euid old \<noteq> ruid \<and> \<not> nsown_capable old CAP_SETUID then (Some EPERM, new, fl)
      else
        let new = new\<lparr>euid := (if euid' \<noteq> no_id then euid' else euid new)\<rparr> in
        if euid' \<noteq> no_id \<and> uid old \<noteq> euid' \<and> euid old \<noteq> euid' \<and> suid old \<noteq> euid' \<and> \<not> nsown_capable old CAP_SETUID
        then (Some EPERM, new, fl)
        else
          case (if uid new \<noteq> uid old then set_user env procs old new fl else (None, new, fl)) of
            (Some e, new, fl) \<Rightarrow> (Some e, new, fl)
          | (None, new, fl) \<Rightarrow>
              let new = new\<lparr>suid := (if ruid \<noteq> no_id \<or> euid' \<noteq> no_id \<and> euid' \<noteq> uid old then euid new else suid new)\<rparr>;
                  new = new\<lparr>fsuid := euid new\<rparr> in
              fix_setuid LSM_SETID_RE old new fl)"

definition setuid_body :: "call_env \<Rightarrow> u32 \<Rightarrow> cred_body" where
  "setuid_body env uid' procs old new fl =
     (let r = (if nsown_capable old CAP_SETUID then
                 let new = new\<lparr>suid := uid', uid := uid'\<rparr> in
                 if uid' \<noteq> uid old then set_user env procs old new fl else (None, new, fl)
               else if uid' \<noteq> uid old \<and> uid' \<noteq> suid new then (Some EPERM, new, fl)
               else (None, new, fl)) in
      case r of
        (Some e, new, fl) \<Rightarrow> (Some e, new, fl)
      | (None, new, fl) \<Rightarrow> fix_setuid LSM_SETID_ID old (new\<lparr>fsuid := uid', euid := uid'\<rparr>) fl)"

definition setresuid_body :: "call_env \<Rightarrow> u32 \<Rightarrow> u32 \<Rightarrow> u32 \<Rightarrow> cred_body" where
  "setresuid_body env ruid euid' suid' procs old new fl =
     (let bad = (\<lambda>i. i \<noteq> no_id \<and> i \<noteq> uid old \<and> i \<noteq> euid old \<and> i \<noteq> suid old) in
      if \<not> nsown_capable old CAP_SETUID \<and> (bad ruid \<or> bad euid' \<or> bad suid') then (Some EPERM, new, fl)
      else
        let r = (if ruid \<noteq> no_id then
                   let new = new\<lparr>uid := ruid\<rparr> in
                   if ruid \<noteq> uid old then set_user env procs old new fl else (None, new, fl)
                 else (None, new, fl)) in
        case r of
          (Some e, new, fl) \<Rightarrow> (Some e, new, fl)
        | (None, new, fl) \<Rightarrow>
            let new = new\<lparr>euid := (if euid' \<noteq> no_id then euid' else euid new)\<rparr>;
                new = new\<lparr>suid := (if suid' \<noteq> no_id then suid' else suid new)\<rparr>;
                new = new\<lparr>fsuid := euid new\<rparr> in
            fix_setuid LSM_SETID_RES old new fl)"

definition setresgid_body :: "u32 \<Rightarrow> u32 \<Rightarrow> u32 \<Rightarrow> cred_body" where
  "setresgid_body rgid egid' sgid' procs old new fl =
     (let bad = (\<lambda>i. i \<noteq> no_id \<and> i \<noteq> gid old \<and> i \<noteq> egid old \<and> i \<noteq> sgid old) in
      if \<not> nsown_capable old CAP_SETGID \<and> (bad rgid \<or> bad egid' \<or> bad sgid') then (Some EPERM, new, fl)
      else
        let new = new\<lparr>gid := (if rgid \<noteq> no_id then rgid else gid new)\<rparr>;
            new = new\<lparr>egid := (if egid' \<noteq> no_id then egid' else egid new)\<rparr>;
            new = new\<lparr>sgid := (if sgid' \<noteq> no_id then sgid' else sgid new)\<rparr> in
        (None, new\<lparr>fsgid := egid new\<rparr>, fl))"

text \<open>
  \<open>setfsuid\<close> and \<open>setfsgid\<close> return the old id whether or not they change it; here an error means that the
  prepared credentials are aborted.
\<close>

definition setfsuid_body :: "u32 \<Rightarrow> cred_body" where
  "setfsuid_body uid' procs old new fl =
     (if (uid' = uid old \<or> uid' = euid old \<or> uid' = suid old \<or> uid' = fsuid old \<or> nsown_capable old CAP_SETUID) \<and>
         uid' \<noteq> fsuid old
      then fix_setuid LSM_SETID_FS old (new\<lparr>fsuid := uid'\<rparr>) fl
      else (Some EPERM, new, fl))"

definition setfsgid_body :: "u32 \<Rightarrow> cred_body" where
  "setfsgid_body gid' procs old new fl =
     (if (gid' = gid old \<or> gid' = egid old \<or> gid' = sgid old \<or> gid' = fsgid old \<or> nsown_capable old CAP_SETGID) \<and>
         gid' \<noteq> fsgid old
      then (None, new\<lparr>fsgid := gid'\<rparr>, fl)
      else (Some EPERM, new, fl))"

text \<open>\<open>capset\<close> after the arguments have been read (\<open>capset_sets\<close>), and \<open>prctl\<close>.\<close>

definition capset_body :: "user_cap_data list \<Rightarrow> cred_body" where
  "capset_body kdata procs old new fl =
     (case capset_sets kdata of
        (effective, inheritable, permitted) \<Rightarrow>
          (case cap_capset new old effective inheritable permitted of (ret, new) \<Rightarrow> (ret, new, fl)))"

subsection \<open>The frame\<close>

definition current_cred :: "cred_state \<Rightarrow> nat \<Rightarrow> cred option" where
  "current_cred s cur = do { ts \<leftarrow> task_at s cur; c \<leftarrow> t_cred ts; cred_at s c }"

definition with_new_creds :: "call_env \<Rightarrow> nat \<Rightarrow> cred_body \<Rightarrow> cred_state \<Rightarrow> (errno option \<times> cred_state) option" where
  "with_new_creds env cur body s = do {
     (new, s) \<leftarrow> prepare_creds (env_cred_alloc env) (env_cred_lsm env) cur s;
     case new of
       None \<Rightarrow> Some (Some ENOMEM, s)
     | Some n \<Rightarrow> do {
         old \<leftarrow> current_cred s cur;
         ncr \<leftarrow> cred_at s n;
         ts \<leftarrow> task_at s cur;
         let (ret, ncr, fl) = body (processes s) old ncr (t_flags ts);
         let s = set_task cur (ts\<lparr>t_flags := fl\<rparr>) (set_cred n (Some ncr) s);
         case ret of
           None \<Rightarrow> do { s \<leftarrow> commit_creds (env_suid_dumpable env) cur n s; Some (None, s) }
         | Some e \<Rightarrow> do { s \<leftarrow> abort_creds cur n s; Some (Some e, s) }
       }
   }"

datatype setid_call =
    Setregid u32 u32 | Setgid u32 | Setreuid u32 u32 | Setuid u32 | Setresuid u32 u32 u32 | Setresgid u32 u32 u32
  | Setfsuid u32 | Setfsgid u32

fun setid_body :: "call_env \<Rightarrow> setid_call \<Rightarrow> cred_body" where
  "setid_body env (Setregid r e) = setregid_body r e"
| "setid_body env (Setgid g) = setgid_body g"
| "setid_body env (Setreuid r e) = setreuid_body env r e"
| "setid_body env (Setuid u) = setuid_body env u"
| "setid_body env (Setresuid r e v) = setresuid_body env r e v"
| "setid_body env (Setresgid r e v) = setresgid_body r e v"
| "setid_body env (Setfsuid u) = setfsuid_body u"
| "setid_body env (Setfsgid g) = setfsgid_body g"

definition sys_setid :: "call_env \<Rightarrow> nat \<Rightarrow> setid_call \<Rightarrow> cred_state \<Rightarrow> (errno option \<times> cred_state) option" where
  "sys_setid env cur call s = with_new_creds env cur (setid_body env call) s"

text \<open>
  \<open>capget\<close> and \<open>capset\<close> with their user interface: \<open>pid\<close> is \<open>None\<close> when it cannot be read from the header, \<open>self\<close> the
  pid of the caller, \<open>target\<close> the credentials of another task if there is one with that pid. User data are the
  entries that can be read, or their number that can be written.
\<close>

definition sys_capget ::
    "cred \<Rightarrow> cred option \<Rightarrow> u32 option \<Rightarrow> bool \<Rightarrow> int option \<Rightarrow> int \<Rightarrow> nat option \<Rightarrow> errno + user_cap_data list" where
  "sys_capget cr target version hdr_writable pid self dataptr =
     (case (cap_validate_magic version hdr_writable, dataptr) of
        (Inl e, None) \<Rightarrow> if e = EINVAL then Inr [] else Inl e
      | (Inr _, None) \<Rightarrow> Inr []
      | (Inl e, Some _) \<Rightarrow> Inl e
      | (Inr tocopy, Some writable) \<Rightarrow>
          (case pid of
             None \<Rightarrow> Inl EFAULT
           | Some pid \<Rightarrow>
               if pid < 0 then Inl EINVAL
               else
                 let put = (\<lambda>c. if writable < tocopy then Inl EFAULT else Inr (capget_data c tocopy)) in
                 if pid \<noteq> 0 \<and> pid \<noteq> self then (case target of None \<Rightarrow> Inl ESRCH | Some c \<Rightarrow> put c) else put cr))"

definition sys_capset ::
    "call_env \<Rightarrow> nat \<Rightarrow> u32 option \<Rightarrow> bool \<Rightarrow> int option \<Rightarrow> int \<Rightarrow> user_cap_data list \<Rightarrow> cred_state \<Rightarrow>
     (errno option \<times> cred_state) option" where
  "sys_capset env cur version hdr_writable pid self udata s =
     (case cap_validate_magic version hdr_writable of
        Inl e \<Rightarrow> Some (Some e, s)
      | Inr tocopy \<Rightarrow>
          (case pid of
             None \<Rightarrow> Some (Some EFAULT, s)
           | Some pid \<Rightarrow>
               if pid \<noteq> 0 \<and> pid \<noteq> self then Some (Some EPERM, s)
               else if length udata < tocopy then Some (Some EFAULT, s)
               else with_new_creds env cur (capset_body (take tocopy udata)) s))"

subsection \<open>Supplementary groups\<close>

text \<open>
  \<open>getgroups\<close>: the number of groups, or an error; \<open>um\<close> is user memory. Its result is a value and the new memory.
\<close>

definition sys_getgroups :: "nat \<Rightarrow> int \<Rightarrow> int \<Rightarrow> user_mem \<Rightarrow> cred_state \<Rightarrow> ((errno + int) \<times> user_mem) option" where
  "sys_getgroups cur gidsetsize grouplist um s = do {
     cr \<leftarrow> current_cred s cur;
     gi \<leftarrow> gi_at s (cr_group_info cr);
     if gidsetsize < 0 then Some (Inl EINVAL, um)
     else if gidsetsize \<noteq> 0 then
       if gidsetsize < ngroups gi then Some (Inl EINVAL, um)
       else (case groups_to_user um grouplist gi of
               (None, um) \<Rightarrow> Some (Inr (ngroups gi), um)
             | (Some e, um) \<Rightarrow> Some (Inl EFAULT, um))
     else Some (Inr (ngroups gi), um)
   }"

definition set_current_groups :: "call_env \<Rightarrow> nat \<Rightarrow> nat \<Rightarrow> cred_state \<Rightarrow> (errno option \<times> cred_state) option" where
  "set_current_groups env cur g s = do {
     (new, s) \<leftarrow> prepare_creds (env_cred_alloc env) (env_cred_lsm env) cur s;
     case new of
       None \<Rightarrow> Some (Some ENOMEM, s)
     | Some n \<Rightarrow> do {
         s \<leftarrow> set_groups n g s;
         s \<leftarrow> commit_creds (env_suid_dumpable env) cur n s;
         Some (None, s)
       }
   }"

text \<open>
  The end of \<open>setgroups\<close>: the new list is installed and the reference of the caller dropped.
\<close>

definition install_groups :: "call_env \<Rightarrow> nat \<Rightarrow> group_info \<Rightarrow> cred_state \<Rightarrow> (errno option \<times> cred_state) option" where
  "install_groups env cur gi s =
     (let (g, s) = add_group_info gi s in do {
        (ret, s) \<leftarrow> set_current_groups env cur g s;
        s \<leftarrow> put_group_info g s;
        Some (ret, s)
      })"

text \<open>\<open>(unsigned)gidsetsize > NGROUPS_MAX\<close> also refuses negative sizes.\<close>

definition sys_setgroups :: "call_env \<Rightarrow> nat \<Rightarrow> int \<Rightarrow> int \<Rightarrow> user_mem \<Rightarrow> cred_state \<Rightarrow> (errno option \<times> cred_state) option" where
  "sys_setgroups env cur gidsetsize grouplist um s = do {
     cr \<leftarrow> current_cred s cur;
     if \<not> nsown_capable cr CAP_SETGID then Some (Some EPERM, s)
     else if gidsetsize < 0 \<or> NGROUPS_MAX < gidsetsize then Some (Some EINVAL, s)
     else
       case groups_alloc (env_kmalloc env) (env_page env) gidsetsize (live s) of
         (None, l) \<Rightarrow> Some (Some ENOMEM, s\<lparr>live := l\<rparr>)
       | (Some gi, l) \<Rightarrow>
           (case groups_from_user um gi grouplist of
              (Some e, gi) \<Rightarrow>
                let (g, s) = add_group_info gi (s\<lparr>live := l\<rparr>) in
                do { s \<leftarrow> put_group_info g s; Some (Some e, s) }
            | (None, gi) \<Rightarrow> install_groups env cur gi (s\<lparr>live := l\<rparr>))
   }"

text \<open>Membership of the current task in a group; \<open>None\<close> would be a search that does not return.\<close>

definition in_group_p :: "cred_state \<Rightarrow> nat \<Rightarrow> u32 \<Rightarrow> bool option" where
  "in_group_p s cur grp = do {
     cr \<leftarrow> current_cred s cur;
     if grp \<noteq> fsgid cr then groups_search (gi_at s (cr_group_info cr)) grp else Some True
   }"

definition in_egroup_p :: "cred_state \<Rightarrow> nat \<Rightarrow> u32 \<Rightarrow> bool option" where
  "in_egroup_p s cur grp = do {
     cr \<leftarrow> current_cred s cur;
     if grp \<noteq> egid cr then groups_search (gi_at s (cr_group_info cr)) grp else Some True
   }"


subsection \<open>What the frame does\<close>

text \<open>A task whose subjective credentials are not overridden.\<close>

definition settled :: "cred_state \<Rightarrow> nat \<Rightarrow> nat \<Rightarrow> bool" where
  "settled s cur c \<longleftrightarrow> cur < length (tasks s) \<and> t_cred (tasks s ! cur) = Some c \<and> t_real_cred (tasks s ! cur) = Some c"

definition keeps_refs :: "cred_body \<Rightarrow> bool" where
  "keeps_refs body \<longleftrightarrow> (\<forall>procs old new fl r new' fl'. body procs old new fl = (r, new', fl') \<longrightarrow>
     cr_usage new' = cr_usage new \<and> cr_group_info new' = cr_group_info new)"

lemma keeps_refsD:
  "keeps_refs body \<Longrightarrow> body procs old new fl = (r, new', fl') \<Longrightarrow>
     cr_usage new' = cr_usage new \<and> cr_group_info new' = cr_group_info new"
  unfolding keeps_refs_def by blast

lemma settled_current: "settled s cur c \<Longrightarrow> current_cred s cur = cred_at s c"
  by (simp add: settled_def current_cred_def task_at_def)

lemma settled_live:
  assumes "cred_inv s H G P" "settled s cur c"
  obtains cr where "cred_at s c = Some cr" "current_cred s cur = Some cr"
  using task_cred_live [OF assms(1), of cur c] settled_current [OF assms(2)] assms(2) by (metis settled_def)

lemma flags_inv:
  assumes "cred_inv s H G P" "cur < length (tasks s)"
  shows "cred_inv (set_task cur ((tasks s ! cur)\<lparr>t_flags := fl\<rparr>) s) H G P"
  using assms by (intro set_task_inv) (simp_all add: task_refs_def real_user_def)

lemma set_task_contents: "same_contents s (set_task t ts s)"
  using keeps_same_contents [OF keeps_refl] by simp

text \<open>
  A call either fails, and the task keeps its credentials, or installs what the body made of them. Both
  ways the credential invariant holds afterwards and nothing is left behind.
\<close>

lemma with_new_creds_spec:
  assumes inv: "cred_inv s H G P" and set: "settled s cur c" and body: "keeps_refs body" and old: "cred_at s c = Some old"
  shows "\<exists>ret s' c' new. with_new_creds env cur body s = Some (ret, s') \<and> cred_inv s' H G P \<and> settled s' cur c' \<and>
    cred_at s' c' = Some new \<and>
    (case ret of
       Some e \<Rightarrow> same_cred old new
     | None \<Rightarrow> \<exists>procs old' r fl fl'. same_cred old old' \<and>
         body procs old' (old\<lparr>cr_usage := 1\<rparr>) fl = (None, r, fl') \<and> same_cred r new)"
proof -
  have cur: "cur < length (tasks s)" "t_cred (tasks s ! cur) = Some c" "t_real_cred (tasks s ! cur) = Some c"
    using set by (simp_all add: settled_def)
  let ?a = "env_cred_alloc env" and ?l = "env_cred_lsm env"
  obtain r s1 where s1: "prepare_creds ?a ?l cur s = Some (r, s1)" "cred_inv s1 (mo r + H) G P" "tasks s1 = tasks s"
    "\<forall>d cr'. Some d \<noteq> r \<longrightarrow> cred_at s1 d = Some cr' \<longrightarrow> (\<exists>cr. cred_at s d = Some cr \<and> same_cred cr cr')"
    "\<forall>n. r = Some n \<longrightarrow> cred_at s n = None \<and> (\<exists>old. cred_at s c = Some old \<and> cred_at s1 n = Some (old\<lparr>cr_usage := 1\<rparr>))"
    using prepare_creds_inv [OF inv cur(1,2), of ?a ?l] by blast
  have set1: "settled s1 cur c" using set s1(3) by (simp add: settled_def)
  obtain old1 where old1: "cred_at s1 c = Some old1" "current_cred s1 cur = Some old1" using settled_live [OF s1(2) set1] by blast
  show ?thesis
  proof (cases r)
    case None
    then have "same_cred old old1" using s1(4) old1(1) old by fastforce
    moreover have "with_new_creds env cur body s = Some (Some ENOMEM, s1)" using s1(1) None by (simp add: with_new_creds_def)
    ultimately show ?thesis using s1(2) None set1 old1(1) by auto
  next
    case (Some n)
    let ?ts = "tasks s ! cur"
    have n1: "cred_at s1 n = Some (old\<lparr>cr_usage := 1\<rparr>)" "n \<noteq> c" using s1(5) Some old by auto
    then have so: "same_cred old old1" using s1(4) old1(1) old Some by fastforce
    obtain ret ncr fl where b: "body (processes s1) old1 (old\<lparr>cr_usage := 1\<rparr>) (t_flags ?ts) = (ret, ncr, fl)"
      by (metis prod_cases3)
    have keep: "cr_usage ncr = 1" "cr_group_info ncr = cr_group_info old" using keeps_refsD [OF body b] by simp_all
    have i1: "cred_inv s1 (add_mset n H) G P" using s1(2) Some by simp
    let ?s2 = "set_cred n (Some ncr) s1"
    have i2: "cred_inv ?s2 (add_mset n H) G P" using alter_cred_inv [OF i1 n1(1)] keep by simp
    let ?s3 = "set_task cur (?ts\<lparr>t_flags := fl\<rparr>) ?s2"
    have i3: "cred_inv ?s3 (add_mset n H) G P" using flags_inv [OF i2, of cur fl] cur s1(3) by simp
    have t3: "tasks ?s3 = (tasks s)[cur := ?ts\<lparr>t_flags := fl\<rparr>]" using s1(3) by (simp add: set_task_def)
    have set3: "settled ?s3 cur c" using cur t3 by (simp add: settled_def)
    have n3: "cred_at ?s3 n = Some ncr" "cred_at ?s3 c = Some old1"
      using n1 cred_at_length [OF n1(1)] old1(1) by (auto simp: cred_at_set_cred)
    have run: "with_new_creds env cur body s = (case ret of
        None \<Rightarrow> map_option (\<lambda>s. (None, s)) (commit_creds (env_suid_dumpable env) cur n ?s3)
      | Some e \<Rightarrow> map_option (\<lambda>s. (Some e, s)) (abort_creds cur n ?s3))"
      using s1(1,3) Some old1(2) n1(1) cur(1) b
      by (cases ret) (simp_all add: with_new_creds_def task_at_def map_conv_bind_option comp_def)
    show ?thesis
    proof (cases ret)
      case None
      from commit_creds_inv [OF i3, of cur c] set3 obtain s' ocr ncr' where s':
        "commit_creds (env_suid_dumpable env) cur n ?s3 = Some s'" "cred_inv s' H G P"
        "tasks s' = (tasks ?s3)[cur := committed_task (env_suid_dumpable env) ocr ncr' n (tasks ?s3 ! cur)]" "same_contents ?s3 s'"
        unfolding settled_def by metis
      have set': "settled s' cur n" using s'(3) t3 cur by (simp add: settled_def committed_task_def)
      obtain new where new: "cred_at s' n = Some new" using settled_live [OF s'(2) set'] by blast
      then have "same_cred ncr new" using contents_cred [OF s'(4) new] n3(1) by auto
      then have "\<exists>procs old' r fl fl'. same_cred old old' \<and> body procs old' (old\<lparr>cr_usage := 1\<rparr>) fl = (None, r, fl') \<and> same_cred r new"
        using so b None by blast
      moreover have "with_new_creds env cur body s = Some (None, s')" using run None s'(1) by simp
      ultimately show ?thesis
        using s'(2) set' new by (intro exI [of _ None] exI [of _ s'] exI [of _ n] exI [of _ new] conjI) simp_all
    next
      case (Some e)
      have "cur < length (tasks ?s3)" using t3 cur by simp
      then obtain s' where s': "abort_creds cur n ?s3 = Some s'" "cred_inv s' H G P" "keeps ?s3 s'"
        using abort_creds_inv [OF i3] by metis
      have set': "settled s' cur c" using set3 keeps_tasks [OF s'(3)] by (simp add: settled_def)
      obtain new where new: "cred_at s' c = Some new" using settled_live [OF s'(2) set'] by blast
      then have "same_cred old new" using keeps_cred [OF s'(3) new] n3(2) so same_cred_trans by auto
      then show ?thesis using run Some s'(1,2) set' new by auto
    qed
  qed
qed


subsection \<open>The bodies keep to the rules\<close>

lemma fix_setuid_ids:
  "uid (cap_task_fix_setuid new old f) = uid new" "euid (cap_task_fix_setuid new old f) = euid new"
  "suid (cap_task_fix_setuid new old f) = suid new" "fsuid (cap_task_fix_setuid new old f) = fsuid new"
  "gid (cap_task_fix_setuid new old f) = gid new" "egid (cap_task_fix_setuid new old f) = egid new"
  "sgid (cap_task_fix_setuid new old f) = sgid new" "fsgid (cap_task_fix_setuid new old f) = fsgid new"
  "cr_usage (cap_task_fix_setuid new old f) = cr_usage new" "cr_group_info (cap_task_fix_setuid new old f) = cr_group_info new"
  by (simp_all add: cap_task_fix_setuid_def cap_emulate_setxuid_def Let_def split: lsm_setid.split)

lemmas setid_body_defs = setregid_body_def setgid_body_def setreuid_body_def setuid_body_def setresuid_body_def
  setresgid_body_def setfsuid_body_def setfsgid_body_def set_user_def fix_setuid_def

lemma setid_keeps_refs: "keeps_refs (setid_body env call)"
  unfolding keeps_refs_def
  by (cases call) (auto simp: setid_body_defs Let_def fix_setuid_ids split: if_splits)

text \<open>Ids that an unprivileged caller can get are ids it had.\<close>

definition ids :: "cred \<Rightarrow> u32 set" where "ids cr = {uid cr, euid cr, suid cr, fsuid cr}"
definition gids :: "cred \<Rightarrow> u32 set" where "gids cr = {gid cr, egid cr, sgid cr, fsgid cr}"

text \<open>The calls on user ids leave the group ids alone, and the other way round.\<close>

lemma uid_calls_ids:
  assumes "same_cred old new" "\<not> nsown_capable old CAP_SETUID"
  shows "setreuid_body env a b procs old new fl = (None, r, fl') \<Longrightarrow> ids r \<subseteq> ids old"
    "setuid_body env a procs old new fl = (None, r, fl') \<Longrightarrow> ids r \<subseteq> ids old"
    "setresuid_body env a b d procs old new fl = (None, r, fl') \<Longrightarrow> ids r \<subseteq> ids old"
    "setfsuid_body a procs old new fl = (None, r, fl') \<Longrightarrow> ids r \<subseteq> ids old"
  using assms(2) same_credD(1,3,5,7) [OF assms(1)]
  by (clarsimp simp: setid_body_defs Let_def fix_setuid_ids ids_def split: if_split_asm; auto; fail)+

lemma uid_calls_gids:
  assumes "same_cred old new"
  shows "setreuid_body env a b procs old new fl = (None, r, fl') \<Longrightarrow> gids r = gids old"
    "setuid_body env a procs old new fl = (None, r, fl') \<Longrightarrow> gids r = gids old"
    "setresuid_body env a b d procs old new fl = (None, r, fl') \<Longrightarrow> gids r = gids old"
    "setfsuid_body a procs old new fl = (None, r, fl') \<Longrightarrow> gids r = gids old"
  using same_credD [OF assms]
  by (clarsimp simp: setid_body_defs Let_def fix_setuid_ids gids_def split: if_split_asm; fail)+

lemma gid_calls_ids:
  assumes "same_cred old new"
  shows "setregid_body a b procs old new fl = (None, r, fl') \<Longrightarrow> ids r = ids old"
    "setgid_body a procs old new fl = (None, r, fl') \<Longrightarrow> ids r = ids old"
    "setresgid_body a b d procs old new fl = (None, r, fl') \<Longrightarrow> ids r = ids old"
    "setfsgid_body a procs old new fl = (None, r, fl') \<Longrightarrow> ids r = ids old"
  using same_credD [OF assms] by (clarsimp simp: setid_body_defs Let_def ids_def split: if_split_asm; fail)+

lemma gid_calls_gids:
  assumes "same_cred old new" "\<not> nsown_capable old CAP_SETGID"
  shows "setregid_body a b procs old new fl = (None, r, fl') \<Longrightarrow> gids r \<subseteq> gids old"
    "setgid_body a procs old new fl = (None, r, fl') \<Longrightarrow> gids r \<subseteq> gids old"
    "setresgid_body a b d procs old new fl = (None, r, fl') \<Longrightarrow> gids r \<subseteq> gids old"
    "setfsgid_body a procs old new fl = (None, r, fl') \<Longrightarrow> gids r \<subseteq> gids old"
  using assms(2) same_credD(2,4,6,8) [OF assms(1)]
  by (clarsimp simp: setid_body_defs Let_def gids_def split: if_split_asm; auto; fail)+

lemma setid_unprivileged:
  assumes "setid_body env call procs old new fl = (None, r, fl')" "same_cred old new"
  shows "\<not> nsown_capable old CAP_SETUID \<Longrightarrow> ids r \<subseteq> ids old" "\<not> nsown_capable old CAP_SETGID \<Longrightarrow> gids r \<subseteq> gids old"
proof -
  note same = assms(2)
  show "ids r \<subseteq> ids old" if "\<not> nsown_capable old CAP_SETUID"
    using assms(1) by (cases call) (auto dest: uid_calls_ids [OF same that] gid_calls_ids [OF same])
  show "gids r \<subseteq> gids old" if "\<not> nsown_capable old CAP_SETGID"
    using assms(1) by (cases call) (auto dest: gid_calls_gids [OF same that] uid_calls_gids [OF same])
qed


lemma same_cred_ids: "same_cred a b \<Longrightarrow> ids b = ids a" "same_cred a b \<Longrightarrow> gids b = gids a"
  using same_credD [of a b] by (simp_all add: ids_def gids_def)

lemma same_cred_capable: "same_cred a b \<Longrightarrow> nsown_capable b cap = nsown_capable a cap"
  using same_credD [of a b] by (simp add: nsown_capable_iff)

text \<open>The settled tasks of a reachable state.\<close>

lemma reachable_cred_inv:
  "reachable (\<lambda>k. k = boot) op_step k \<Longrightarrow> cred_inv (ks k) (ks_held k) (ks_gi_held k) {#}"
  using cred.reachable_inv by (simp add: kstate_inv_def)

lemma sys_setid_spec:
  assumes "cred_inv s H G P" "settled s cur c" "cred_at s c = Some old"
  obtains ret s' c' new where "sys_setid env cur call s = Some (ret, s')" "cred_inv s' H G P" "settled s' cur c'"
    "cred_at s' c' = Some new" "ret \<noteq> None \<Longrightarrow> same_cred old new"
    "ret = None \<Longrightarrow> \<exists>procs old' r fl fl'. same_cred old old' \<and>
       setid_body env call procs old' (old\<lparr>cr_usage := 1\<rparr>) fl = (None, r, fl') \<and> same_cred r new"
  using with_new_creds_spec [OF assms(1,2) setid_keeps_refs assms(3), of env env call]
  unfolding sys_setid_def by (fastforce split: option.splits)

text \<open>C21. A task that lacks \<open>CAP_SETUID\<close> cannot get a user id by any of the eight calls that it does not already have as
  real, effective, saved or filesystem uid, and the same for \<open>CAP_SETGID\<close> and group ids. Every call returns,
  and one that fails, for lack of privilege or of memory, leaves the credentials as they were.\<close>

theorem setid_gains_nothing:
  assumes "reachable (\<lambda>k. k = boot) op_step k" "settled (ks k) cur c" "cred_at (ks k) c = Some old"
  shows "\<exists>ret s' new. sys_setid env cur call (ks k) = Some (ret, s') \<and> current_cred s' cur = Some new \<and>
    (ret \<noteq> None \<longrightarrow> same_cred old new) \<and>
    (\<not> cap_raised (cap_effective old) CAP_SETUID \<longrightarrow> ids new \<subseteq> ids old) \<and>
    (\<not> cap_raised (cap_effective old) CAP_SETGID \<longrightarrow> gids new \<subseteq> gids old)"
proof -
  from sys_setid_spec [OF reachable_cred_inv [OF assms(1)] assms(2,3)] obtain ret s' c' new where
    s': "sys_setid env cur call (ks k) = Some (ret, s')" "settled s' cur c'" "cred_at s' c' = Some new"
    "ret \<noteq> None \<Longrightarrow> same_cred old new"
    "ret = None \<Longrightarrow> \<exists>procs old' r fl fl'. same_cred old old' \<and>
       setid_body env call procs old' (old\<lparr>cr_usage := 1\<rparr>) fl = (None, r, fl') \<and> same_cred r new" by metis
  have cur: "current_cred s' cur = Some new" using settled_current [OF s'(2)] s'(3) by simp
  have "(\<not> nsown_capable old CAP_SETUID \<longrightarrow> ids new \<subseteq> ids old) \<and> (\<not> nsown_capable old CAP_SETGID \<longrightarrow> gids new \<subseteq> gids old)"
  proof (cases ret)
    case None
    then obtain procs old' r fl fl' where b: "same_cred old old'"
      "setid_body env call procs old' (old\<lparr>cr_usage := 1\<rparr>) fl = (None, r, fl')" "same_cred r new" using s'(5) by blast
    have "same_cred old' (old\<lparr>cr_usage := 1\<rparr>)" using same_cred_trans [OF same_cred_sym [OF b(1)]] by simp
    from setid_unprivileged [OF b(2) this] show ?thesis
      using same_cred_ids [OF b(1)] same_cred_ids [OF b(3)] same_cred_capable [OF b(1)] by simp
  qed (use s'(4) same_cred_ids in simp)
  then show ?thesis using s'(1,4) cur by (auto simp: nsown_capable_iff)
qed

subsection \<open>Giving up privileges\<close>

definition dropped :: "u32 \<Rightarrow> cred \<Rightarrow> bool" where
  "dropped u cr \<longleftrightarrow> ids cr = {u} \<and> cap_permitted cr = 0 \<and> cap_effective cr = 0"

lemma cap_issubset_0: "cap_issubset a 0 \<longleftrightarrow> a = 0"
  by (simp add: cap_issubset_def)

text \<open>Without capabilities there are none after a call either.\<close>

lemma fix_setuid_no_caps:
  assumes "cap_permitted n = 0" "cap_effective n = 0"
  shows "cap_permitted (cap_task_fix_setuid n old f) = 0" "cap_effective (cap_task_fix_setuid n old f) = 0"
  using fix_setuid_bounded [of n old f] assms by (auto simp: cap_issubset_0)

lemma setid_no_caps:
  assumes "setid_body env call procs old new fl = (None, r, fl')" "cap_permitted new = 0" "cap_effective new = 0"
  shows "cap_permitted r = 0 \<and> cap_effective r = 0"
  using assms by (cases call) (clarsimp simp: setid_body_defs Let_def fix_setuid_no_caps split: if_split_asm)+

lemma dropped_setid:
  assumes "dropped u old" "setid_body env call procs old new fl = (None, r, fl')" "same_cred old new"
  shows "dropped u r"
proof -
  have caps: "cap_permitted new = 0" "cap_effective new = 0" using assms(1) same_credD [OF assms(3)] by (simp_all add: dropped_def)
  have "cap_permitted r = 0 \<and> cap_effective r = 0" using setid_no_caps [OF assms(2) caps] .
  moreover have "\<not> nsown_capable old CAP_SETUID" using assms(1) by (simp add: dropped_def nsown_capable_iff cap_raised_iff)
  then have "ids r \<subseteq> {u}" using setid_unprivileged(1) [OF assms(2,3)] assms(1) by (simp add: dropped_def)
  moreover have "ids r \<noteq> {}" by (simp add: ids_def)
  ultimately show ?thesis by (auto simp: dropped_def)
qed

lemma setuid_drops:
  assumes "setuid_body env u procs old new fl = (None, r, fl')" "nsown_capable old CAP_SETUID"
    "u \<noteq> 0" "uid old = 0 \<or> euid old = 0 \<or> suid old = 0"
    "\<not> issecure old SECURE_KEEP_CAPS" "\<not> issecure old SECURE_NO_SETUID_FIXUP"
  shows "dropped u r"
  using assms
  by (clarsimp simp: setuid_body_def set_user_def fix_setuid_def Let_def dropped_def ids_def fix_setuid_ids split: if_split_asm)
    (auto simp: cap_task_fix_setuid_def cap_emulate_setxuid_def Let_def)

text \<open>Any calls in a row.\<close>

fun run_calls :: "nat \<Rightarrow> (call_env \<times> setid_call) list \<Rightarrow> cred_state \<Rightarrow> cred_state option" where
  "run_calls cur [] s = Some s"
| "run_calls cur ((env, call) # calls) s = do { (ret, s) \<leftarrow> sys_setid env cur call s; run_calls cur calls s }"

lemma dropped_for_good:
  assumes "cred_inv s H G P" "settled s cur c" "cred_at s c = Some old" "dropped u old"
  shows "\<exists>s' new. run_calls cur calls s = Some s' \<and> current_cred s' cur = Some new \<and> dropped u new"
  using assms
proof (induction calls arbitrary: s c old)
  case Nil
  then show ?case using settled_current by auto
next
  case (Cons x calls)
  obtain env call where x: "x = (env, call)" by fastforce
  from sys_setid_spec [OF Cons.prems(1-3), of env call] obtain ret s' c' new where
    s': "sys_setid env cur call s = Some (ret, s')" "cred_inv s' H G P" "settled s' cur c'" "cred_at s' c' = Some new"
    "ret \<noteq> None \<Longrightarrow> same_cred old new"
    "ret = None \<Longrightarrow> \<exists>procs old' r fl fl'. same_cred old old' \<and>
       setid_body env call procs old' (old\<lparr>cr_usage := 1\<rparr>) fl = (None, r, fl') \<and> same_cred r new" by metis
  have drop: "dropped u b \<longleftrightarrow> dropped u a" if "same_cred a b" for a b
    using same_credD [OF that] same_cred_ids [OF that] by (simp add: dropped_def)
  have "dropped u new"
  proof (cases ret)
    case None
    then obtain procs old' r fl fl' where b: "same_cred old old'"
      "setid_body env call procs old' (old\<lparr>cr_usage := 1\<rparr>) fl = (None, r, fl')" "same_cred r new" using s'(6) by blast
    have "same_cred old' (old\<lparr>cr_usage := 1\<rparr>)" using same_cred_trans [OF same_cred_sym [OF b(1)]] by simp
    then show ?thesis using dropped_setid [OF _ b(2)] drop b(1,3) Cons.prems(4) by blast
  qed (use s'(5) drop Cons.prems(4) in auto)
  then show ?case using Cons.IH [OF s'(2,3,4)] s'(1) x by simp
qed

text \<open>C20. A task with root ids and \<open>CAP_SETUID\<close> that calls \<open>setuid\<close> with a nonzero uid gives up its privileges for
  good, unless it asked to keep capabilities or switched the fix-up off: no capability is permitted to it any
  more, and no later sequence of set-id calls gets it any user id but the one it chose.\<close>

theorem setuid_drop_is_permanent:
  assumes "reachable (\<lambda>k. k = boot) op_step k" "settled (ks k) cur c" "cred_at (ks k) c = Some old"
    "cap_raised (cap_effective old) CAP_SETUID" "uid old = 0 \<or> euid old = 0 \<or> suid old = 0" "u \<noteq> 0"
    "\<not> issecure old SECURE_KEEP_CAPS" "\<not> issecure old SECURE_NO_SETUID_FIXUP"
    "sys_setid env cur (Setuid u) (ks k) = Some (None, s1)"
  shows "\<exists>s2 new. run_calls cur calls s1 = Some s2 \<and> current_cred s2 cur = Some new \<and> ids new = {u} \<and> cap_permitted new = 0"
proof -
  from sys_setid_spec [OF reachable_cred_inv [OF assms(1)] assms(2,3), of env "Setuid u"] assms(9) obtain c' new where
    s1: "cred_inv s1 (ks_held k) (ks_gi_held k) {#}" "settled s1 cur c'" "cred_at s1 c' = Some new"
    "\<exists>procs old' r fl fl'. same_cred old old' \<and>
       setid_body env (Setuid u) procs old' (old\<lparr>cr_usage := 1\<rparr>) fl = (None, r, fl') \<and> same_cred r new" by (metis option.inject prod.inject)
  then obtain procs old' r fl fl' where b: "same_cred old old'"
    "setuid_body env u procs old' (old\<lparr>cr_usage := 1\<rparr>) fl = (None, r, fl')" "same_cred r new" by auto
  have "dropped u r"
    using setuid_drops [OF b(2)] assms(4-8) same_credD [OF b(1)] same_cred_capable [OF b(1)]
    by (simp add: nsown_capable_iff issecure_def)
  then have "dropped u new" using same_credD [OF b(3)] same_cred_ids [OF b(3)] by (simp add: dropped_def)
  from dropped_for_good [OF s1(1-3) this, of calls] show ?thesis by (auto simp: dropped_def)
qed


text \<open>The call that drops the privileges does return; a task that does so and what follows.\<close>

definition plain_env :: call_env where
  "plain_env = \<lparr>env_cred_alloc = True, env_cred_lsm = True, env_user_alloc = True, env_nproc = 100, env_suid_dumpable = 0,
     env_kmalloc = Some (replicate 32 0), env_page = (\<lambda>_. Some (replicate 1024 0))\<rparr>"

lemma boot_settled: "settled (ks boot) 0 0" "cred_at (ks boot) 0 = Some init_cred"
  by (simp_all add: settled_def boot_def cred_at_def)

lemma boot_reachable: "reachable (\<lambda>k. k = boot) op_step boot"
  by (rule reachable.start) simp

theorem setid_gains_nothing_witness:
  "\<exists>ret s' new. sys_setid plain_env 0 (Setuid 1000) (ks boot) = Some (ret, s') \<and> current_cred s' 0 = Some new"
  using setid_gains_nothing [OF boot_reachable boot_settled, of plain_env "Setuid 1000"] by blast

lemma boot_setuid: "map_option fst (sys_setid plain_env 0 (Setuid 1000) (ks boot)) = Some None"
  by code_simp

lemma init_cred_rules:
  "cap_raised (cap_effective init_cred) CAP_SETUID" "uid init_cred = 0" "\<not> issecure init_cred SECURE_KEEP_CAPS"
  "\<not> issecure init_cred SECURE_NO_SETUID_FIXUP"
  by (simp_all add: init_cred_def cap_raised_iff issecure_def CAP_SETUID_def)

theorem setuid_drop_is_permanent_witness:
  "\<exists>s1 s2 new. sys_setid plain_env 0 (Setuid 1000) (ks boot) = Some (None, s1) \<and>
     run_calls 0 [(plain_env, Setresuid 0 0 0), (plain_env, Setfsuid 0)] s1 = Some s2 \<and> current_cred s2 0 = Some new \<and> ids new = {1000}"
proof -
  obtain s1 where s1: "sys_setid plain_env 0 (Setuid 1000) (ks boot) = Some (None, s1)" using boot_setuid by auto
  then show ?thesis
    using setuid_drop_is_permanent [OF boot_reachable boot_settled init_cred_rules(1) _ _ init_cred_rules(3,4) s1] init_cred_rules(2)
    by fastforce
qed

text \<open>
  The comment above \<open>cap_emulate_setxuid\<close> says that a zero filesystem uid with nonzero real, effective and saved
  uids should never happen. \<open>setfsuid\<close> allows it to a task that kept \<open>CAP_SETUID\<close>.
\<close>

lemma setfsuid_zero_alone:
  "\<exists>r. setfsuid_body 0 procs as_user as_user fl = (None, r, fl) \<and> fsuid r = 0 \<and> uid r = 1000 \<and> euid r = 1000 \<and> suid r = 1000"
proof -
  have "nsown_capable as_user CAP_SETUID" using init_cred_rules(1) by (simp add: nsown_capable_iff as_user_def)
  then show ?thesis by (simp add: setfsuid_body_def fix_setuid_def fix_setuid_ids as_user_def)
qed

subsection \<open>Groups\<close>

lemma set_current_groups_spec:
  assumes inv: "cred_inv s H (add_mset g G) P" and set: "settled s cur c" and old: "cred_at s c = Some old" and gi: "gi_at s g = Some gi"
  shows "\<exists>ret s' c' new. set_current_groups env cur g s = Some (ret, s') \<and> cred_inv s' H (add_mset g G) P \<and> settled s' cur c' \<and>
    cred_at s' c' = Some new \<and> (ret = None \<longleftrightarrow> env_cred_alloc env \<and> env_cred_lsm env) \<and>
    (case ret of
       Some e \<Rightarrow> e = ENOMEM \<and> same_cred old new \<and>
         (\<forall>h gi'. gi_at s' h = Some gi' \<longrightarrow> (\<exists>gi. gi_at s h = Some gi \<and> groups_of gi' = groups_of gi))
     | None \<Rightarrow> same_cred (old\<lparr>cr_group_info := g\<rparr>) new \<and> (\<exists>gi'. gi_at s' g = Some gi' \<and> groups_of gi' = sort (groups_of gi)))"
proof -
  have cur: "cur < length (tasks s)" "t_cred (tasks s ! cur) = Some c" "t_real_cred (tasks s ! cur) = Some c"
    using set by (simp_all add: settled_def)
  let ?a = "env_cred_alloc env" and ?l = "env_cred_lsm env"
  obtain r s1 where s1: "prepare_creds ?a ?l cur s = Some (r, s1)" "cred_inv s1 (mo r + H) (add_mset g G) P" "tasks s1 = tasks s"
    "r \<noteq> None \<longleftrightarrow> ?a \<and> ?l"
    "\<forall>d cr'. Some d \<noteq> r \<longrightarrow> cred_at s1 d = Some cr' \<longrightarrow> (\<exists>cr. cred_at s d = Some cr \<and> same_cred cr cr')"
    "\<forall>g gi'. gi_at s1 g = Some gi' \<longrightarrow> (\<exists>gi. gi_at s g = Some gi \<and> groups_of gi' = groups_of gi)"
    "\<forall>n. r = Some n \<longrightarrow> cred_at s n = None \<and> (\<exists>old. cred_at s c = Some old \<and> cred_at s1 n = Some (old\<lparr>cr_usage := 1\<rparr>))"
    using prepare_creds_inv [OF inv cur(1,2), of ?a ?l] by blast
  have set1: "settled s1 cur c" using set s1(3) by (simp add: settled_def)
  show ?thesis
  proof (cases r)
    case None
    obtain new where "cred_at s1 c = Some new" using settled_live [OF s1(2) set1] by blast
    moreover from this have "same_cred old new" using s1(5) None old by fastforce
    moreover have "set_current_groups env cur g s = Some (Some ENOMEM, s1)" using s1(1) None by (simp add: set_current_groups_def)
    ultimately show ?thesis using s1(2,4,6) None set1 by auto
  next
    case (Some n)
    have n1: "cred_at s1 n = Some (old\<lparr>cr_usage := 1\<rparr>)" using s1(7) Some old by auto
    have i1: "cred_inv s1 (add_mset n H) (add_mset g G) P" using s1(2) Some by simp
    obtain s2 gi1 where s2: "set_groups n g s1 = Some s2" "cred_inv s2 (add_mset n H) (add_mset g G) P" "tasks s2 = tasks s1"
      "cred_at s2 = (cred_at s1)(n \<mapsto> old\<lparr>cr_usage := 1, cr_group_info := g\<rparr>)" "gi_at s1 g = Some gi1"
      "\<exists>gi'. gi_at s2 g = Some gi' \<and> groups_of gi' = sort (groups_of gi1)" using set_groups_inv [OF i1 n1] by metis
    have gi1: "groups_of gi1 = groups_of gi" using s1(6) [rule_format, OF s2(5)] gi by auto
    have cur2: "cur < length (tasks s2)" "t_real_cred (tasks s2 ! cur) = Some c" "t_cred (tasks s2 ! cur) = Some c"
      using set1 s2(3) by (simp_all add: settled_def)
    obtain s3 ocr ncr where s3: "commit_creds (env_suid_dumpable env) cur n s2 = Some s3" "cred_inv s3 H (add_mset g G) P"
      "tasks s3 = (tasks s2)[cur := committed_task (env_suid_dumpable env) ocr ncr n (tasks s2 ! cur)]" "same_contents s2 s3"
      using commit_creds_inv [OF s2(2) cur2] by metis
    have set3: "settled s3 cur n" using s3(3) cur2(1) by (simp add: settled_def committed_task_def)
    obtain new where new: "cred_at s3 n = Some new" using settled_live [OF s3(2) set3] by blast
    then have "same_cred (old\<lparr>cr_group_info := g\<rparr>) new"
      using contents_cred [OF s3(4) new] s2(4) by (auto simp: same_cred_def)
    moreover obtain gi3 where gi3: "gi_at s3 g = Some gi3" using s3(2) by (rule gi_live [where g = g]) simp_all
    have "groups_of gi3 = sort (groups_of gi)" using contents_gi [OF s3(4) gi3] s2(6) gi1 by auto
    moreover have "set_current_groups env cur g s = Some (None, s3)"
      using s1(1) Some s2(1) s3(1) by (simp add: set_current_groups_def)
    ultimately show ?thesis using s3(2) set3 new gi3 s1(4) Some by auto
  qed
qed

text \<open>Membership in terms of the list.\<close>

lemma in_group_p_spec:
  assumes "cred_inv s H G P" "settled s cur c" "cred_at s c = Some cr" "gi_at s (cr_group_info cr) = Some gi"
  shows "in_group_p s cur grp = Some (grp = fsgid cr \<or> grp \<in> set (groups_of gi))"
proof -
  obtain gi' where "gi_at s (cr_group_info cr) = Some gi'" "gi_wf gi'" "sorted (groups_of gi')"
    using cred_group_live [OF assms(1,3)] by blast
  then show ?thesis
    using groups_search_spec [of gi grp] assms(2-4) settled_current [OF assms(2)] by (simp add: in_group_p_def)
qed

lemma getgroups_spec:
  assumes "cred_inv s H G P" "settled s cur c" "cred_at s c = Some cr" "gi_at s (cr_group_info cr) = Some gi"
    "sys_getgroups cur n a um s = Some (Inr m, um')" "n \<noteq> 0"
  shows "m = int (length (groups_of gi)) \<and> copy_from_user um' a (nat m) = Some (groups_of gi)"
proof -
  obtain gi' where wf: "gi_at s (cr_group_info cr) = Some gi'" "gi_wf gi'" using cred_group_live [OF assms(1,3)] by blast
  then have len: "length (groups_of gi) = nat (ngroups gi)" "0 \<le> ngroups gi"
    using assms(4) by (auto simp: length_groups_of gi_wf_def)
  have "groups_to_user um a gi = (None, um')" "m = ngroups gi"
    using assms settled_current [OF assms(2)] by (auto simp: sys_getgroups_def split: if_splits prod.splits option.splits)
  then have "um' = put_words um a (groups_of gi)" "m = int (length (groups_of gi))"
    using groups_to_user_spec [of gi um a um'] wf assms(4) len by auto
  then show ?thesis using copy_back [of um a "groups_of gi"] by simp
qed


lemma same_cred_regroup: "same_cred a b \<Longrightarrow> same_cred (a\<lparr>cr_group_info := n\<rparr>) (b\<lparr>cr_group_info := n\<rparr>)"
  by (cases a; cases b) (simp add: same_cred_def)

lemma install_groups_spec:
  assumes inv: "cred_inv s H G P" and set: "settled s cur c" and old: "cred_at s c = Some old"
    and gi: "gi_wf gi" "gi_usage gi = 1" and ogi: "gi_at s (cr_group_info old) = Some ogi"
  shows "\<exists>ret s' c' new gi'. install_groups env cur gi s = Some (ret, s') \<and> cred_inv s' H G P \<and> settled s' cur c' \<and>
    cred_at s' c' = Some new \<and> gi_at s' (cr_group_info new) = Some gi' \<and> (ret = None \<longleftrightarrow> env_cred_alloc env \<and> env_cred_lsm env) \<and>
    same_cred (old\<lparr>cr_group_info := 0\<rparr>) (new\<lparr>cr_group_info := 0\<rparr>) \<and>
    groups_of gi' = (if ret = None then sort (groups_of gi) else groups_of ogi) \<and> ret \<in> {None, Some ENOMEM}"
proof -
  let ?g = "length (infos s)" and ?s1 = "snd (add_group_info gi s)"
  have i1: "cred_inv ?s1 H (add_mset ?g G) P" using add_group_info_inv [OF inv gi] .
  have at1: "cred_at ?s1 = cred_at s" "tasks ?s1 = tasks s" by (simp_all add: add_group_info_def cred_at_def fun_eq_iff)
  have g1: "gi_at ?s1 h = (if h = ?g then Some gi else gi_at s h)" for h by (simp add: add_group_info_def gi_at_def nth_append)
  have set1: "settled ?s1 cur c" using set by (simp add: settled_def at1)
  have old1: "cred_at ?s1 c = Some old" "gi_at ?s1 ?g = Some gi" using old g1 by (simp_all add: at1)
  from set_current_groups_spec [OF i1 set1 old1, of env] obtain ret s2 c' new where
    s2: "set_current_groups env cur ?g ?s1 = Some (ret, s2)" "cred_inv s2 H (add_mset ?g G) P" "settled s2 cur c'"
    "cred_at s2 c' = Some new" "ret = None \<longleftrightarrow> env_cred_alloc env \<and> env_cred_lsm env"
    and res: "case ret of
       Some e \<Rightarrow> e = ENOMEM \<and> same_cred old new \<and>
         (\<forall>h gi'. gi_at s2 h = Some gi' \<longrightarrow> (\<exists>gi. gi_at ?s1 h = Some gi \<and> groups_of gi' = groups_of gi))
     | None \<Rightarrow> same_cred (old\<lparr>cr_group_info := ?g\<rparr>) new \<and> (\<exists>gi'. gi_at s2 ?g = Some gi' \<and> groups_of gi' = sort (groups_of gi))"
    by blast
  obtain s3 where s3: "put_group_info ?g s2 = Some s3" "cred_inv s3 H G P" "same_but_infos s2 s3"
    using put_group_info_inv [OF s2(2)] by blast
  have k: "keeps s2 s3" using s3(1) by (rule put_group_info_keeps)
  have run: "install_groups env cur gi s = Some (ret, s3)"
    using s2(1) s3(1) by (simp add: install_groups_def add_group_info_def)
  have set3: "settled s3 cur c'" using s2(3) keeps_tasks [OF k] by (simp add: settled_def)
  have new3: "cred_at s3 c' = Some new" using s2(4) same_but_infosD(3) [OF s3(3)] by simp
  obtain gi3 where gi3: "gi_at s3 (cr_group_info new) = Some gi3" using cred_group_live [OF s3(2) new3] by blast
  then obtain gi2 where gi2: "gi_at s2 (cr_group_info new) = Some gi2" "groups_of gi3 = groups_of gi2" using keeps_gi [OF k] by blast
  have ne: "?g \<noteq> cr_group_info old" using gi_at_length [OF ogi] by simp
  have "groups_of gi3 = (if ret = None then sort (groups_of gi) else groups_of ogi) \<and> ret \<in> {None, Some ENOMEM} \<and>
      same_cred (old\<lparr>cr_group_info := 0\<rparr>) (new\<lparr>cr_group_info := 0\<rparr>)"
  proof (cases ret)
    case None
    then show ?thesis using res gi2 by (auto dest: same_cred_regroup [of _ _ 0] same_credD(15))
  next
    case (Some e)
    then have e: "e = ENOMEM" "same_cred old new" "\<exists>gi. gi_at ?s1 (cr_group_info new) = Some gi \<and> groups_of gi2 = groups_of gi"
      using res gi2(1) by auto
    have "cr_group_info new = cr_group_info old" using same_credD(15) [OF e(2)] .
    then show ?thesis using Some e ogi ne gi2(2) same_cred_regroup [OF e(2)] by (auto simp: g1)
  qed
  then show ?thesis using run s3(2) set3 new3 gi3 s2(5) by blast
qed

text \<open>C25. \<open>setgroups\<close> with a readable list of at most \<open>NGROUPS_MAX\<close> ids, by a task with \<open>CAP_SETGID\<close>: it succeeds when
  memory can be had, and then the task is in a group exactly when the group is its filesystem gid or on the
  list, whatever the order of the list and however many pages it fills; \<open>getgroups\<close> hands the list back to the
  user, sorted. Without memory it fails with \<open>ENOMEM\<close> and the memberships stay.\<close>

theorem setgroups_round_trip:
  assumes "reachable (\<lambda>k. k = boot) op_step k" "settled (ks k) cur c" "cred_at (ks k) c = Some old"
    "cap_raised (cap_effective old) CAP_SETGID" "0 \<le> n" "n \<le> NGROUPS_MAX" "copy_from_user um a (nat n) = Some vs"
    "\<forall>b. env_kmalloc env = Some b \<longrightarrow> length b = 32" "\<forall>i b. env_page env i = Some b \<longrightarrow> length b = 1024"
  shows "\<exists>ret s'. sys_setgroups env cur n a um (ks k) = Some (ret, s') \<and>
    (env_cred_alloc env \<and> env_cred_lsm env \<and> fst (groups_alloc (env_kmalloc env) (env_page env) n (live (ks k))) \<noteq> None \<longrightarrow> ret = None) \<and>
    (if ret = None
     then (\<forall>grp. in_group_p s' cur grp = Some (grp = fsgid old \<or> grp \<in> set vs)) \<and>
       (\<forall>m b um1 cnt um2. m \<noteq> 0 \<and> sys_getgroups cur m b um1 s' = Some (Inr cnt, um2) \<longrightarrow>
          cnt = n \<and> copy_from_user um2 b (nat cnt) = Some (sort vs))
     else ret = Some ENOMEM \<and> (\<forall>grp. in_group_p s' cur grp = in_group_p (ks k) cur grp))"
proof -
  let ?s = "ks k" and ?H = "ks_held k" and ?G = "ks_gi_held k"
  have inv: "cred_inv ?s ?H ?G {#}" using assms(1) by (rule reachable_cred_inv)
  have cap: "nsown_capable old CAP_SETGID" using assms(4) by (simp add: nsown_capable_iff)
  have now: "current_cred ?s cur = Some old" using settled_current [OF assms(2)] assms(3) by simp
  obtain ogi where ogi: "gi_at ?s (cr_group_info old) = Some ogi" using cred_group_live [OF inv assms(3)] by blast
  obtain r l where al: "groups_alloc (env_kmalloc env) (env_page env) n (live ?s) = (r, l)" by fastforce
  note spec = groups_alloc_spec [OF al assms(5,6) assms(8,9) [rule_format]]
  let ?s1 = "?s\<lparr>live := l\<rparr>"
  have at1: "cred_at ?s1 = cred_at ?s" "gi_at ?s1 = gi_at ?s" "settled ?s1 cur c"
    using assms(2) by (simp_all add: cred_at_def gi_at_def settled_def fun_eq_iff)
  show ?thesis
  proof (cases r)
    case None
    then have "sys_setgroups env cur n a um ?s = Some (Some ENOMEM, ?s1)"
      using now cap assms(5,6) al by (simp add: sys_setgroups_def)
    moreover have "in_group_p ?s1 cur grp = in_group_p ?s cur grp" for grp
      using at1 by (simp add: in_group_p_def current_cred_def task_at_def cong: if_cong)
    ultimately show ?thesis using al None by simp
  next
    case (Some gi)
    then have gi: "gi_wf gi" "ngroups gi = n" "gi_usage gi = 1" using spec by auto
    have "case copy_from_user um a (nat (ngroups gi)) of None \<Rightarrow> groups_from_user um gi a = (Some EFAULT, gi)
      | Some vs \<Rightarrow> \<exists>gi'. groups_from_user um gi a = (None, gi') \<and> gi_wf gi' \<and> same_shape gi gi' \<and> groups_of gi' = vs"
      using groups_from_user_spec [OF gi(1)] .
    then obtain gi1 where gi1: "groups_from_user um gi a = (None, gi1)" "gi_wf gi1" "same_shape gi gi1" "groups_of gi1 = vs"
      using assms(7) gi(2) by auto
    have u1: "gi_usage gi1 = 1" using gi1(3) gi(3) by (auto simp: same_shape_def)
    have inv1: "cred_inv ?s1 ?H ?G {#}" using inv by simp
    have old1: "cred_at ?s1 c = Some old" "gi_at ?s1 (cr_group_info old) = Some ogi" using assms(3) ogi at1 by simp_all
    from install_groups_spec [OF inv1 at1(3) old1(1) gi1(2) u1 old1(2), of env] obtain ret s' c' new gi' where
      s': "install_groups env cur gi1 ?s1 = Some (ret, s')" "cred_inv s' ?H ?G {#}" "settled s' cur c'" "cred_at s' c' = Some new"
      "gi_at s' (cr_group_info new) = Some gi'" "ret = None \<longleftrightarrow> env_cred_alloc env \<and> env_cred_lsm env"
      "same_cred (old\<lparr>cr_group_info := 0\<rparr>) (new\<lparr>cr_group_info := 0\<rparr>)"
      "groups_of gi' = (if ret = None then sort (groups_of gi1) else groups_of ogi)" "ret \<in> {None, Some ENOMEM}" by blast
    have run: "sys_setgroups env cur n a um ?s = Some (ret, s')"
      using now cap assms(5,6) al Some gi1(1) s'(1) by (simp add: sys_setgroups_def)
    have fs: "fsgid new = fsgid old" using same_credD(8) [OF s'(7)] by simp
    have len: "int (length vs) = n" using copy_from_user_length [OF assms(7)] assms(5) by simp
    have mem: "in_group_p s' cur grp = Some (grp = fsgid old \<or> grp \<in> set (groups_of gi'))" for grp
      using in_group_p_spec [OF s'(2,3,4,5)] fs by simp
    have "in_group_p ?s cur grp = Some (grp = fsgid old \<or> grp \<in> set (groups_of ogi))" for grp
      using in_group_p_spec [OF inv assms(2,3) ogi] .
    then show ?thesis
      using run mem s'(6,8,9) gi1(4) len getgroups_spec [OF s'(2,3,4,5)] al Some by (cases "ret = None") auto
  qed
qed


definition user_list :: user_mem where
  "user_list = (\<lambda>x. if x = 0 then Some 30 else if x = 1 then Some 10 else if x = 2 then Some 20 else None)"

theorem setgroups_round_trip_witness:
  "\<exists>s'. sys_setgroups plain_env 0 3 0 user_list (ks boot) = Some (None, s') \<and>
     in_group_p s' 0 20 = Some True \<and> in_group_p s' 0 99 = Some False"
proof -
  have 1: "cap_raised (cap_effective init_cred) CAP_SETGID" by (simp add: init_cred_def cap_raised_iff CAP_SETGID_def)
  have 2: "copy_from_user user_list 0 (nat 3) = Some [30, 10, 20]" by (simp add: user_list_def eval_nat_numeral)
  have 3: "fst (groups_alloc (env_kmalloc plain_env) (env_page plain_env) 3 (live (ks boot))) \<noteq> None"
    by (simp add: groups_alloc_def plain_env_def ngroups_consts)
  have 4: "\<forall>b. env_kmalloc plain_env = Some b \<longrightarrow> length b = 32" by (auto simp: plain_env_def)
  have 5: "\<forall>i b. env_page plain_env i = Some b \<longrightarrow> length b = 1024" by (auto simp: plain_env_def)
  have 6: "env_cred_alloc plain_env \<and> env_cred_lsm plain_env" by (simp add: plain_env_def)
  have 7: "(0 :: int) \<le> 3" "3 \<le> NGROUPS_MAX" by (simp_all add: NGROUPS_MAX_def)
  note trip = setgroups_round_trip [where env = plain_env, OF boot_reachable boot_settled 1 7 2 4 5]
  from trip 3 6 obtain ret s' where s': "sys_setgroups plain_env 0 3 0 user_list (ks boot) = Some (ret, s')" "ret = None"
    "\<forall>grp. in_group_p s' 0 grp = Some (grp = fsgid init_cred \<or> grp \<in> set [30, 10, 20])"
    by (metis (no_types, lifting))
  then show ?thesis by (simp add: init_cred_def)
qed

end
