(* ===== verification/Posix_Acl.thy ===== *)
theory Posix_Acl
  imports Set_Ids
begin

text \<open>
  POSIX access control lists (\<open>fs/posix_acl.c\<close>, \<open>include/linux/posix_acl.h\<close>): the test of validity, the
  conversions between a list and the permission bits of a file mode, the access check, and the changes that the
  creation of a file and \<open>chmod\<close> make to a list. The theory also holds the part of \<open>struct inode\<close> that the
  access checks read. The array \<open>a_entries\<close> of \<open>a_count\<close> entries is a list; \<open>e_tag\<close> is a signed short in the
  source and only compared with constants.
\<close>

subsection \<open>Data\<close>

definition ACL_USER_OBJ :: u16 where "ACL_USER_OBJ = 0x01"
definition ACL_USER :: u16 where "ACL_USER = 0x02"
definition ACL_GROUP_OBJ :: u16 where "ACL_GROUP_OBJ = 0x04"
definition ACL_GROUP :: u16 where "ACL_GROUP = 0x08"
definition ACL_MASK :: u16 where "ACL_MASK = 0x10"
definition ACL_OTHER :: u16 where "ACL_OTHER = 0x20"

definition ACL_UNDEFINED_ID :: u32 where "ACL_UNDEFINED_ID = - 1"

definition S_IRWXU :: u16 where "S_IRWXU = 0x1C0"
definition S_IRWXG :: u16 where "S_IRWXG = 0x38"
definition S_IRWXO :: u16 where "S_IRWXO = 0x7"
definition S_IRWXUGO :: u16 where "S_IRWXUGO = S_IRWXU OR S_IRWXG OR S_IRWXO"

definition MAY_EXEC :: u32 where "MAY_EXEC = 0x1"
definition MAY_WRITE :: u32 where "MAY_WRITE = 0x2"
definition MAY_READ :: u32 where "MAY_READ = 0x4"
definition MAY_NOT_BLOCK :: u32 where "MAY_NOT_BLOCK = 0x80"

lemmas acl_tags = ACL_USER_OBJ_def ACL_USER_def ACL_GROUP_OBJ_def ACL_GROUP_def ACL_MASK_def ACL_OTHER_def

record posix_acl_entry =
  e_tag :: u16
  e_perm :: u16
  e_id :: u32

record posix_acl =
  a_refcount :: int
  a_entries :: "posix_acl_entry list"

text \<open>
  A pointer to a list in an inode is \<open>NULL\<close>, the value \<open>ACL_NOT_CACHED\<close>, or the address of a list.
\<close>

datatype acl_ptr = ACL_NULL | ACL_NOT_CACHED | Acl nat

record timespec =
  tv_sec :: int
  tv_nsec :: int

record super_block =
  s_flags :: u32
  s_maxbytes :: int
  s_time_gran :: u32

record inode =
  i_mode :: u16
  i_opflags :: u16
  i_uid :: u32
  i_gid :: u32
  i_rdev :: u32
  i_flags :: u32
  i_acl :: acl_ptr
  i_default_acl :: acl_ptr
  i_sb :: super_block
  i_size :: int
  i_atime :: timespec
  i_mtime :: timespec
  i_ctime :: timespec

definition S_IFMT :: u16 where "S_IFMT = 0xF000"
definition S_IFSOCK :: u16 where "S_IFSOCK = 0xC000"
definition S_IFLNK :: u16 where "S_IFLNK = 0xA000"
definition S_IFREG :: u16 where "S_IFREG = 0x8000"
definition S_IFBLK :: u16 where "S_IFBLK = 0x6000"
definition S_IFDIR :: u16 where "S_IFDIR = 0x4000"
definition S_IFCHR :: u16 where "S_IFCHR = 0x2000"
definition S_IFIFO :: u16 where "S_IFIFO = 0x1000"

definition S_ISBLK :: "u16 \<Rightarrow> bool" where "S_ISBLK m \<longleftrightarrow> m AND S_IFMT = S_IFBLK"
definition S_ISCHR :: "u16 \<Rightarrow> bool" where "S_ISCHR m \<longleftrightarrow> m AND S_IFMT = S_IFCHR"
definition S_ISDIR :: "u16 \<Rightarrow> bool" where "S_ISDIR m \<longleftrightarrow> m AND S_IFMT = S_IFDIR"
definition S_ISREG :: "u16 \<Rightarrow> bool" where "S_ISREG m \<longleftrightarrow> m AND S_IFMT = S_IFREG"
definition S_ISLNK :: "u16 \<Rightarrow> bool" where "S_ISLNK m \<longleftrightarrow> m AND S_IFMT = S_IFLNK"

definition MAJOR :: "u32 \<Rightarrow> u32" where "MAJOR dev = drop_bit 20 dev"
definition MINOR :: "u32 \<Rightarrow> u32" where "MINOR dev = dev AND 0xFFFFF"

subsection \<open>Validity\<close>

fun valid_loop :: "posix_acl_entry list \<Rightarrow> u16 \<Rightarrow> u32 \<Rightarrow> bool \<Rightarrow> errno option" where
  "valid_loop [] state id' needs_mask = (if state = 0 then None else Some EINVAL)"
| "valid_loop (pa # ps) state id' needs_mask =
     (if e_perm pa AND NOT 7 \<noteq> 0 then Some EINVAL
      else if e_tag pa = ACL_USER_OBJ then
        (if state = ACL_USER_OBJ then valid_loop ps ACL_USER 0 needs_mask else Some EINVAL)
      else if e_tag pa = ACL_USER then
        (if state \<noteq> ACL_USER then Some EINVAL
         else if e_id pa = ACL_UNDEFINED_ID \<or> e_id pa < id' then Some EINVAL
         else valid_loop ps state (e_id pa + 1) True)
      else if e_tag pa = ACL_GROUP_OBJ then
        (if state = ACL_USER then valid_loop ps ACL_GROUP 0 needs_mask else Some EINVAL)
      else if e_tag pa = ACL_GROUP then
        (if state \<noteq> ACL_GROUP then Some EINVAL
         else if e_id pa = ACL_UNDEFINED_ID \<or> e_id pa < id' then Some EINVAL
         else valid_loop ps state (e_id pa + 1) True)
      else if e_tag pa = ACL_MASK then
        (if state \<noteq> ACL_GROUP then Some EINVAL else valid_loop ps ACL_OTHER id' needs_mask)
      else if e_tag pa = ACL_OTHER then
        (if state = ACL_OTHER \<or> state = ACL_GROUP \<and> \<not> needs_mask then valid_loop ps 0 id' needs_mask else Some EINVAL)
      else Some EINVAL)"

definition posix_acl_valid :: "posix_acl_entry list \<Rightarrow> errno option" where
  "posix_acl_valid acl = valid_loop acl ACL_USER_OBJ 0 False"

subsection \<open>Lists and modes\<close>

fun equiv_loop :: "posix_acl_entry list \<Rightarrow> u16 \<Rightarrow> bool \<Rightarrow> errno + u16 \<times> bool" where
  "equiv_loop [] mode not_equiv = Inr (mode, not_equiv)"
| "equiv_loop (pa # ps) mode not_equiv =
     (if e_tag pa = ACL_USER_OBJ then equiv_loop ps (mode OR push_bit 6 (e_perm pa AND S_IRWXO)) not_equiv
      else if e_tag pa = ACL_GROUP_OBJ then equiv_loop ps (mode OR push_bit 3 (e_perm pa AND S_IRWXO)) not_equiv
      else if e_tag pa = ACL_OTHER then equiv_loop ps (mode OR (e_perm pa AND S_IRWXO)) not_equiv
      else if e_tag pa = ACL_MASK then
        equiv_loop ps ((mode AND NOT S_IRWXG) OR push_bit 3 (e_perm pa AND S_IRWXO)) True
      else if e_tag pa = ACL_USER \<or> e_tag pa = ACL_GROUP then equiv_loop ps mode True
      else Inl EINVAL)"

text \<open>The result is \<open>not_equiv\<close> and the new value of \<open>*mode_p\<close>, where there is one.\<close>

definition posix_acl_equiv_mode :: "posix_acl_entry list \<Rightarrow> u16 option \<Rightarrow> errno + bool \<times> u16 option" where
  "posix_acl_equiv_mode acl mode_p =
     (case equiv_loop acl 0 False of
        Inl e \<Rightarrow> Inl e
      | Inr (mode, not_equiv) \<Rightarrow> Inr (not_equiv, map_option (\<lambda>m. (m AND NOT S_IRWXUGO) OR mode) mode_p))"

definition from_mode_entries :: "u16 \<Rightarrow> posix_acl_entry list" where
  "from_mode_entries mode =
     [\<lparr>e_tag = ACL_USER_OBJ, e_perm = drop_bit 6 (mode AND S_IRWXU), e_id = ACL_UNDEFINED_ID\<rparr>,
      \<lparr>e_tag = ACL_GROUP_OBJ, e_perm = drop_bit 3 (mode AND S_IRWXG), e_id = ACL_UNDEFINED_ID\<rparr>,
      \<lparr>e_tag = ACL_OTHER, e_perm = mode AND S_IRWXO, e_id = ACL_UNDEFINED_ID\<rparr>]"

subsection \<open>The access check\<close>

definition check_perm :: "posix_acl_entry \<Rightarrow> u32 \<Rightarrow> errno option" where
  "check_perm pa want = (if ucast (e_perm pa) AND want = want then None else Some EACCES)"

fun mask_perm :: "posix_acl_entry \<Rightarrow> posix_acl_entry list \<Rightarrow> u32 \<Rightarrow> errno option" where
  "mask_perm pa [] want = check_perm pa want"
| "mask_perm pa (mask_obj # ps) want =
     (if e_tag mask_obj = ACL_MASK
      then if ucast (e_perm pa) AND ucast (e_perm mask_obj) AND want = want then None else Some EACCES
      else mask_perm pa ps want)"

fun permission_loop ::
  "cred_state \<Rightarrow> nat \<Rightarrow> inode \<Rightarrow> u32 \<Rightarrow> posix_acl_entry list \<Rightarrow> bool \<Rightarrow> errno option option" where
  "permission_loop s cur inode want [] found = Some (Some EIO)"
| "permission_loop s cur inode want (pa # ps) found =
     (if e_tag pa = ACL_USER_OBJ then do {
        cr \<leftarrow> current_cred s cur;
        if i_uid inode = fsuid cr then Some (check_perm pa want) else permission_loop s cur inode want ps found
      }
      else if e_tag pa = ACL_USER then do {
        cr \<leftarrow> current_cred s cur;
        if e_id pa = fsuid cr then Some (mask_perm pa ps want) else permission_loop s cur inode want ps found
      }
      else if e_tag pa = ACL_GROUP_OBJ then do {
        isin \<leftarrow> in_group_p s cur (i_gid inode);
        if isin \<and> ucast (e_perm pa) AND want = want then Some (mask_perm pa ps want)
        else permission_loop s cur inode want ps (found \<or> isin)
      }
      else if e_tag pa = ACL_GROUP then do {
        isin \<leftarrow> in_group_p s cur (e_id pa);
        if isin \<and> ucast (e_perm pa) AND want = want then Some (mask_perm pa ps want)
        else permission_loop s cur inode want ps (found \<or> isin)
      }
      else if e_tag pa = ACL_MASK then permission_loop s cur inode want ps found
      else if e_tag pa = ACL_OTHER then Some (if found then Some EACCES else check_perm pa want)
      else Some (Some EIO))"

definition posix_acl_permission :: "cred_state \<Rightarrow> nat \<Rightarrow> inode \<Rightarrow> posix_acl_entry list \<Rightarrow> u32 \<Rightarrow> errno option option" where
  "posix_acl_permission s cur inode acl want =
     permission_loop s cur inode (want AND (MAY_READ OR MAY_WRITE OR MAY_EXEC OR MAY_NOT_BLOCK)) acl False"

subsection \<open>Creation and chmod\<close>

text \<open>
  The pointers \<open>group_obj\<close> and \<open>mask_obj\<close> are positions in the list; the loop leaves those of the last entries
  with these tags. \<open>masq_at\<close> changes the entry behind a position.
\<close>

definition masq_at :: "posix_acl_entry list \<Rightarrow> nat \<Rightarrow> (u16 \<Rightarrow> u16) \<Rightarrow> posix_acl_entry list" where
  "masq_at acl k g = acl[k := (acl ! k)\<lparr>e_perm := g (e_perm (acl ! k))\<rparr>]"

record masq_state =
  m_mode :: u16
  m_group_obj :: "nat option"
  m_mask_obj :: "nat option"
  m_not_equiv :: bool

fun create_masq_loop :: "posix_acl_entry list \<Rightarrow> nat \<Rightarrow> masq_state \<Rightarrow> (posix_acl_entry list \<times> masq_state) option" where
  "create_masq_loop [] n st = Some ([], st)"
| "create_masq_loop (pa # ps) n st =
     (let next = (\<lambda>pa st. map_option (\<lambda>(qs, st). (pa # qs, st)) (create_masq_loop ps (Suc n) st)) in
      if e_tag pa = ACL_USER_OBJ then
        let pa = pa\<lparr>e_perm := e_perm pa AND (drop_bit 6 (m_mode st) OR NOT S_IRWXO)\<rparr> in
        next pa (st\<lparr>m_mode := m_mode st AND (push_bit 6 (e_perm pa) OR NOT S_IRWXU)\<rparr>)
      else if e_tag pa = ACL_USER \<or> e_tag pa = ACL_GROUP then next pa (st\<lparr>m_not_equiv := True\<rparr>)
      else if e_tag pa = ACL_GROUP_OBJ then next pa (st\<lparr>m_group_obj := Some n\<rparr>)
      else if e_tag pa = ACL_OTHER then
        let pa = pa\<lparr>e_perm := e_perm pa AND (m_mode st OR NOT S_IRWXO)\<rparr> in
        next pa (st\<lparr>m_mode := m_mode st AND (e_perm pa OR NOT S_IRWXO)\<rparr>)
      else if e_tag pa = ACL_MASK then next pa (st\<lparr>m_mask_obj := Some n, m_not_equiv := True\<rparr>)
      else None)"

text \<open>The changed list, \<open>not_equiv\<close> and the new mode. On an error the caller throws the list away.\<close>

definition create_masq_group :: "posix_acl_entry list \<Rightarrow> nat \<Rightarrow> u16 \<Rightarrow> posix_acl_entry list \<times> u16" where
  "create_masq_group acl k mode =
     (let acl = masq_at acl k (\<lambda>p. p AND (drop_bit 3 mode OR NOT S_IRWXO)) in
      (acl, mode AND (push_bit 3 (e_perm (acl ! k)) OR NOT S_IRWXG)))"

definition posix_acl_create_masq :: "posix_acl_entry list \<Rightarrow> u16 \<Rightarrow> errno + posix_acl_entry list \<times> bool \<times> u16" where
  "posix_acl_create_masq acl mode_p =
     (case create_masq_loop acl 0 \<lparr>m_mode = mode_p, m_group_obj = None, m_mask_obj = None, m_not_equiv = False\<rparr> of
        None \<Rightarrow> Inl EIO
      | Some (acl, st) \<Rightarrow>
          (case (case m_mask_obj st of Some k \<Rightarrow> Some k | None \<Rightarrow> m_group_obj st) of
             None \<Rightarrow> Inl EIO
           | Some k \<Rightarrow>
               (case create_masq_group acl k (m_mode st) of
                  (acl, mode) \<Rightarrow> Inr (acl, m_not_equiv st, (mode_p AND NOT S_IRWXUGO) OR mode))))"

fun chmod_masq_loop ::
  "posix_acl_entry list \<Rightarrow> u16 \<Rightarrow> nat \<Rightarrow> nat option \<Rightarrow> nat option \<Rightarrow> (posix_acl_entry list \<times> nat option \<times> nat option) option" where
  "chmod_masq_loop [] mode n group_obj mask_obj = Some ([], group_obj, mask_obj)"
| "chmod_masq_loop (pa # ps) mode n group_obj mask_obj =
     (let next = (\<lambda>pa g m. map_option (\<lambda>(qs, r). (pa # qs, r)) (chmod_masq_loop ps mode (Suc n) g m)) in
      if e_tag pa = ACL_USER_OBJ then next (pa\<lparr>e_perm := drop_bit 6 (mode AND S_IRWXU)\<rparr>) group_obj mask_obj
      else if e_tag pa = ACL_USER \<or> e_tag pa = ACL_GROUP then next pa group_obj mask_obj
      else if e_tag pa = ACL_GROUP_OBJ then next pa (Some n) mask_obj
      else if e_tag pa = ACL_MASK then next pa group_obj (Some n)
      else if e_tag pa = ACL_OTHER then next (pa\<lparr>e_perm := mode AND S_IRWXO\<rparr>) group_obj mask_obj
      else None)"

definition posix_acl_chmod_masq :: "posix_acl_entry list \<Rightarrow> u16 \<Rightarrow> errno + posix_acl_entry list" where
  "posix_acl_chmod_masq acl mode =
     (case chmod_masq_loop acl mode 0 None None of
        None \<Rightarrow> Inl EIO
      | Some (acl, group_obj, mask_obj) \<Rightarrow>
          (case (case mask_obj of Some k \<Rightarrow> Some k | None \<Rightarrow> group_obj) of
             None \<Rightarrow> Inl EIO
           | Some k \<Rightarrow> Inr (masq_at acl k (\<lambda>_. drop_bit 3 (mode AND S_IRWXG)))))"

subsection \<open>The shape of a valid list\<close>

text \<open>
  A valid list is one owner entry, named users with increasing ids, one owning-group entry, named groups with
  increasing ids, at most one mask, which must be there if there are named entries, and one entry for the others.
\<close>

definition named :: "u16 \<Rightarrow> posix_acl_entry list \<Rightarrow> bool" where
  "named tag ps \<longleftrightarrow> (\<forall>p\<in>set ps. e_tag p = tag \<and> e_perm p AND NOT 7 = 0 \<and> e_id p \<noteq> ACL_UNDEFINED_ID) \<and>
     sorted_wrt (<) (map e_id ps)"

definition single :: "u16 \<Rightarrow> posix_acl_entry \<Rightarrow> bool" where
  "single tag p \<longleftrightarrow> e_tag p = tag \<and> e_perm p AND NOT 7 = 0"

definition acl_list ::
  "posix_acl_entry \<Rightarrow> posix_acl_entry list \<Rightarrow> posix_acl_entry \<Rightarrow> posix_acl_entry list \<Rightarrow> posix_acl_entry option \<Rightarrow>
   posix_acl_entry \<Rightarrow> posix_acl_entry list" where
  "acl_list uo us go gs m ot = uo # us @ go # gs @ (case m of None \<Rightarrow> [] | Some p \<Rightarrow> [p]) @ [ot]"

definition acl_parts ::
  "posix_acl_entry \<Rightarrow> posix_acl_entry list \<Rightarrow> posix_acl_entry \<Rightarrow> posix_acl_entry list \<Rightarrow> posix_acl_entry option \<Rightarrow>
   posix_acl_entry \<Rightarrow> bool" where
  "acl_parts uo us go gs m ot \<longleftrightarrow> single ACL_USER_OBJ uo \<and> named ACL_USER us \<and> single ACL_GROUP_OBJ go \<and>
     named ACL_GROUP gs \<and> (\<forall>p. m = Some p \<longrightarrow> single ACL_MASK p) \<and> single ACL_OTHER ot \<and> (us \<noteq> [] \<or> gs \<noteq> [] \<longrightarrow> m \<noteq> None)"

definition acl_shape :: "posix_acl_entry list \<Rightarrow> bool" where
  "acl_shape acl \<longleftrightarrow> (\<exists>uo us go gs m ot. acl = acl_list uo us go gs m ot \<and> acl_parts uo us go gs m ot)"

definition named_from :: "u16 \<Rightarrow> u32 \<Rightarrow> posix_acl_entry list \<Rightarrow> bool" where
  "named_from tag i ps \<longleftrightarrow> named tag ps \<and> (\<forall>p\<in>set ps. i \<le> e_id p)"

lemma named_from_Nil [simp]: "named_from tag i []"
  by (simp add: named_from_def named_def)

lemma named_from_Cons:
  "named_from tag i (p # ps) \<longleftrightarrow>
     e_tag p = tag \<and> e_perm p AND NOT 7 = 0 \<and> e_id p \<noteq> ACL_UNDEFINED_ID \<and> i \<le> e_id p \<and> named_from tag (e_id p + 1) ps"
  by (auto simp: named_from_def named_def inc_less_eq_iff ACL_UNDEFINED_ID_def)

lemma named_from_0 [simp]: "named_from tag 0 ps = named tag ps"
  by (simp add: named_from_def)

lemma valid_end: "valid_loop ps 0 i nm = None \<longleftrightarrow> ps = []"
  by (cases ps) (auto simp: acl_tags)

lemma valid_other: "valid_loop ps ACL_OTHER i nm = None \<longleftrightarrow> (\<exists>ot. ps = [ot] \<and> single ACL_OTHER ot)"
  by (cases ps) (auto simp: acl_tags single_def valid_end)

definition group_part :: "bool \<Rightarrow> posix_acl_entry list \<Rightarrow> posix_acl_entry list \<Rightarrow> posix_acl_entry option \<Rightarrow> posix_acl_entry \<Rightarrow> bool" where
  "group_part nm ps gs m ot \<longleftrightarrow> ps = gs @ (case m of None \<Rightarrow> [] | Some p \<Rightarrow> [p]) @ [ot] \<and>
     (\<forall>p. m = Some p \<longrightarrow> single ACL_MASK p) \<and> single ACL_OTHER ot \<and> (nm \<or> gs \<noteq> [] \<longrightarrow> m \<noteq> None)"

lemma valid_group_shape:
  "valid_loop ps ACL_GROUP i nm = None \<Longrightarrow> \<exists>gs m ot. named_from ACL_GROUP i gs \<and> group_part nm ps gs m ot"
proof (induction ps arbitrary: i nm)
  case Nil
  then show ?case by (simp add: acl_tags)
next
  case (Cons p ps)
  consider (group) "e_tag p = ACL_GROUP" | (mask) "e_tag p = ACL_MASK" | (other) "e_tag p = ACL_OTHER"
    using Cons.prems by (auto simp: acl_tags split: if_splits)
  then show ?case
  proof cases
    case group
    then have *: "valid_loop ps ACL_GROUP (e_id p + 1) True = None" "e_perm p AND NOT 7 = 0" "e_id p \<noteq> ACL_UNDEFINED_ID" "i \<le> e_id p"
      using Cons.prems by (auto simp: acl_tags split: if_splits)
    obtain gs m ot where "named_from ACL_GROUP (e_id p + 1) gs" "group_part True ps gs m ot" using Cons.IH [OF *(1)] by blast
    then have "named_from ACL_GROUP i (p # gs) \<and> group_part nm (p # ps) (p # gs) m ot"
      using * group by (simp add: named_from_Cons group_part_def)
    then show ?thesis by blast
  next
    case mask
    then have "valid_loop ps ACL_OTHER i nm = None" "single ACL_MASK p"
      using Cons.prems by (auto simp: acl_tags single_def split: if_splits)
    then obtain ot where "group_part nm (p # ps) [] (Some p) ot" by (auto simp: valid_other group_part_def)
    then show ?thesis using named_from_Nil by blast
  next
    case other
    then have "ps = []" "\<not> nm" "single ACL_OTHER p"
      using Cons.prems by (auto simp: acl_tags single_def valid_end split: if_splits)
    then have "group_part nm (p # ps) [] None p" by (simp add: group_part_def)
    then show ?thesis using named_from_Nil by blast
  qed
qed

lemma valid_group:
  "named_from ACL_GROUP i gs \<Longrightarrow> group_part nm ps gs m ot \<Longrightarrow> valid_loop ps ACL_GROUP i nm = None"
proof (induction gs arbitrary: i nm ps)
  case Nil
  then show ?case by (cases m) (auto simp: group_part_def single_def acl_tags)
next
  case (Cons g gs)
  obtain ps' where ps: "ps = g # ps'" "group_part True ps' gs m ot" using Cons.prems(2) by (auto simp: group_part_def)
  then show ?case using Cons.IH Cons.prems(1) by (simp add: named_from_Cons acl_tags not_less)
qed

definition user_part ::
  "bool \<Rightarrow> posix_acl_entry list \<Rightarrow> posix_acl_entry list \<Rightarrow> posix_acl_entry \<Rightarrow> posix_acl_entry list \<Rightarrow> posix_acl_entry option \<Rightarrow>
   posix_acl_entry \<Rightarrow> bool" where
  "user_part nm ps us go gs m ot \<longleftrightarrow> (\<exists>qs. ps = us @ go # qs \<and> single ACL_GROUP_OBJ go \<and> named ACL_GROUP gs \<and>
     group_part (nm \<or> us \<noteq> []) qs gs m ot)"

lemma valid_user_shape:
  "valid_loop ps ACL_USER i nm = None \<Longrightarrow> \<exists>us go gs m ot. named_from ACL_USER i us \<and> user_part nm ps us go gs m ot"
proof (induction ps arbitrary: i nm)
  case Nil
  then show ?case by (simp add: acl_tags)
next
  case (Cons p ps)
  consider (user) "e_tag p = ACL_USER" | (grp) "e_tag p = ACL_GROUP_OBJ"
    using Cons.prems by (auto simp: acl_tags split: if_splits)
  then show ?case
  proof cases
    case user
    then have *: "valid_loop ps ACL_USER (e_id p + 1) True = None" "e_perm p AND NOT 7 = 0" "e_id p \<noteq> ACL_UNDEFINED_ID" "i \<le> e_id p"
      using Cons.prems by (auto simp: acl_tags split: if_splits)
    obtain us go gs m ot where "named_from ACL_USER (e_id p + 1) us" "user_part True ps us go gs m ot"
      using Cons.IH [OF *(1)] by blast
    then have "named_from ACL_USER i (p # us) \<and> user_part nm (p # ps) (p # us) go gs m ot"
      using * user by (simp add: named_from_Cons user_part_def)
    then show ?thesis by blast
  next
    case grp
    then have "valid_loop ps ACL_GROUP 0 nm = None" "single ACL_GROUP_OBJ p"
      using Cons.prems by (auto simp: acl_tags single_def split: if_splits)
    then obtain gs m ot where "user_part nm (p # ps) [] p gs m ot"
      using valid_group_shape [of ps 0 nm] by (auto simp: user_part_def)
    then show ?thesis using named_from_Nil by blast
  qed
qed

lemma valid_user:
  "named_from ACL_USER i us \<Longrightarrow> user_part nm ps us go gs m ot \<Longrightarrow> valid_loop ps ACL_USER i nm = None"
proof (induction us arbitrary: i nm ps)
  case Nil
  then show ?case using valid_group [of 0 gs] by (auto simp: user_part_def single_def acl_tags)
next
  case (Cons u us)
  obtain ps' where ps: "ps = u # ps'" "user_part True ps' us go gs m ot" using Cons.prems(2) by (auto simp: user_part_def)
  then show ?case using Cons.IH Cons.prems(1) by (simp add: named_from_Cons acl_tags not_less)
qed

lemma user_part_iff:
  "single ACL_USER_OBJ uo \<and> named ACL_USER us \<and> user_part False ps us go gs m ot \<longleftrightarrow>
     uo # ps = acl_list uo us go gs m ot \<and> acl_parts uo us go gs m ot"
  by (auto simp: user_part_def group_part_def acl_list_def acl_parts_def)

lemma valid_start:
  "valid_loop acl ACL_USER_OBJ i False = None \<longleftrightarrow> (\<exists>uo ps. acl = uo # ps \<and> single ACL_USER_OBJ uo \<and> valid_loop ps ACL_USER 0 False = None)"
  by (cases acl) (auto simp: acl_tags single_def split: if_splits)

lemma valid_iff_shape: "posix_acl_valid acl = None \<longleftrightarrow> acl_shape acl"
proof
  assume "posix_acl_valid acl = None"
  then obtain uo ps where *: "acl = uo # ps" "single ACL_USER_OBJ uo" "valid_loop ps ACL_USER 0 False = None"
    unfolding posix_acl_valid_def valid_start by blast
  obtain us go gs m ot where "named ACL_USER us" "user_part False ps us go gs m ot"
    using valid_user_shape [OF *(3)] unfolding named_from_0 by blast
  with *(1,2) have "acl = acl_list uo us go gs m ot \<and> acl_parts uo us go gs m ot" using user_part_iff by blast
  then show "acl_shape acl" unfolding acl_shape_def by blast
next
  assume "acl_shape acl"
  then obtain uo us go gs m ot where *: "acl = acl_list uo us go gs m ot" "acl_parts uo us go gs m ot" by (auto simp: acl_shape_def)
  then obtain ps where "acl = uo # ps" by (simp add: acl_list_def)
  then show "posix_acl_valid acl = None"
    using user_part_iff [of uo us ps go gs m ot] * valid_user [of 0 us] unfolding posix_acl_valid_def valid_start named_from_0
    by blast
qed

lemma valid_loop_error: "valid_loop ps st i nm \<in> {None, Some EINVAL}"
proof (induction ps arbitrary: st i nm)
  case (Cons p ps)
  have if_in: "x \<in> S \<Longrightarrow> y \<in> S \<Longrightarrow> (if c then x else y) \<in> S" for c and x y :: "errno option" and S by simp
  show ?case unfolding valid_loop.simps by (intro if_in Cons.IH) simp_all
qed simp

text \<open>C29. The automaton of \<open>posix_acl_valid\<close> accepts exactly the lists of the shape of an access control list: owner, named users with
  increasing ids, owning group, named groups with increasing ids, mask and others, with no bits but the three of a
  permission, and with a mask where an entry is named. It refuses every other list with \<open>EINVAL\<close>.\<close>

theorem posix_acl_valid_exact: "posix_acl_valid acl = (if acl_shape acl then None else Some EINVAL)"
  using valid_iff_shape [of acl] valid_loop_error [of acl ACL_USER_OBJ 0 False] unfolding posix_acl_valid_def by auto

subsection \<open>The access decision\<close>

text \<open>
  The decision that POSIX 1003.1e prescribes: the owner's entry; else the entry that names the user, within the
  mask; else, if some group entry applies, one that applies and grants the access within the mask; else the entry
  for the others.
\<close>

definition covers :: "u32 \<Rightarrow> u32 \<Rightarrow> bool" where
  "covers p want \<longleftrightarrow> p AND want = want"

definition acl_mask :: "posix_acl_entry list \<Rightarrow> u32" where
  "acl_mask acl = (case find (\<lambda>e. e_tag e = ACL_MASK) acl of Some m \<Rightarrow> ucast (e_perm m) | None \<Rightarrow> - 1)"

definition group_applies :: "(u32 \<Rightarrow> bool) \<Rightarrow> inode \<Rightarrow> posix_acl_entry \<Rightarrow> bool" where
  "group_applies member inode e \<longleftrightarrow>
     e_tag e = ACL_GROUP_OBJ \<and> member (i_gid inode) \<or> e_tag e = ACL_GROUP \<and> member (e_id e)"

definition acl_access :: "u32 \<Rightarrow> (u32 \<Rightarrow> bool) \<Rightarrow> inode \<Rightarrow> posix_acl_entry list \<Rightarrow> u32 \<Rightarrow> bool" where
  "acl_access user member inode acl want \<longleftrightarrow>
     (if i_uid inode = user then \<exists>e\<in>set acl. e_tag e = ACL_USER_OBJ \<and> covers (ucast (e_perm e)) want
      else if \<exists>e\<in>set acl. e_tag e = ACL_USER \<and> e_id e = user
      then \<exists>e\<in>set acl. e_tag e = ACL_USER \<and> e_id e = user \<and> covers (ucast (e_perm e) AND acl_mask acl) want
      else if \<exists>e\<in>set acl. group_applies member inode e
      then \<exists>e\<in>set acl. group_applies member inode e \<and> covers (ucast (e_perm e) AND acl_mask acl) want
      else \<exists>e\<in>set acl. e_tag e = ACL_OTHER \<and> covers (ucast (e_perm e)) want)"

definition verdict :: "bool \<Rightarrow> errno option" where
  "verdict b = (if b then None else Some EACCES)"

lemma check_perm_eq: "check_perm pa want = verdict (covers (ucast (e_perm pa)) want)"
  by (simp add: check_perm_def verdict_def covers_def)

lemma mask_perm_eq: "mask_perm pa ps want = verdict (covers (ucast (e_perm pa) AND acl_mask ps) want)"
  by (induction ps) (auto simp: check_perm_eq acl_mask_def verdict_def covers_def and.assoc)

lemma acl_mask_skip [simp]: "\<forall>e\<in>set ps. e_tag e \<noteq> ACL_MASK \<Longrightarrow> acl_mask (ps @ qs) = acl_mask qs"
  by (induction ps) (auto simp: acl_mask_def)

lemma acl_mask_Cons: "acl_mask (p # ps) = (if e_tag p = ACL_MASK then ucast (e_perm p) else acl_mask ps)"
  by (simp add: acl_mask_def)

lemma covers_iff: "covers p want \<longleftrightarrow> (\<forall>n. bit want n \<longrightarrow> bit p n)"
proof
  assume "covers p want"
  then have "bit (p AND want) n = bit want n" for n by (simp add: covers_def)
  then show "\<forall>n. bit want n \<longrightarrow> bit p n" by (auto simp: bit_and_iff)
next
  assume "\<forall>n. bit want n \<longrightarrow> bit p n"
  then show "covers p want" unfolding covers_def by (intro bit_word_eqI) (auto simp: bit_and_iff)
qed

lemma covers_and: "covers (p AND q) want \<longleftrightarrow> covers p want \<and> covers q want"
  by (auto simp: covers_iff bit_and_iff)

lemma loop_users:
  assumes "current_cred s cur = Some cr" "\<forall>e\<in>set us. e_tag e = ACL_USER"
  shows "permission_loop s cur inode want (us @ rest) found =
     (case find (\<lambda>e. e_id e = fsuid cr) us of
        Some e \<Rightarrow> Some (verdict (covers (ucast (e_perm e) AND acl_mask rest) want))
      | None \<Rightarrow> permission_loop s cur inode want rest found)"
  using assms(2) by (induction us) (auto simp: assms(1) acl_tags mask_perm_eq)

lemma loop_groups:
  assumes "\<forall>g. in_group_p s cur g = Some (member g)" "\<forall>e\<in>set gs. e_tag e = ACL_GROUP"
  shows "permission_loop s cur inode want (gs @ rest) found =
     (case find (\<lambda>e. member (e_id e) \<and> covers (ucast (e_perm e)) want) gs of
        Some e \<Rightarrow> Some (verdict (covers (ucast (e_perm e) AND acl_mask rest) want))
      | None \<Rightarrow> permission_loop s cur inode want rest (found \<or> (\<exists>e\<in>set gs. member (e_id e))))"
  using assms(2)
proof (induction gs arbitrary: found)
  case (Cons g gs)
  have "acl_mask (gs @ rest) = acl_mask rest" using Cons.prems by (simp add: acl_tags)
  moreover have "e_tag g = ACL_GROUP" "\<forall>e\<in>set gs. e_tag e = ACL_GROUP" using Cons.prems by simp_all
  ultimately show ?case
    using Cons.IH assms(1)
    by (cases "member (e_id g)"; cases "covers (ucast (e_perm g)) want")
      (simp_all add: covers_def [symmetric] mask_perm_eq acl_tags cong: option.case_cong)
qed simp

lemma loop_tail:
  assumes "\<forall>p. m = Some p \<longrightarrow> single ACL_MASK p" "single ACL_OTHER ot"
  shows "permission_loop s cur inode want ((case m of None \<Rightarrow> [] | Some p \<Rightarrow> [p]) @ [ot]) found =
     Some (verdict (\<not> found \<and> covers (ucast (e_perm ot)) want))"
  using assms by (cases m) (auto simp: single_def acl_tags check_perm_eq verdict_def)

lemma find_sorted: "sorted_wrt (<) (map e_id us) \<Longrightarrow> e \<in> set us \<Longrightarrow> find (\<lambda>x. e_id x = e_id e) us = Some e"
  by (induction us) auto

lemma find_named: "named tag us \<Longrightarrow> e \<in> set us \<Longrightarrow> e_id e = i \<Longrightarrow> find (\<lambda>e. e_id e = i) us = Some e"
  using find_sorted unfolding named_def by blast

lemma permission_loop_acl:
  assumes cr: "current_cred s cur = Some cr" and grp: "\<forall>g. in_group_p s cur g = Some (member g)"
    and parts: "acl_parts uo us go gs m ot"
  defines "end_part \<equiv> (case m of None \<Rightarrow> [] | Some p \<Rightarrow> [p]) @ [ot]"
  shows "permission_loop s cur inode want (acl_list uo us go gs m ot) False = Some (verdict (
     if i_uid inode = fsuid cr then covers (ucast (e_perm uo)) want
     else if \<exists>e\<in>set us. e_id e = fsuid cr
     then \<exists>e\<in>set us. e_id e = fsuid cr \<and> covers (ucast (e_perm e) AND acl_mask end_part) want
     else if member (i_gid inode) \<or> (\<exists>e\<in>set gs. member (e_id e))
     then member (i_gid inode) \<and> covers (ucast (e_perm go) AND acl_mask end_part) want \<or>
       (\<exists>e\<in>set gs. member (e_id e) \<and> covers (ucast (e_perm e) AND acl_mask end_part) want)
     else covers (ucast (e_perm ot)) want))"
proof -
  have us: "\<forall>e\<in>set us. e_tag e = ACL_USER" and gs: "\<forall>e\<in>set gs. e_tag e = ACL_GROUP" and go: "e_tag go = ACL_GROUP_OBJ"
    and uo: "e_tag uo = ACL_USER_OBJ" using parts by (auto simp: acl_parts_def named_def single_def)
  have tail: "permission_loop s cur inode want end_part found = Some (verdict (\<not> found \<and> covers (ucast (e_perm ot)) want))" for found
    using loop_tail parts unfolding acl_parts_def end_part_def by blast
  have mask: "acl_mask (go # gs @ end_part) = acl_mask end_part" "acl_mask (gs @ end_part) = acl_mask end_part"
    using gs go by (simp_all add: acl_mask_Cons acl_tags)
  have groups: "permission_loop s cur inode want (go # gs @ end_part) False = Some (verdict (
     if member (i_gid inode) \<or> (\<exists>e\<in>set gs. member (e_id e))
     then member (i_gid inode) \<and> covers (ucast (e_perm go) AND acl_mask end_part) want \<or>
       (\<exists>e\<in>set gs. member (e_id e) \<and> covers (ucast (e_perm e) AND acl_mask end_part) want)
     else covers (ucast (e_perm ot)) want))"
  proof (cases "find (\<lambda>e. member (e_id e) \<and> covers (ucast (e_perm e)) want) gs")
    case None
    then have "\<forall>e\<in>set gs. member (e_id e) \<longrightarrow> \<not> covers (ucast (e_perm e)) want" by (auto simp: find_None_iff)
    then show ?thesis
      using go mask None loop_groups [OF grp gs, of inode want end_part] by (auto simp: grp tail acl_tags mask_perm_eq covers_and covers_def [symmetric] verdict_def)
  next
    case (Some e)
    then have "e \<in> set gs" "member (e_id e)" "covers (ucast (e_perm e)) want" by (auto simp: find_Some_iff)
    then show ?thesis
      using go mask Some loop_groups [OF grp gs, of inode want end_part] by (auto simp: grp acl_tags mask_perm_eq covers_and covers_def [symmetric] verdict_def)
  qed
  show ?thesis
  proof (cases "\<exists>e\<in>set us. e_id e = fsuid cr")
    case True
    then obtain e where e: "e \<in> set us" "e_id e = fsuid cr" by blast
    have "find (\<lambda>e. e_id e = fsuid cr) us = Some e" using find_named [of ACL_USER us e] e parts by (simp add: acl_parts_def)
    moreover have "e' = e" if "e' \<in> set us" "e_id e' = fsuid cr" for e'
      using find_named [of ACL_USER us e'] that calculation parts by (simp add: acl_parts_def)
    then have "(\<exists>e'\<in>set us. e_id e' = fsuid cr \<and> Q e') \<longleftrightarrow> Q e" for Q using e by blast
    ultimately show ?thesis
      using True uo loop_users [OF cr us] by (simp add: acl_list_def end_part_def [symmetric] cr check_perm_eq mask)
  next
    case False
    then have "find (\<lambda>e. e_id e = fsuid cr) us = None" by (auto simp: find_None_iff)
    then show ?thesis
      using False uo loop_users [OF cr us] groups by (simp add: acl_list_def end_part_def [symmetric] cr check_perm_eq)
  qed
qed

lemma tags_bex:
  assumes "\<forall>e\<in>set es. e_tag e = tag"
  shows "(\<exists>e\<in>set es. e_tag e = tag' \<and> P e) \<longleftrightarrow> tag = tag' \<and> (\<exists>e\<in>set es. P e)"
    "(\<exists>e\<in>set es. group_applies member inode e \<and> P e) \<longleftrightarrow>
       (\<exists>e\<in>set es. (tag = ACL_GROUP_OBJ \<and> member (i_gid inode) \<or> tag = ACL_GROUP \<and> member (e_id e)) \<and> P e)"
    "(\<exists>e\<in>set es. group_applies member inode e) \<longleftrightarrow>
       (\<exists>e\<in>set es. tag = ACL_GROUP_OBJ \<and> member (i_gid inode) \<or> tag = ACL_GROUP \<and> member (e_id e))"
  using assms by (auto simp: group_applies_def)

lemma acl_access_parts:
  assumes parts: "acl_parts uo us go gs m ot"
  defines "end_part \<equiv> (case m of None \<Rightarrow> [] | Some p \<Rightarrow> [p]) @ [ot]"
  shows "acl_access user member inode (acl_list uo us go gs m ot) want \<longleftrightarrow>
     (if i_uid inode = user then covers (ucast (e_perm uo)) want
      else if \<exists>e\<in>set us. e_id e = user
      then \<exists>e\<in>set us. e_id e = user \<and> covers (ucast (e_perm e) AND acl_mask end_part) want
      else if member (i_gid inode) \<or> (\<exists>e\<in>set gs. member (e_id e))
      then member (i_gid inode) \<and> covers (ucast (e_perm go) AND acl_mask end_part) want \<or>
        (\<exists>e\<in>set gs. member (e_id e) \<and> covers (ucast (e_perm e) AND acl_mask end_part) want)
      else covers (ucast (e_perm ot)) want)"
proof -
  have us: "\<forall>e\<in>set us. e_tag e = ACL_USER" and gs: "\<forall>e\<in>set gs. e_tag e = ACL_GROUP" and go: "e_tag go = ACL_GROUP_OBJ"
    and uo: "e_tag uo = ACL_USER_OBJ" and ot: "e_tag ot = ACL_OTHER" and m: "m = Some p \<Longrightarrow> e_tag p = ACL_MASK" for p
    using parts by (auto simp: acl_parts_def named_def single_def)
  have "\<forall>e\<in>set us. e_tag e \<noteq> ACL_MASK" "\<forall>e\<in>set gs. e_tag e \<noteq> ACL_MASK" using us gs by (simp_all add: acl_tags)
  then have mask: "acl_mask (acl_list uo us go gs m ot) = acl_mask end_part"
    using uo go by (simp add: acl_list_def end_part_def acl_mask_Cons) (simp add: acl_tags)
  have ne: "ACL_USER_OBJ \<noteq> ACL_USER" "ACL_USER_OBJ \<noteq> ACL_GROUP_OBJ" "ACL_USER_OBJ \<noteq> ACL_GROUP" "ACL_USER_OBJ \<noteq> ACL_OTHER"
    "ACL_USER \<noteq> ACL_USER_OBJ" "ACL_USER \<noteq> ACL_GROUP_OBJ" "ACL_USER \<noteq> ACL_GROUP" "ACL_USER \<noteq> ACL_OTHER"
    "ACL_GROUP_OBJ \<noteq> ACL_USER_OBJ" "ACL_GROUP_OBJ \<noteq> ACL_USER" "ACL_GROUP_OBJ \<noteq> ACL_GROUP" "ACL_GROUP_OBJ \<noteq> ACL_OTHER"
    "ACL_GROUP \<noteq> ACL_USER_OBJ" "ACL_GROUP \<noteq> ACL_USER" "ACL_GROUP \<noteq> ACL_GROUP_OBJ" "ACL_GROUP \<noteq> ACL_OTHER"
    "ACL_MASK \<noteq> ACL_USER_OBJ" "ACL_MASK \<noteq> ACL_USER" "ACL_MASK \<noteq> ACL_GROUP" "ACL_MASK \<noteq> ACL_GROUP_OBJ" "ACL_MASK \<noteq> ACL_OTHER"
    "ACL_OTHER \<noteq> ACL_USER_OBJ" "ACL_OTHER \<noteq> ACL_USER" "ACL_OTHER \<noteq> ACL_GROUP" "ACL_OTHER \<noteq> ACL_GROUP_OBJ"
    by (simp_all add: acl_tags)
  have ga: "\<not> group_applies member inode uo" "group_applies member inode go \<longleftrightarrow> member (i_gid inode)"
    "\<not> group_applies member inode ot" "m = Some p \<Longrightarrow> \<not> group_applies member inode p" for p
    using uo go ot m by (simp_all add: group_applies_def ne)
  show ?thesis
    unfolding acl_access_def mask using m ga
    by (cases m) (simp_all add: acl_list_def bex_Un tags_bex [OF us] tags_bex [OF gs] uo go ot ne)
qed

lemma posix_acl_permission_acl:
  assumes "current_cred s cur = Some cr" "\<forall>g. in_group_p s cur g = Some (member g)" "posix_acl_valid acl = None"
  shows "posix_acl_permission s cur inode acl want =
    Some (verdict (acl_access (fsuid cr) member inode acl (want AND (MAY_READ OR MAY_WRITE OR MAY_EXEC OR MAY_NOT_BLOCK))))"
proof -
  obtain uo us go gs m ot where *: "acl = acl_list uo us go gs m ot" "acl_parts uo us go gs m ot"
    using assms(3) valid_iff_shape unfolding acl_shape_def by blast
  show ?thesis
    unfolding posix_acl_permission_def *(1) permission_loop_acl [OF assms(1,2) *(2)] acl_access_parts [OF *(2)] ..
qed

end
