(* ===== verification/Acl_Mode.thy ===== *)
theory Acl_Mode
  imports Posix_Acl
begin

text \<open>
  Access control lists and file modes (\<open>fs/posix_acl.c\<close>): what \<open>posix_acl_from_mode\<close>, \<open>posix_acl_equiv_mode\<close> and
  the changes at the creation of a file and at \<open>chmod\<close> do to a valid list, computed on the parts of the list.
\<close>

subsection \<open>Permission bits\<close>

lemma bit_S_IRWX [simp]:
  "bit S_IRWXU n \<longleftrightarrow> 6 \<le> n \<and> n < 9" "bit S_IRWXG n \<longleftrightarrow> 3 \<le> n \<and> n < 6" "bit S_IRWXO n \<longleftrightarrow> n < 3"
  "bit S_IRWXUGO n \<longleftrightarrow> n < 9"
proof -
  have eq: "S_IRWXU = push_bit 6 (mask 3)" "S_IRWXG = push_bit 3 (mask 3)" "S_IRWXO = mask 3" "S_IRWXUGO = mask 9"
    by (simp_all add: S_IRWXU_def S_IRWXG_def S_IRWXO_def S_IRWXUGO_def mask_numeral)
  show "bit S_IRWXU n \<longleftrightarrow> 6 \<le> n \<and> n < 9" "bit S_IRWXG n \<longleftrightarrow> 3 \<le> n \<and> n < 6" "bit S_IRWXO n \<longleftrightarrow> n < 3"
    "bit S_IRWXUGO n \<longleftrightarrow> n < 9"
    unfolding eq by (auto simp: bit_simps)
qed

definition perm_ok :: "u16 \<Rightarrow> bool" where "perm_ok p \<longleftrightarrow> (\<forall>n. bit p n \<longrightarrow> n < 3)"

lemma perm_okD: "perm_ok p \<Longrightarrow> bit p n \<Longrightarrow> n < 3"
  by (simp add: perm_ok_def)

lemma perm_ok_iff: "p AND NOT 7 = 0 \<longleftrightarrow> perm_ok p"
proof -
  have "p AND NOT 7 = p AND NOT S_IRWXO" unfolding S_IRWXO_def ..
  moreover have "p AND NOT S_IRWXO = 0 \<longleftrightarrow> (\<forall>n. \<not> bit (p AND NOT S_IRWXO) n)"
    by (metis bit_0_eq bit_word_eqI bot_apply bot_bool_def)
  moreover have "bit (p AND NOT S_IRWXO) n \<longleftrightarrow> bit p n \<and> \<not> n < 3" for n
    using bit_imp_le_length [of p n] by (auto simp: bit_and_iff bit_not_iff)
  ultimately show ?thesis by (auto simp: perm_ok_def)
qed

lemma bit_push:
  assumes "perm_ok u" "k \<le> 6"
  shows "bit (push_bit k u) n \<longleftrightarrow> k \<le> n \<and> n < k + 3 \<and> bit u (n - k)"
  using assms perm_okD [of u "n - k"] by (auto simp: bit_simps)

lemma single_iff: "single tag p \<longleftrightarrow> e_tag p = tag \<and> perm_ok (e_perm p)"
  unfolding single_def perm_ok_iff ..

text \<open>The mode with given permissions of the three classes.\<close>

definition class_mode :: "u16 \<Rightarrow> u16 \<Rightarrow> u16 \<Rightarrow> u16" where
  "class_mode u g ot = push_bit 6 u OR push_bit 3 g OR ot"

lemma bit_class_mode:
  assumes "perm_ok u" "perm_ok g" "perm_ok ot"
  shows "bit (class_mode u g ot) n \<longleftrightarrow> 
    (if n < 3 then bit ot n else if n < 6 then bit g (n - 3) else n < 9 \<and> bit u (n - 6))"
  using assms(3) [THEN perm_okD, of n] by (auto simp: class_mode_def bit_or_iff bit_push assms)

lemma and_7: "perm_ok p \<Longrightarrow> p AND S_IRWXO = p"
  by (intro bit_word_eqI) (auto simp: bit_and_iff dest: perm_okD)

lemma perm_ok_and: "perm_ok p \<Longrightarrow> perm_ok (p AND q)"
  by (auto simp: perm_ok_def bit_and_iff)

lemma perm_ok_shift:
  "perm_ok (drop_bit 6 (mode AND S_IRWXU))" "perm_ok (drop_bit 3 (mode AND S_IRWXG))" "perm_ok (mode AND S_IRWXO)"
  by (auto simp: perm_ok_def bit_simps)

lemma class_mode_of:
  "class_mode (drop_bit 6 (mode AND S_IRWXU)) (drop_bit 3 (mode AND S_IRWXG)) (mode AND S_IRWXO) = mode AND S_IRWXUGO"
  by (intro bit_word_eqI) (simp only: bit_class_mode [OF perm_ok_shift], auto simp: bit_simps)

subsection \<open>The mode of a list\<close>

definition group_class :: "posix_acl_entry \<Rightarrow> posix_acl_entry option \<Rightarrow> posix_acl_entry" where
  "group_class go m = (case m of None \<Rightarrow> go | Some p \<Rightarrow> p)"

lemma equiv_loop_named:
  "\<forall>e\<in>set es. e_tag e = ACL_USER \<or> e_tag e = ACL_GROUP \<Longrightarrow>
     equiv_loop (es @ rest) mode ne = equiv_loop rest mode (ne \<or> es \<noteq> [])"
  by (induction es arbitrary: ne) (auto simp: acl_tags)

lemma acl_parts_tags:
  assumes "acl_parts uo us go gs m ot"
  shows "e_tag uo = ACL_USER_OBJ" "e_tag go = ACL_GROUP_OBJ" "e_tag ot = ACL_OTHER" "m = Some p \<Longrightarrow> e_tag p = ACL_MASK"
    "\<forall>e\<in>set us. e_tag e = ACL_USER \<or> e_tag e = ACL_GROUP" "\<forall>e\<in>set gs. e_tag e = ACL_USER \<or> e_tag e = ACL_GROUP"
  using assms by (auto simp: acl_parts_def single_def named_def)

lemma acl_parts_perms:
  assumes "acl_parts uo us go gs m ot"
  shows "perm_ok (e_perm uo)" "perm_ok (e_perm go)" "perm_ok (e_perm ot)" "perm_ok (e_perm (group_class go m))"
  using assms by (auto simp: acl_parts_def single_iff group_class_def split: option.splits)

lemma equiv_loop_parts:
  assumes parts: "acl_parts uo us go gs m ot"
  shows "equiv_loop (acl_list uo us go gs m ot) 0 False =
    Inr (class_mode (e_perm uo) (e_perm (group_class go m)) (e_perm ot), m \<noteq> None)"
proof -
  note tags = acl_parts_tags [OF parts] and perms = acl_parts_perms [OF parts]
  note named = equiv_loop_named [OF tags(5)] equiv_loop_named [OF tags(6)]
  show ?thesis
  proof (cases m)
    case None
    then have "us = []" "gs = []" using parts by (auto simp: acl_parts_def)
    then show ?thesis
      using None tags(1-3) perms by (simp add: acl_list_def acl_tags and_7 group_class_def class_mode_def or.assoc)
  next
    case (Some p)
    have eq: "(push_bit 6 (e_perm uo) OR push_bit 3 (e_perm go)) AND NOT S_IRWXG = push_bit 6 (e_perm uo)"
      by (intro bit_word_eqI) (auto simp: bit_and_iff bit_or_iff bit_not_iff bit_push perms)
    show ?thesis
      using Some tags perms by (simp add: acl_list_def named and_7 group_class_def class_mode_def or.assoc)
       (simp add: acl_tags and_7 eq or.assoc)
  qed
qed

subsection \<open>Creation\<close>

lemma create_loop_named:
  "\<forall>e\<in>set es. e_tag e = ACL_USER \<or> e_tag e = ACL_GROUP \<Longrightarrow>
     create_masq_loop (es @ rest) n st =
       map_option (\<lambda>(qs, st). (es @ qs, st))
         (create_masq_loop rest (n + length es) (st\<lparr>m_not_equiv := m_not_equiv st \<or> es \<noteq> []\<rparr>))"
  by (induction es arbitrary: n st) (auto simp: acl_tags option.map_comp comp_def case_prod_unfold option.map_id id_def [symmetric])

lemma chmod_loop_named:
  "\<forall>e\<in>set es. e_tag e = ACL_USER \<or> e_tag e = ACL_GROUP \<Longrightarrow>
     chmod_masq_loop (es @ rest) mode n g k = map_option (\<lambda>(qs, r). (es @ qs, r)) (chmod_masq_loop rest mode (n + length es) g k)"
  by (induction es arbitrary: n) (auto simp: acl_tags option.map_comp comp_def case_prod_unfold option.map_id id_def [symmetric])

lemma masq_at_group:
  "masq_at (acl_list uo us go gs m ot) (Suc (length us)) g = acl_list uo us (go\<lparr>e_perm := g (e_perm go)\<rparr>) gs m ot"
  "acl_list uo us go gs m ot ! Suc (length us) = go"
  by (simp_all add: masq_at_def acl_list_def nth_append list_update_append)

lemma masq_at_mask:
  "masq_at (acl_list uo us go gs (Some p) ot) (Suc (Suc (length us + length gs))) g =
     acl_list uo us go gs (Some (p\<lparr>e_perm := g (e_perm p)\<rparr>)) ot"
  "acl_list uo us go gs (Some p) ot ! Suc (Suc (length us + length gs)) = p"
  by (simp_all add: masq_at_def acl_list_def nth_append list_update_append)

text \<open>Where the group class of the list is kept, and the list with new permissions for the three classes.\<close>

definition group_index :: "posix_acl_entry list \<Rightarrow> posix_acl_entry list \<Rightarrow> posix_acl_entry option \<Rightarrow> nat" where
  "group_index us gs m = (case m of None \<Rightarrow> Suc (length us) | Some _ \<Rightarrow> Suc (Suc (length us + length gs)))"

definition with_classes ::
  "posix_acl_entry \<Rightarrow> posix_acl_entry list \<Rightarrow> posix_acl_entry \<Rightarrow> posix_acl_entry list \<Rightarrow> posix_acl_entry option \<Rightarrow>
   posix_acl_entry \<Rightarrow> u16 \<Rightarrow> u16 \<Rightarrow> u16 \<Rightarrow> posix_acl_entry list" where
  "with_classes uo us go gs m ot u g q =
     acl_list (uo\<lparr>e_perm := u\<rparr>) us (if m = None then go\<lparr>e_perm := g\<rparr> else go) gs (map_option (\<lambda>p. p\<lparr>e_perm := g\<rparr>) m) (ot\<lparr>e_perm := q\<rparr>)"

lemma masq_at_class:
  "masq_at (acl_list uo us go gs m ot) (group_index us gs m) f =
     with_classes uo us go gs m ot (e_perm uo) (f (e_perm (group_class go m))) (e_perm ot)"
  "e_perm (with_classes uo us go gs m ot u g q ! group_index us gs m) = g"
  by (cases m; simp add: group_index_def masq_at_group masq_at_mask with_classes_def group_class_def)+

lemma create_masq_group_eq:
  "create_masq_group (acl_list uo us go gs m ot) (group_index us gs m) mode =
     (let g = e_perm (group_class go m) AND (drop_bit 3 mode OR NOT S_IRWXO) in
      (with_classes uo us go gs m ot (e_perm uo) g (e_perm ot), mode AND (push_bit 3 g OR NOT S_IRWXG)))"
  by (simp add: create_masq_group_def Let_def masq_at_class)

lemma with_classes_parts:
  assumes "acl_parts uo us go gs m ot" "perm_ok u" "perm_ok g" "perm_ok q"
  shows "acl_parts (uo\<lparr>e_perm := u\<rparr>) us (if m = None then go\<lparr>e_perm := g\<rparr> else go) gs (map_option (\<lambda>p. p\<lparr>e_perm := g\<rparr>) m) (ot\<lparr>e_perm := q\<rparr>)"
  using assms by (auto simp: acl_parts_def single_iff)

lemma create_loop_parts:
  fixes mode :: u16
  assumes parts: "acl_parts uo us go gs m ot"
  defines "u \<equiv> e_perm uo AND (drop_bit 6 mode OR NOT S_IRWXO)"
  defines "mode1 \<equiv> mode AND (push_bit 6 u OR NOT S_IRWXU)"
  defines "q \<equiv> e_perm ot AND (mode1 OR NOT S_IRWXO)"
  shows "\<exists>st. create_masq_loop (acl_list uo us go gs m ot) 0 \<lparr>m_mode = mode, m_group_obj = None, m_mask_obj = None, m_not_equiv = False\<rparr> =
      Some (acl_list (uo\<lparr>e_perm := u\<rparr>) us go gs m (ot\<lparr>e_perm := q\<rparr>), st) \<and>
    m_mode st = mode1 AND (q OR NOT S_IRWXO) \<and> m_not_equiv st = (m \<noteq> None) \<and>
    (case m_mask_obj st of Some k \<Rightarrow> Some k | None \<Rightarrow> m_group_obj st) = Some (group_index us gs m)"
proof -
  note tags = acl_parts_tags [OF parts]
  note named = create_loop_named [OF tags(5)] create_loop_named [OF tags(6)]
  have "m = None \<Longrightarrow> us = [] \<and> gs = []" using parts by (auto simp: acl_parts_def)
  then show ?thesis
    using tags(1-4)
    by (cases m) (simp_all add: acl_list_def named acl_tags u_def mode1_def q_def group_index_def)
qed

lemma create_masq_parts:
  assumes parts: "acl_parts uo us go gs m ot"
  defines "gc \<equiv> e_perm (group_class go m)"
  shows "posix_acl_create_masq (acl_list uo us go gs m ot) mode =
    (let u = e_perm uo AND drop_bit 6 mode; g = gc AND drop_bit 3 mode; q = e_perm ot AND mode in
     Inr (with_classes uo us go gs m ot u g q, m \<noteq> None, (mode AND NOT S_IRWXUGO) OR class_mode u g q))"
proof -
  note perms = acl_parts_perms [OF parts]
  have strip: "p AND (w OR NOT S_IRWXO) = p AND w" if "perm_ok p" for p w :: u16
    using that by (intro bit_word_eqI) (auto simp: bit_and_iff bit_or_iff bit_not_iff dest: perm_okD)
  define u where "u = e_perm uo AND drop_bit 6 mode"
  define mode1 where "mode1 = mode AND (push_bit 6 u OR NOT S_IRWXU)"
  define q where "q = e_perm ot AND mode1"
  define mode2 where "mode2 = mode1 AND (q OR NOT S_IRWXO)"
  define g where "g = gc AND drop_bit 3 mode2"
  have ok: "perm_ok u" "perm_ok q" "perm_ok g" "perm_ok gc"
    using perms by (simp_all add: u_def q_def g_def gc_def perm_ok_and)
  have bit1: "bit mode1 n \<longleftrightarrow> bit mode n \<and> (6 \<le> n \<and> n < 9 \<longrightarrow> bit u (n - 6))" for n
    using bit_imp_le_length [of mode n] by (auto simp: mode1_def bit_and_iff bit_or_iff bit_not_iff bit_push ok)
  have bit2: "bit mode2 n \<longleftrightarrow> bit mode1 n \<and> (n < 3 \<longrightarrow> bit q n)" for n
    using bit_imp_le_length [of mode1 n] perm_okD [OF ok(2), of n] by (auto simp: mode2_def bit_and_iff bit_or_iff bit_not_iff)
  have q: "q = e_perm ot AND mode" 
    by (intro bit_word_eqI) (auto simp: q_def bit_and_iff bit1 dest: perm_okD [OF perms(3)])
  have g: "g = gc AND drop_bit 3 mode"
    by (intro bit_word_eqI) (auto simp: g_def bit_and_iff bit_drop_bit_eq bit1 bit2 dest: perm_okD [OF ok(4)])
  have fin: "(mode AND NOT S_IRWXUGO) OR (mode2 AND (push_bit 3 g OR NOT S_IRWXG)) =
      (mode AND NOT S_IRWXUGO) OR class_mode u g q"
  proof (intro bit_word_eqI)
    fix n :: nat assume "n < LENGTH(16)"
    have "bit u (n - 6) \<longrightarrow> \<not> 6 \<le> n \<or> bit mode n" "bit g (n - 3) \<longrightarrow> \<not> 3 \<le> n \<or> bit mode n" "bit q n \<longrightarrow> bit mode n"
      by (auto simp: u_def g q bit_and_iff bit_drop_bit_eq)
    then show "bit ((mode AND NOT S_IRWXUGO) OR (mode2 AND (push_bit 3 g OR NOT S_IRWXG))) n =
        bit ((mode AND NOT S_IRWXUGO) OR class_mode u g q) n"
      using \<open>n < LENGTH(16)\<close> by (auto simp: bit_class_mode ok bit_and_iff bit_or_iff bit_not_iff bit_push bit1 bit2)
  qed
  obtain st where st: "create_masq_loop (acl_list uo us go gs m ot) 0
      \<lparr>m_mode = mode, m_group_obj = None, m_mask_obj = None, m_not_equiv = False\<rparr> =
      Some (acl_list (uo\<lparr>e_perm := u\<rparr>) us go gs m (ot\<lparr>e_perm := q\<rparr>), st)"
    "m_mode st = mode2" "m_not_equiv st = (m \<noteq> None)"
    "(case m_mask_obj st of Some k \<Rightarrow> Some k | None \<Rightarrow> m_group_obj st) = Some (group_index us gs m)"
    using create_loop_parts [OF parts, of mode] strip [OF perms(1)] strip [OF perms(3)]
    by (auto simp: u_def mode1_def q_def mode2_def)
  have "with_classes (uo\<lparr>e_perm := u\<rparr>) us go gs m (ot\<lparr>e_perm := q\<rparr>) u g q = with_classes uo us go gs m ot u g q"
    by (simp add: with_classes_def)
  then show ?thesis
    unfolding posix_acl_create_masq_def st(1) option.case prod.case st(4) create_masq_group_eq
    using strip [OF ok(4)] fin
    by (simp add: Let_def st(2,3) g_def [symmetric] gc_def [symmetric] u_def [symmetric] g [symmetric] q [symmetric])
qed

subsection \<open>chmod\<close>

lemma chmod_masq_parts:
  assumes parts: "acl_parts uo us go gs m ot"
  shows "posix_acl_chmod_masq (acl_list uo us go gs m ot) mode =
    Inr (with_classes uo us go gs m ot (drop_bit 6 (mode AND S_IRWXU)) (drop_bit 3 (mode AND S_IRWXG)) (mode AND S_IRWXO))"
proof -
  note tags = acl_parts_tags [OF parts]
  note named = chmod_loop_named [OF tags(5)] chmod_loop_named [OF tags(6)]
  let ?acl = "acl_list (uo\<lparr>e_perm := drop_bit 6 (mode AND S_IRWXU)\<rparr>) us go gs m (ot\<lparr>e_perm := mode AND S_IRWXO\<rparr>)"
  have "\<exists>g k. chmod_masq_loop (acl_list uo us go gs m ot) mode 0 None None = Some (?acl, g, k) \<and>
      (case k of Some k \<Rightarrow> Some k | None \<Rightarrow> g) = Some (group_index us gs m)"
    using tags(1-4) by (cases m) (simp_all add: acl_list_def named acl_tags group_index_def)
  then show ?thesis
    unfolding posix_acl_chmod_masq_def by (auto simp: masq_at_class) (simp_all add: with_classes_def)
qed

subsection \<open>What they keep\<close>

text \<open>The changed list has the tags and ids of the old one, and its named entries.\<close>

definition same_named :: "posix_acl_entry list \<Rightarrow> posix_acl_entry list \<Rightarrow> bool" where
  "same_named acl acl' \<longleftrightarrow> list_all2 (\<lambda>a b. e_tag a = e_tag b \<and> e_id a = e_id b \<and>
     (e_tag a = ACL_USER \<or> e_tag a = ACL_GROUP \<longrightarrow> a = b)) acl acl'"

lemma with_classes_same: "acl_parts uo us go gs m ot \<Longrightarrow> same_named (acl_list uo us go gs m ot) (with_classes uo us go gs m ot u g q)"
  by (cases m) (auto simp: same_named_def acl_list_def with_classes_def list_all2_refl acl_parts_tags acl_tags
      intro!: list_all2_appendI)

lemma with_classes_valid:
  assumes "acl_parts uo us go gs m ot" "perm_ok u" "perm_ok g" "perm_ok q"
  shows "posix_acl_valid (with_classes uo us go gs m ot u g q) = None"
    "posix_acl_equiv_mode (with_classes uo us go gs m ot u g q) (Some mode) =
       Inr (m \<noteq> None, Some ((mode AND NOT S_IRWXUGO) OR class_mode u g q))"
proof -
  show "posix_acl_valid (with_classes uo us go gs m ot u g q) = None"
    unfolding valid_iff_shape acl_shape_def with_classes_def using with_classes_parts [OF assms] by blast
  show "posix_acl_equiv_mode (with_classes uo us go gs m ot u g q) (Some mode) =
      Inr (m \<noteq> None, Some ((mode AND NOT S_IRWXUGO) OR class_mode u g q))"
    unfolding posix_acl_equiv_mode_def with_classes_def equiv_loop_parts [OF with_classes_parts [OF assms]]
    by (cases m) (simp_all add: group_class_def)
qed

text \<open>Creation takes permissions away from every class, so it grants nothing that the list did not.\<close>

lemma covers_perm_and: "covers (ucast (p AND q) AND k) want \<Longrightarrow> covers (ucast p AND k) want" for p q :: u16
  by (auto simp: covers_iff bit_and_iff bit_ucast_iff)

lemma with_classes_less:
  assumes parts: "acl_parts uo us go gs m ot" and ok: "perm_ok u" "perm_ok g" "perm_ok q"
    and less: "u = e_perm uo AND a" "g = e_perm (group_class go m) AND b" "q = e_perm ot AND c"
    and acc: "acl_access user member inode (with_classes uo us go gs m ot u g q) want"
  shows "acl_access user member inode (acl_list uo us go gs m ot) want"
proof -
  have mono: "covers (ucast (p AND k)) want \<Longrightarrow> covers (ucast p) want" for p k :: u16
    by (auto simp: covers_iff bit_and_iff bit_ucast_iff)
  have "m = None \<Longrightarrow> us = [] \<and> gs = []" using parts by (auto simp: acl_parts_def)
  then show ?thesis
    using acc acl_parts_tags [OF parts]
    unfolding acl_access_parts [OF parts] with_classes_def acl_access_parts [OF with_classes_parts [OF parts ok]]
    by (cases m) (auto simp: less group_class_def acl_mask_Cons covers_and dest: mono split: if_splits)
qed

lemma from_mode_classes:
  "\<exists>uo go ot. acl_parts uo [] go [] None ot \<and> from_mode_entries mode = acl_list uo [] go [] None ot \<and>
     from_mode_entries mode = with_classes uo [] go [] None ot (drop_bit 6 (mode AND S_IRWXU)) (drop_bit 3 (mode AND S_IRWXG)) (mode AND S_IRWXO)"
proof -
  let ?u = "\<lparr>e_tag = ACL_USER_OBJ, e_perm = drop_bit 6 (mode AND S_IRWXU), e_id = ACL_UNDEFINED_ID\<rparr>"
  let ?g = "\<lparr>e_tag = ACL_GROUP_OBJ, e_perm = drop_bit 3 (mode AND S_IRWXG), e_id = ACL_UNDEFINED_ID\<rparr>"
  let ?q = "\<lparr>e_tag = ACL_OTHER, e_perm = mode AND S_IRWXO, e_id = ACL_UNDEFINED_ID\<rparr>"
  have "acl_parts ?u [] ?g [] None ?q" using perm_ok_shift [of mode] by (simp add: acl_parts_def single_iff named_def)
  moreover have "from_mode_entries mode = acl_list ?u [] ?g [] None ?q" by (simp add: from_mode_entries_def acl_list_def)
  moreover have "acl_list ?u [] ?g [] None ?q = with_classes ?u [] ?g [] None ?q (e_perm ?u) (e_perm ?g) (e_perm ?q)"
    by (simp add: with_classes_def)
  ultimately show ?thesis by (metis posix_acl_entry.select_convs(2))
qed

text \<open>C30. Every operation that makes or changes an access control list keeps it valid and in agreement with the mode it
  returns: the list of a mode is valid and stands for this mode; \<open>posix_acl_create_masq\<close> of a valid list keeps its named
  entries, grants nobody what the list did not grant, and its list stands for the mode it returns, which has no
  permission beyond the requested mode; \<open>posix_acl_chmod_masq\<close> gives a list that stands for the new mode.\<close>

theorem acl_modes_agree:
  assumes "posix_acl_valid acl = None"
  shows "posix_acl_valid (from_mode_entries mode) = None \<and>
    posix_acl_equiv_mode (from_mode_entries mode) (Some 0) = Inr (False, Some (mode AND S_IRWXUGO)) \<and>
    (\<exists>acl' ne mode'. posix_acl_create_masq acl mode = Inr (acl', ne, mode') \<and> posix_acl_valid acl' = None \<and> same_named acl acl' \<and>
      posix_acl_equiv_mode acl' (Some mode) = Inr (ne, Some mode') \<and> mode' AND NOT mode = 0 \<and>
      (\<forall>user member inode want. acl_access user member inode acl' want \<longrightarrow> acl_access user member inode acl want)) \<and>
    (\<exists>acl' ne. posix_acl_chmod_masq acl mode = Inr acl' \<and> posix_acl_valid acl' = None \<and> same_named acl acl' \<and>
      posix_acl_equiv_mode acl' (Some mode) = Inr (ne, Some mode))"
proof -
  obtain uo us go gs m ot where acl: "acl = acl_list uo us go gs m ot" and parts: "acl_parts uo us go gs m ot"
    using assms valid_iff_shape unfolding acl_shape_def by blast
  note ok = acl_parts_perms [OF parts]
  define u where "u = e_perm uo AND drop_bit 6 mode"
  define g where "g = e_perm (group_class go m) AND drop_bit 3 mode"
  define q where "q = e_perm ot AND mode"
  have oks: "perm_ok u" "perm_ok g" "perm_ok q" using ok by (simp_all add: u_def g_def q_def perm_ok_and)
  have less: "((mode AND NOT S_IRWXUGO) OR class_mode u g q) AND NOT mode = 0"
  proof (rule bit_word_eqI)
    fix n
    have "bit (class_mode u g q) n \<Longrightarrow> bit mode n"
      unfolding bit_class_mode [OF oks] unfolding u_def g_def q_def by (auto simp: bit_simps split: if_splits)
    then show "bit (((mode AND NOT S_IRWXUGO) OR class_mode u g q) AND NOT mode) n = bit (0 :: u16) n"
      by (auto simp: bit_simps)
  qed
  have whole: "(mode AND NOT S_IRWXUGO) OR (mode AND S_IRWXUGO) = mode"
    by (rule bit_word_eqI) (auto simp: bit_simps)
  have create: "posix_acl_create_masq acl mode =
      Inr (with_classes uo us go gs m ot u g q, m \<noteq> None, (mode AND NOT S_IRWXUGO) OR class_mode u g q)"
    unfolding acl create_masq_parts [OF parts] by (simp add: Let_def u_def g_def q_def)
  note chmod = chmod_masq_parts [OF parts, of mode, folded acl]
  note shift = perm_ok_shift [of mode]
  have chmod_mode: "posix_acl_equiv_mode (with_classes uo us go gs m ot (drop_bit 6 (mode AND S_IRWXU)) (drop_bit 3 (mode AND S_IRWXG))
      (mode AND S_IRWXO)) (Some mode) = Inr (m \<noteq> None, Some mode)"
    unfolding with_classes_valid(2) [OF parts shift] class_mode_of whole ..
  obtain uo' go' ot' where fm: "acl_parts uo' [] go' [] None ot'" "from_mode_entries mode =
      with_classes uo' [] go' [] None ot' (drop_bit 6 (mode AND S_IRWXU)) (drop_bit 3 (mode AND S_IRWXG)) (mode AND S_IRWXO)"
    using from_mode_classes by blast
  have from_mode: "posix_acl_valid (from_mode_entries mode) = None"
    "posix_acl_equiv_mode (from_mode_entries mode) (Some 0) = Inr (False, Some (mode AND S_IRWXUGO))"
    unfolding fm(2) with_classes_valid [OF fm(1) shift] class_mode_of by simp_all
  show ?thesis
    using from_mode create with_classes_valid [OF parts oks] with_classes_same [OF parts, folded acl] less
      with_classes_less [OF parts oks u_def g_def q_def, folded acl] chmod with_classes_valid(1) [OF parts shift] chmod_mode
    by blast
qed

definition shared_acl :: "posix_acl_entry list" where
  "shared_acl = [\<lparr>e_tag = ACL_USER_OBJ, e_perm = 7, e_id = 0\<rparr>, \<lparr>e_tag = ACL_USER, e_perm = 6, e_id = 1000\<rparr>,
     \<lparr>e_tag = ACL_GROUP_OBJ, e_perm = 5, e_id = 0\<rparr>, \<lparr>e_tag = ACL_MASK, e_perm = 7, e_id = 0\<rparr>,
     \<lparr>e_tag = ACL_OTHER, e_perm = 4, e_id = 0\<rparr>]"

lemma shared_acl_valid: "posix_acl_valid shared_acl = None"
  by code_simp

theorem acl_modes_agree_witness:
  "posix_acl_valid shared_acl = None \<and> (\<exists>acl' ne. posix_acl_chmod_masq shared_acl 0x1A0 = Inr acl' \<and>
     posix_acl_equiv_mode acl' (Some 0x1A0) = Inr (ne, Some 0x1A0))"
  using acl_modes_agree [OF shared_acl_valid, of "0x1A0"] shared_acl_valid by blast

end
