(* ===== verification/Acl_Xattr.thy ===== *)
theory Acl_Xattr
  imports Acl_Mode
begin

text \<open>
  Access control lists as extended attributes (\<open>fs/xattr_acl.c\<close>, \<open>include/linux/posix_acl_xattr.h\<close>): a version and
  entries of eight bytes, little-endian. Memory is a list of bytes; an access outside of it is \<open>None\<close>.
\<close>

subsection \<open>Bytes\<close>

definition read_at :: "u8 list \<Rightarrow> nat \<Rightarrow> nat \<Rightarrow> u8 list option" where
  "read_at b off n = (if off + n \<le> length b then Some (take n (drop off b)) else None)"

definition write_at :: "u8 list \<Rightarrow> nat \<Rightarrow> u8 list \<Rightarrow> u8 list option" where
  "write_at b off bs = (if off + length bs \<le> length b then Some (take off b @ bs @ drop (off + length bs) b) else None)"

definition cpu_to_le16 :: "u16 \<Rightarrow> u8 list" where
  "cpu_to_le16 w = [ucast w, ucast (drop_bit 8 w)]"

definition cpu_to_le32 :: "u32 \<Rightarrow> u8 list" where
  "cpu_to_le32 w = [ucast w, ucast (drop_bit 8 w), ucast (drop_bit 16 w), ucast (drop_bit 24 w)]"

definition le16_to_cpu :: "u8 list \<Rightarrow> u16" where
  "le16_to_cpu p = ucast (p ! 0) OR push_bit 8 (ucast (p ! 1))"

definition le32_to_cpu :: "u8 list \<Rightarrow> u32" where
  "le32_to_cpu p = ucast (p ! 0) OR push_bit 8 (ucast (p ! 1)) OR push_bit 16 (ucast (p ! 2)) OR push_bit 24 (ucast (p ! 3))"

subsection \<open>The attribute\<close>

definition POSIX_ACL_XATTR_VERSION :: u32 where "POSIX_ACL_XATTR_VERSION = 2"

definition posix_acl_xattr_size :: "nat \<Rightarrow> u32" where
  "posix_acl_xattr_size n = 4 + of_nat n * 8"

text \<open>\<open>None\<close> is the result -1.\<close>

definition posix_acl_xattr_count :: "u32 \<Rightarrow> nat option" where
  "posix_acl_xattr_count len =
     (if len < 4 then None else if (len - 4) mod 8 \<noteq> 0 then None else Some (unat ((len - 4) div 8)))"

fun from_xattr_loop :: "u8 list \<Rightarrow> nat \<Rightarrow> nat \<Rightarrow> (errno + posix_acl_entry list) option" where
  "from_xattr_loop attr entry 0 = Some (Inr [])"
| "from_xattr_loop attr entry (Suc n) = do {
     tag \<leftarrow> map_option le16_to_cpu (read_at attr entry 2);
     perm \<leftarrow> map_option le16_to_cpu (read_at attr (entry + 2) 2);
     (if tag = ACL_USER_OBJ \<or> tag = ACL_GROUP_OBJ \<or> tag = ACL_MASK \<or> tag = ACL_OTHER then
        map_option (map_sum id (\<lambda>acl. \<lparr>e_tag = tag, e_perm = perm, e_id = ACL_UNDEFINED_ID\<rparr> # acl)) (from_xattr_loop attr (entry + 8) n)
      else if tag = ACL_USER \<or> tag = ACL_GROUP then do {
        i \<leftarrow> map_option le32_to_cpu (read_at attr (entry + 4) 4);
        map_option (map_sum id (\<lambda>acl. \<lparr>e_tag = tag, e_perm = perm, e_id = i\<rparr> # acl)) (from_xattr_loop attr (entry + 8) n)
      }
      else Some (Inl EINVAL))
   }"

text \<open>\<open>alloc\<close> says whether the allocation of the list succeeds. \<open>Inr None\<close> is the null pointer.\<close>

definition posix_acl_from_xattr :: "bool \<Rightarrow> u8 list option \<Rightarrow> u32 \<Rightarrow> (errno + posix_acl_entry list option) option" where
  "posix_acl_from_xattr alloc attr len =
     (case attr of
        None \<Rightarrow> Some (Inr None)
      | Some attr \<Rightarrow>
          if len < 4 then Some (Inl EINVAL)
          else do {
            a_version \<leftarrow> read_at attr 0 4;
            if a_version \<noteq> cpu_to_le32 POSIX_ACL_XATTR_VERSION then Some (Inl EOPNOTSUPP)
            else case posix_acl_xattr_count len of
              None \<Rightarrow> Some (Inl EINVAL)
            | Some n \<Rightarrow>
                if n = 0 then Some (Inr None)
                else if \<not> alloc then Some (Inl ENOMEM)
                else map_option (map_sum id Some) (from_xattr_loop attr 4 n)
          })"

fun to_xattr_loop :: "posix_acl_entry list \<Rightarrow> u8 list \<Rightarrow> nat \<Rightarrow> u8 list option" where
  "to_xattr_loop [] buffer ext_entry = Some buffer"
| "to_xattr_loop (e # es) buffer ext_entry = do {
     buffer \<leftarrow> write_at buffer ext_entry (cpu_to_le16 (e_tag e));
     buffer \<leftarrow> write_at buffer (ext_entry + 2) (cpu_to_le16 (e_perm e));
     buffer \<leftarrow> write_at buffer (ext_entry + 4) (cpu_to_le32 (e_id e));
     to_xattr_loop es buffer (ext_entry + 8)
   }"

text \<open>Without a buffer the result is the size that the attribute needs.\<close>

definition posix_acl_to_xattr :: "posix_acl_entry list \<Rightarrow> u8 list option \<Rightarrow> u32 \<Rightarrow> ((errno + u32) \<times> u8 list option) option" where
  "posix_acl_to_xattr acl buffer len =
     (let real_size = posix_acl_xattr_size (length acl) in
      case buffer of
        None \<Rightarrow> Some (Inr real_size, None)
      | Some b \<Rightarrow>
          if real_size > len then Some (Inl ERANGE, Some b)
          else do {
            b \<leftarrow> write_at b 0 (cpu_to_le32 POSIX_ACL_XATTR_VERSION);
            b \<leftarrow> to_xattr_loop acl b 4;
            Some (Inr real_size, Some b)
          })"

subsection \<open>Round trip\<close>

lemma le16_round_trip: "le16_to_cpu (cpu_to_le16 w) = w"
  by (rule bit_word_eqI) (auto simp: le16_to_cpu_def cpu_to_le16_def bit_simps)

lemma le32_round_trip: "le32_to_cpu (cpu_to_le32 w) = w"
proof (rule bit_word_eqI)
  fix n
  show "bit (le32_to_cpu (cpu_to_le32 w)) n = bit w n"
    by (cases "24 \<le> n"; cases "16 \<le> n") (auto simp: le32_to_cpu_def cpu_to_le32_def bit_simps dest: bit_imp_le_length)
qed

lemma le_length [simp]: "length (cpu_to_le16 w) = 2" "length (cpu_to_le32 v) = 4"
  by (simp_all add: cpu_to_le16_def cpu_to_le32_def)

definition entry_bytes :: "posix_acl_entry \<Rightarrow> u8 list" where
  "entry_bytes e = cpu_to_le16 (e_tag e) @ cpu_to_le16 (e_perm e) @ cpu_to_le32 (e_id e)"

lemma entry_bytes_length [simp]: "length (entry_bytes e) = 8"
  by (simp add: entry_bytes_def)

lemma entries_length [simp]: "length (concat (map entry_bytes es)) = 8 * length es"
  by (induction es) simp_all

lemma write_at_mid: "length x = length bs \<Longrightarrow> off = length a \<Longrightarrow> write_at (a @ x @ c) off bs = Some (a @ bs @ c)"
  by (simp add: write_at_def)

lemma read_at_mid: "off = length a \<Longrightarrow> n = length x \<Longrightarrow> read_at (a @ x @ c) off n = Some x"
  by (simp add: read_at_def)

lemma split_8:
  assumes "8 \<le> length b"
  obtains t p i c where "b = t @ p @ i @ c" "length t = 2" "length p = 2" "length i = 4"
proof
  have "drop 2 b = take 2 (drop 2 b) @ drop 4 b" "drop 4 b = take 4 (drop 4 b) @ drop 8 b"
    using append_take_drop_id [of 2 "drop 2 b"] append_take_drop_id [of 4 "drop 4 b"] by simp_all
  then show "b = take 2 b @ take 2 (drop 2 b) @ take 4 (drop 4 b) @ drop 8 b"
    by (metis append_take_drop_id)
qed (use assms in simp_all)

lemma to_xattr_loop_eq:
  "length a = n \<Longrightarrow> 8 * length es \<le> length b \<Longrightarrow>
     to_xattr_loop es (a @ b) n = Some (a @ concat (map entry_bytes es) @ drop (8 * length es) b)"
proof (induction es arbitrary: a b n)
  case (Cons e es)
  obtain t p i c where b: "b = t @ p @ i @ c" "length t = 2" "length p = 2" "length i = 4"
    using split_8 [of b] Cons.prems(2) by (metis (no_types, lifting) le_trans length_Cons mult_Suc_right le_add1)
  have w: "write_at (a @ b) n (cpu_to_le16 (e_tag e)) = Some (a @ cpu_to_le16 (e_tag e) @ p @ i @ c)"
    "write_at (a @ cpu_to_le16 (e_tag e) @ p @ i @ c) (n + 2) (cpu_to_le16 (e_perm e)) =
       Some (a @ cpu_to_le16 (e_tag e) @ cpu_to_le16 (e_perm e) @ i @ c)"
    "write_at (a @ cpu_to_le16 (e_tag e) @ cpu_to_le16 (e_perm e) @ i @ c) (n + 4) (cpu_to_le32 (e_id e)) =
       Some (a @ entry_bytes e @ c)"
    using b Cons.prems(1) write_at_mid [of t "cpu_to_le16 (e_tag e)" n a "p @ i @ c"]
      write_at_mid [of p "cpu_to_le16 (e_perm e)" "n + 2" "a @ cpu_to_le16 (e_tag e)" "i @ c"]
      write_at_mid [of i "cpu_to_le32 (e_id e)" "n + 4" "a @ cpu_to_le16 (e_tag e) @ cpu_to_le16 (e_perm e)" c]
    by (simp_all add: entry_bytes_def)
  have c: "8 * length es \<le> length c" "drop (8 * length (e # es)) b = drop (8 * length es) c" using b Cons.prems(2) by auto
  have "to_xattr_loop es ((a @ entry_bytes e) @ c) (n + 8) =
      Some ((a @ entry_bytes e) @ concat (map entry_bytes es) @ drop (8 * length es) c)"
    using Cons.IH [of "a @ entry_bytes e" "n + 8" c] Cons.prems(1) c(1) by simp
  then show ?case using w c(2) by simp
qed simp

definition known_tag :: "u16 \<Rightarrow> bool" where
  "known_tag tag \<longleftrightarrow> tag = ACL_USER_OBJ \<or> tag = ACL_GROUP_OBJ \<or> tag = ACL_MASK \<or> tag = ACL_OTHER \<or> tag = ACL_USER \<or> tag = ACL_GROUP"

text \<open>Only named entries keep their id.\<close>

definition read_back :: "posix_acl_entry \<Rightarrow> posix_acl_entry" where
  "read_back e = (if e_tag e = ACL_USER \<or> e_tag e = ACL_GROUP then e else e\<lparr>e_id := ACL_UNDEFINED_ID\<rparr>)"

lemma from_xattr_loop_eq:
  "\<forall>e\<in>set es. known_tag (e_tag e) \<Longrightarrow> length a = n \<Longrightarrow>
     from_xattr_loop (a @ concat (map entry_bytes es) @ c) n (length es) = Some (Inr (map read_back es))"
proof (induction es arbitrary: a n)
  case (Cons e es)
  let ?v = "a @ concat (map entry_bytes (e # es)) @ c"
  let ?c = "concat (map entry_bytes es) @ c"
  have v: "?v = a @ cpu_to_le16 (e_tag e) @ cpu_to_le16 (e_perm e) @ cpu_to_le32 (e_id e) @ ?c" by (simp add: entry_bytes_def)
  have "read_at (a @ cpu_to_le16 (e_tag e) @ (cpu_to_le16 (e_perm e) @ cpu_to_le32 (e_id e) @ ?c)) n 2 = Some (cpu_to_le16 (e_tag e))"
    "read_at ((a @ cpu_to_le16 (e_tag e)) @ cpu_to_le16 (e_perm e) @ (cpu_to_le32 (e_id e) @ ?c)) (n + 2) 2 = Some (cpu_to_le16 (e_perm e))"
    "read_at ((a @ cpu_to_le16 (e_tag e) @ cpu_to_le16 (e_perm e)) @ cpu_to_le32 (e_id e) @ ?c) (n + 4) 4 = Some (cpu_to_le32 (e_id e))"
    using Cons.prems(2) by (intro read_at_mid; simp)+
  note r = this [unfolded append_assoc, folded v]
  have "from_xattr_loop ?v (n + 8) (length es) = Some (Inr (map read_back es))"
    using Cons.IH [of "a @ entry_bytes e" "n + 8"] Cons.prems by simp
  then show ?case using Cons.prems(1)
    by (simp only: from_xattr_loop.simps list.size r add_Suc_right add_0_right)
      (auto simp: le16_round_trip le32_round_trip read_back_def known_tag_def acl_tags)
qed simp

lemma from_xattr_loop_defined: "entry + 8 * n \<le> length attr \<Longrightarrow> from_xattr_loop attr entry n \<noteq> None"
  by (induction n arbitrary: entry) (auto simp: read_at_def)

lemma map_sum_Inr: "map_sum f g x = Inr y \<longleftrightarrow> (\<exists>z. x = Inr z \<and> y = g z)"
  by (cases x) auto

lemma from_xattr_loop_tags:
  "from_xattr_loop attr entry n = Some (Inr acl) \<Longrightarrow> (\<forall>e\<in>set acl. known_tag (e_tag e) \<and> read_back e = e) \<and> length acl = n"
proof (induction n arbitrary: entry acl)
  case (Suc n)
  from Suc.prems obtain tag perm where
    "(if tag = ACL_USER_OBJ \<or> tag = ACL_GROUP_OBJ \<or> tag = ACL_MASK \<or> tag = ACL_OTHER then
        map_option (map_sum id (\<lambda>acl. \<lparr>e_tag = tag, e_perm = perm, e_id = ACL_UNDEFINED_ID\<rparr> # acl)) (from_xattr_loop attr (entry + 8) n)
      else if tag = ACL_USER \<or> tag = ACL_GROUP then do {
        i \<leftarrow> map_option le32_to_cpu (read_at attr (entry + 4) 4);
        map_option (map_sum id (\<lambda>acl. \<lparr>e_tag = tag, e_perm = perm, e_id = i\<rparr> # acl)) (from_xattr_loop attr (entry + 8) n)
      }
      else Some (Inl EINVAL)) = Some (Inr acl)"
    by (simp split: bind_splits)
  then obtain i es where "acl = \<lparr>e_tag = tag, e_perm = perm, e_id = i\<rparr> # es" "from_xattr_loop attr (entry + 8) n = Some (Inr es)"
    "known_tag tag" "tag = ACL_USER \<or> tag = ACL_GROUP \<or> i = ACL_UNDEFINED_ID"
    by (auto simp: known_tag_def map_sum_Inr split: if_splits bind_splits)
  then show ?case using Suc.IH by (auto simp: read_back_def)
qed simp

lemma xattr_count_size:
  assumes "n < 2 ^ 29 - 1"
  shows "posix_acl_xattr_count (posix_acl_xattr_size n) = Some n" "unat (posix_acl_xattr_size n) = 4 + 8 * n"
proof -
  have s: "posix_acl_xattr_size n = of_nat (4 + 8 * n)" by (simp add: posix_acl_xattr_size_def algebra_simps)
  show u: "unat (posix_acl_xattr_size n) = 4 + 8 * n"
    unfolding s using assms by (simp only: unat_of_nat) (simp add: take_bit_nat_eq_self)
  have d: "posix_acl_xattr_size n - 4 = of_nat (8 * n)" by (simp add: posix_acl_xattr_size_def)
  have ud: "unat (posix_acl_xattr_size n - 4) = 8 * n"
    unfolding d using assms by (simp only: unat_of_nat) (simp add: take_bit_nat_eq_self)
  have "\<not> posix_acl_xattr_size n < 4" using u by (simp add: word_less_nat_alt)
  moreover have "(posix_acl_xattr_size n - 4) mod 8 = 0" using ud by (simp add: word_unat_eq_iff unat_mod)
  moreover have "unat ((posix_acl_xattr_size n - 4) div 8) = n" using ud by (simp add: unat_div)
  ultimately show "posix_acl_xattr_count (posix_acl_xattr_size n) = Some n" by (simp add: posix_acl_xattr_count_def)
qed

lemma from_xattr_defined:
  assumes "unat len \<le> length attr"
  shows "posix_acl_from_xattr alloc (Some attr) len \<noteq> None"
proof (cases "posix_acl_xattr_count len")
  case None
  then show ?thesis using assms by (auto simp: posix_acl_from_xattr_def read_at_def word_less_nat_alt)
next
  case (Some n)
  then have c: "4 \<le> len" "(len - 4) mod 8 = 0" "n = unat ((len - 4) div 8)"
    by (auto simp: posix_acl_xattr_count_def split: if_splits)
  have "unat (len - 4) = unat len - 4" using c(1) by (simp add: unat_sub)
  then have "n = (unat len - 4) div 8" "4 \<le> unat len" using c by (simp_all add: unat_div word_le_nat_alt)
  then have "4 + 8 * n \<le> length attr" using assms times_div_less_eq_dividend [of 8 "unat len - 4"] by linarith
  then show ?thesis using assms c(1) Some from_xattr_loop_defined [of 4 n attr]
    by (auto simp: posix_acl_from_xattr_def read_at_def word_le_nat_alt)
qed

lemma xattr_round_trip:
  assumes tags: "\<forall>e\<in>set acl. known_tag (e_tag e)" and ne: "acl \<noteq> []" and n: "length acl < 2 ^ 29 - 1"
    and len: "4 + 8 * length acl \<le> unat len" "unat len \<le> length b"
  shows "\<exists>b'. posix_acl_to_xattr acl (Some b) len = Some (Inr (posix_acl_xattr_size (length acl)), Some b') \<and>
    length b' = length b \<and> drop (4 + 8 * length acl) b' = drop (4 + 8 * length acl) b \<and>
    posix_acl_from_xattr True (Some b') (posix_acl_xattr_size (length acl)) = Some (Inr (Some (map read_back acl)))"
proof -
  let ?v = "cpu_to_le32 POSIX_ACL_XATTR_VERSION"
  let ?b = "?v @ concat (map entry_bytes acl) @ drop (8 * length acl) (drop 4 b)"
  note sz = xattr_count_size [OF n]
  have "\<not> posix_acl_xattr_size (length acl) > len" using len(1) sz(2) by (simp add: word_less_nat_alt not_less)
  moreover have "write_at b 0 ?v = Some (?v @ drop 4 b)" using len by (simp add: write_at_def)
  moreover have "to_xattr_loop acl (?v @ drop 4 b) 4 = Some ?b" using to_xattr_loop_eq [of ?v 4 acl "drop 4 b"] len by simp
  ultimately have "posix_acl_to_xattr acl (Some b) len = Some (Inr (posix_acl_xattr_size (length acl)), Some ?b)"
    by (simp add: posix_acl_to_xattr_def Let_def)
  moreover have "read_at ?b 0 4 = Some ?v" by (simp add: read_at_def)
  then have "posix_acl_from_xattr True (Some ?b) (posix_acl_xattr_size (length acl)) = Some (Inr (Some (map read_back acl)))"
    using from_xattr_loop_eq [OF tags, of ?v 4] sz ne by (simp add: posix_acl_from_xattr_def word_less_nat_alt)
  ultimately show ?thesis using len by (intro exI [of _ ?b]) (simp add: add.commute)
qed

text \<open>C31. The attribute that \<open>posix_acl_to_xattr\<close> writes for a list is read back by \<open>posix_acl_from_xattr\<close> as the same list, where
  the unnamed entries have the undefined id, and nothing beyond the attribute is written; and \<open>posix_acl_from_xattr\<close>
  never reads beyond the size it is given, whatever the bytes are.\<close>

theorem acl_xattr_round_trip:
  assumes "\<forall>e\<in>set acl. known_tag (e_tag e)" "acl \<noteq> []" "length acl < 2 ^ 29 - 1"
    "4 + 8 * length acl \<le> unat len" "unat len \<le> length b"
  shows "(\<exists>b'. posix_acl_to_xattr acl (Some b) len = Some (Inr (posix_acl_xattr_size (length acl)), Some b') \<and>
      length b' = length b \<and> drop (4 + 8 * length acl) b' = drop (4 + 8 * length acl) b \<and>
      posix_acl_from_xattr True (Some b') (posix_acl_xattr_size (length acl)) = Some (Inr (Some (map read_back acl)))) \<and>
    (\<forall>alloc attr n. unat n \<le> length attr \<longrightarrow> posix_acl_from_xattr alloc (Some attr) n \<noteq> None)"
  using xattr_round_trip [OF assms] from_xattr_defined by blast

theorem acl_xattr_round_trip_witness:
  "\<exists>b'. posix_acl_to_xattr shared_acl (Some (replicate 64 0)) 64 = Some (Inr 44, Some b') \<and>
     posix_acl_from_xattr True (Some b') 44 = Some (Inr (Some (map read_back shared_acl)))"
proof -
  have "\<forall>e\<in>set shared_acl. known_tag (e_tag e)" "shared_acl \<noteq> []" "length shared_acl = 5" "posix_acl_xattr_size 5 = 44"
    by (simp_all add: shared_acl_def known_tag_def posix_acl_xattr_size_def)
  then show ?thesis using acl_xattr_round_trip [of shared_acl 64 "replicate 64 0"] by auto
qed

end
