(* ===== verification/Kstrtox.thy ===== *)
theory Kstrtox
  imports Kernel_Prelude
begin

text \<open>
  Conversion of strings to integers (\<open>lib/kstrtox.c\<close>, \<open>simple_strtoull\<close> and \<open>simple_strtoul\<close> of
  \<open>lib/vsprintf.c\<close>). A C string is the list of its characters; the position after the last one, and every position
  that holds the character 0, is the terminator. Numbers are accumulated in 64-bit words, counts of characters in
  32-bit words, as in the source.
\<close>

subsection \<open>Characters\<close>

definition char_code :: "char \<Rightarrow> nat" where "char_code c = of_char c"

definition NUL :: char where "NUL = CHR 0x00"

definition at_pos :: "string \<Rightarrow> nat \<Rightarrow> char" where
  "at_pos s k = (if k < length s then s ! k else NUL)"

definition tolower_code :: "char \<Rightarrow> nat" where "tolower_code c = char_code c OR 0x20"

definition isdigit :: "char \<Rightarrow> bool" where "isdigit c \<longleftrightarrow> 48 \<le> char_code c \<and> char_code c \<le> 57"

definition isxdigit :: "char \<Rightarrow> bool" where
  "isxdigit c \<longleftrightarrow> isdigit c \<or> 65 \<le> char_code c \<and> char_code c \<le> 70 \<or> 97 \<le> char_code c \<and> char_code c \<le> 102"

definition digit_val :: "char \<Rightarrow> nat option" where
  "digit_val c =
     (if 48 \<le> char_code c \<and> char_code c \<le> 57 then Some (char_code c - 48)
      else if 97 \<le> tolower_code c \<and> tolower_code c \<le> 102 then Some (tolower_code c - 97 + 10)
      else None)"

subsection \<open>Parsing\<close>

definition parse_integer_fixup_radix :: "string \<Rightarrow> u32 \<Rightarrow> string \<times> u32" where
  "parse_integer_fixup_radix s base =
     (let base = (if base = 0 then
                    if at_pos s 0 = CHR ''0'' then
                      if tolower_code (at_pos s 1) = 120 \<and> isxdigit (at_pos s 2) then 16 else 8
                    else 10
                  else base) in
      (if base = 16 \<and> at_pos s 0 = CHR ''0'' \<and> tolower_code (at_pos s 1) = 120 then drop 2 s else s, base))"

definition KSTRTOX_OVERFLOW :: u32 where "KSTRTOX_OVERFLOW = 0x80000000"

fun parse_loop :: "string \<Rightarrow> u32 \<Rightarrow> u64 \<Rightarrow> u32 \<Rightarrow> bool \<Rightarrow> u64 \<times> u32 \<times> bool" where
  "parse_loop [] base res rv overflow = (res, rv, overflow)"
| "parse_loop (c # s) base res rv overflow =
     (if c = NUL then (res, rv, overflow)
      else case digit_val c of
        None \<Rightarrow> (res, rv, overflow)
      | Some val \<Rightarrow>
          if of_nat val \<ge> base then (res, rv, overflow)
          else parse_loop s base (res * ucast base + of_nat val) (rv + 1)
                 (overflow \<or> res > (- 1 - of_nat val) div ucast base))"

definition parse_integer :: "string \<Rightarrow> u32 \<Rightarrow> u32 \<times> u64" where
  "parse_integer s base =
     (case parse_loop s base 0 0 False of
        (res, rv, overflow) \<Rightarrow> (if overflow then rv OR KSTRTOX_OVERFLOW else rv, res))"

definition kstrtoull_core :: "string \<Rightarrow> u32 \<Rightarrow> errno + u64" where
  "kstrtoull_core s base =
     (let (s, base) = parse_integer_fixup_radix s base;
          (rv, res) = parse_integer s base in
      if rv AND KSTRTOX_OVERFLOW \<noteq> 0 then Inl ERANGE
      else
        let rv = rv AND NOT KSTRTOX_OVERFLOW in
        if rv = 0 then Inl EINVAL
        else
          let s = drop (unat rv) s;
              s = (if at_pos s 0 = CHR 0x0A then drop 1 s else s) in
          if at_pos s 0 \<noteq> NUL then Inl EINVAL else Inr res)"

definition kstrtoull :: "string \<Rightarrow> u32 \<Rightarrow> errno + u64" where
  "kstrtoull s base = kstrtoull_core (if at_pos s 0 = CHR ''+'' then drop 1 s else s) base"

definition kstrtoll :: "string \<Rightarrow> u32 \<Rightarrow> errno + u64" where
  "kstrtoll s base =
     (if at_pos s 0 = CHR ''-'' then
        case kstrtoull_core (drop 1 s) base of
          Inl e \<Rightarrow> Inl e
        | Inr tmp \<Rightarrow> if sint (- tmp) \<ge> 0 then Inl ERANGE else Inr (- tmp)
      else
        case kstrtoull s base of
          Inl e \<Rightarrow> Inl e
        | Inr tmp \<Rightarrow> if sint tmp < 0 then Inl ERANGE else Inr tmp)"

text \<open>
  The conversions to narrower types compare the value with what is left of it in the type; \<open>unsigned long\<close> and \<open>long\<close>
  have 32 bits.
\<close>

definition narrow_unsigned :: "'a::len word itself \<Rightarrow> errno + u64 \<Rightarrow> errno + 'a word" where
  "narrow_unsigned t r =
     (case r of Inl e \<Rightarrow> Inl e
      | Inr tmp \<Rightarrow> if tmp \<noteq> ucast (ucast tmp :: 'a word) then Inl ERANGE else Inr (ucast tmp))"

definition narrow_signed :: "'a::len word itself \<Rightarrow> errno + u64 \<Rightarrow> errno + 'a word" where
  "narrow_signed t r =
     (case r of Inl e \<Rightarrow> Inl e
      | Inr tmp \<Rightarrow> if tmp \<noteq> scast (ucast tmp :: 'a word) then Inl ERANGE else Inr (ucast tmp))"

definition kstrtoul :: "string \<Rightarrow> u32 \<Rightarrow> errno + u32" where
  "kstrtoul s base = narrow_unsigned TYPE(32 word) (kstrtoull s base)"

definition kstrtol :: "string \<Rightarrow> u32 \<Rightarrow> errno + u32" where
  "kstrtol s base = narrow_signed TYPE(32 word) (kstrtoll s base)"

definition kstrtouint :: "string \<Rightarrow> u32 \<Rightarrow> errno + u32" where
  "kstrtouint s base = narrow_unsigned TYPE(32 word) (kstrtoull s base)"

definition kstrtoint :: "string \<Rightarrow> u32 \<Rightarrow> errno + u32" where
  "kstrtoint s base = narrow_signed TYPE(32 word) (kstrtoll s base)"

definition kstrtou16 :: "string \<Rightarrow> u32 \<Rightarrow> errno + u16" where
  "kstrtou16 s base = narrow_unsigned TYPE(16 word) (kstrtoull s base)"

definition kstrtos16 :: "string \<Rightarrow> u32 \<Rightarrow> errno + u16" where
  "kstrtos16 s base = narrow_signed TYPE(16 word) (kstrtoll s base)"

definition kstrtou8 :: "string \<Rightarrow> u32 \<Rightarrow> errno + u8" where
  "kstrtou8 s base = narrow_unsigned TYPE(8 word) (kstrtoull s base)"

definition kstrtos8 :: "string \<Rightarrow> u32 \<Rightarrow> errno + u8" where
  "kstrtos8 s base = narrow_signed TYPE(8 word) (kstrtoll s base)"

text \<open>
  \<open>kstrto_from_user\<close>: a buffer of \<open>1 + 8 * size + 1 + 1\<close> characters gets what fits of the user's string. User
  memory maps addresses to characters, where it is mapped.
\<close>

definition from_user_chars :: "(nat \<Rightarrow> char option) \<Rightarrow> nat \<Rightarrow> nat \<Rightarrow> string option" where
  "from_user_chars um s count =
     (if \<exists>k<count. um (s + k) = None then None else Some (map (\<lambda>k. the (um (s + k))) [0..<count]))"

definition kstrto_from_user ::
  "(string \<Rightarrow> u32 \<Rightarrow> errno + 'a) \<Rightarrow> nat \<Rightarrow> (nat \<Rightarrow> char option) \<Rightarrow> nat \<Rightarrow> nat \<Rightarrow> u32 \<Rightarrow> errno + 'a" where
  "kstrto_from_user g size_of_type um s count base =
     (case from_user_chars um s (min count (1 + size_of_type * 8 + 1)) of
        None \<Rightarrow> Inl EFAULT
      | Some buf \<Rightarrow> g buf base)"

text \<open>The older conversions return the number and the rest of the string, whatever it is.\<close>

definition simple_strtoull :: "string \<Rightarrow> u32 \<Rightarrow> u64 \<times> string" where
  "simple_strtoull cp base =
     (let (cp, base) = parse_integer_fixup_radix cp base;
          (rv, result) = parse_integer cp base in
      (result, drop (unat (rv AND NOT KSTRTOX_OVERFLOW)) cp))"

definition simple_strtoul :: "string \<Rightarrow> u32 \<Rightarrow> u32 \<times> string" where
  "simple_strtoul cp base = (case simple_strtoull cp base of (r, endp) \<Rightarrow> (ucast r, endp))"

subsection \<open>The numbers that strings denote\<close>

definition is_digit_in :: "nat \<Rightarrow> char \<Rightarrow> bool" where
  "is_digit_in b c \<longleftrightarrow> (case digit_val c of None \<Rightarrow> False | Some v \<Rightarrow> v < b)"

definition leading_digits :: "nat \<Rightarrow> string \<Rightarrow> string" where
  "leading_digits b s = takeWhile (is_digit_in b) s"

definition horner :: "nat \<Rightarrow> nat \<Rightarrow> string \<Rightarrow> nat" where
  "horner b a ds = foldl (\<lambda>a c. a * b + the (digit_val c)) a ds"

definition value_of :: "nat \<Rightarrow> string \<Rightarrow> nat" where
  "value_of b s = horner b 0 (leading_digits b s)"

definition ends_here :: "string \<Rightarrow> bool" where
  "ends_here s \<longleftrightarrow> at_pos s 0 = NUL \<or> at_pos s 0 = CHR 0x0A \<and> at_pos s 1 = NUL"

text \<open>The number at the start of a string: out of range, not a number, or the number.\<close>

definition read_number :: "string \<Rightarrow> u32 \<Rightarrow> errno + nat" where
  "read_number s base =
     (let (t, b) = parse_integer_fixup_radix s base; n = value_of (unat b) t; ds = leading_digits (unat b) t in
      if n \<ge> 2 ^ 64 then Inl ERANGE
      else if ds = [] \<or> \<not> ends_here (drop (length ds) t) then Inl EINVAL
      else Inr n)"

lemma horner_ge: "0 < b \<Longrightarrow> a \<le> horner b a ds"
proof (induction ds arbitrary: a)
  case (Cons c ds)
  have "a \<le> a * b + the (digit_val c)" using Cons.prems by (cases b) auto
  also have "\<dots> \<le> horner b (a * b + the (digit_val c)) ds" using Cons by blast
  finally show ?case by (simp add: horner_def)
qed (simp add: horner_def)

lemma digit_val_NUL [simp]: "digit_val NUL = None"
  by (simp add: digit_val_def NUL_def char_code_def tolower_code_def)

lemma digit_val_less: "digit_val c = Some v \<Longrightarrow> v < 16"
  by (auto simp: digit_val_def split: if_splits)

lemma overflow_step:
  fixes res :: u64 and base :: u32
  assumes "v < unat base" "v < 16"
  shows "res > (- 1 - of_nat v) div ucast base \<longleftrightarrow> unat res * unat base + v \<ge> 2 ^ 64"
    "unat res * unat base + v < 2 ^ 64 \<Longrightarrow> unat (res * ucast base + of_nat v) = unat res * unat base + v"
proof -
  have v: "unat (of_nat v :: u64) = v" using assms(2) by (simp add: unat_of_nat take_bit_nat_eq_self)
  have b: "unat (ucast base :: u64) = unat base" by (simp add: unat_ucast_up)
  have "of_nat v \<le> (- 1 :: u64)" by simp
  then have "unat (- 1 - of_nat v :: u64) = 2 ^ 64 - 1 - v" using v by (simp add: unat_sub unsigned_minus_1_eq_mask mask_eq_exp_minus_1)
  then have "unat ((- 1 - of_nat v) div ucast base :: u64) = (2 ^ 64 - 1 - v) div unat base" using b by (simp add: unat_div)
  then have "res > (- 1 - of_nat v) div ucast base \<longleftrightarrow> (2 ^ 64 - 1 - v) div unat base < unat res"
    by (simp add: word_less_nat_alt)
  also have "\<dots> \<longleftrightarrow> 2 ^ 64 - 1 - v < unat res * unat base"
    using assms(1) by (simp add: div_less_iff_less_mult)
  also have "\<dots> \<longleftrightarrow> unat res * unat base + v \<ge> 2 ^ 64" using assms(2) by auto
  finally show "res > (- 1 - of_nat v) div ucast base \<longleftrightarrow> unat res * unat base + v \<ge> 2 ^ 64" .
  show "unat (res * ucast base + of_nat v) = unat res * unat base + v" if less: "unat res * unat base + v < 2 ^ 64"
  proof -
    have "unat (res * ucast base :: u64) = unat res * unat base"
      using less b by (subst unat_mult_lem [THEN iffD1]) simp_all
    then show ?thesis using less v by (subst unat_add_lem [THEN iffD1]) simp_all
  qed
qed

lemma parse_loop_spec:
  fixes base :: u32
  assumes "0 < base" "if overflow then 2 ^ 64 \<le> a else unat res = a"
    and "parse_loop s base res rv overflow = (res', rv', overflow')"
  shows "rv' = rv + of_nat (length (leading_digits (unat base) s)) \<and>
    (overflow' \<longleftrightarrow> 2 ^ 64 \<le> horner (unat base) a (leading_digits (unat base) s)) \<and>
    (\<not> overflow' \<longrightarrow> unat res' = horner (unat base) a (leading_digits (unat base) s))"
  using assms(2,3)
proof (induction s arbitrary: a res rv overflow)
  case Nil
  then show ?case using unat_u64_less [of res] by (auto simp: leading_digits_def horner_def not_le split: if_splits)
next
  case (Cons c s)
  have b: "0 < unat base" using assms(1) by (simp add: word_less_nat_alt)
  consider (stop) "\<not> is_digit_in (unat base) c" | (go) v where "digit_val c = Some v" "v < unat base" "c \<noteq> NUL"
  proof (cases "is_digit_in (unat base) c")
    case True
    then obtain v where "digit_val c = Some v" "v < unat base" by (auto simp: is_digit_in_def split: option.splits)
    moreover from this have "c \<noteq> NUL" by auto
    ultimately show thesis by (rule that(2))
  qed (rule that(1))
  then show ?case
  proof cases
    case stop
    have ge: "of_nat v \<ge> base" if "digit_val c = Some v" for v
      using stop that digit_val_less [OF that] by (simp add: is_digit_in_def word_le_nat_alt unat_of_nat take_bit_nat_eq_self)
    have eq: "parse_loop (c # s) base res rv overflow = (res, rv, overflow)" "leading_digits (unat base) (c # s) = []"
      using stop ge by (auto simp: leading_digits_def split: option.split)
    then show ?thesis using Cons.prems unat_u64_less [of res] by (auto simp: horner_def not_le split: if_splits)
  next
    case (go v)
    let ?a = "a * unat base + v"
    have lt: "\<not> base \<le> of_nat v" "v < 16"
      using go digit_val_less [OF go(1)] by (simp_all add: word_le_nat_alt unat_of_nat take_bit_nat_eq_self)
    have ds: "leading_digits (unat base) (c # s) = c # leading_digits (unat base) s"
      using go by (simp add: leading_digits_def is_digit_in_def)
    have hor: "horner (unat base) a (c # ds) = horner (unat base) ?a ds" for ds using go by (simp add: horner_def)
    have step: "parse_loop (c # s) base res rv overflow =
        parse_loop s base (res * ucast base + of_nat v) (rv + 1) (overflow \<or> res > (- 1 - of_nat v) div ucast base)"
      using go lt by simp
    have inv: "if overflow \<or> res > (- 1 - of_nat v) div ucast base then 2 ^ 64 \<le> ?a
        else unat (res * ucast base + of_nat v) = ?a"
    proof (cases overflow)
      case True
      then have "2 ^ 64 \<le> a * 1" using Cons.prems(1) by simp
      also have "\<dots> \<le> a * unat base" using b by (intro mult_le_mono) auto
      finally show ?thesis using True by simp
    next
      case False
      then show ?thesis using Cons.prems(1) overflow_step [OF go(2) lt(2), of res] by (auto simp: not_le)
    qed
    show ?thesis using Cons.IH [OF inv Cons.prems(2) [unfolded step]] unfolding ds hor by (simp add: add.assoc)
  qed
qed

subsection \<open>What the conversions return\<close>

text \<open>A base is 0, for a prefix that tells it, or a number from 2 to 16.\<close>

definition good_base :: "u32 \<Rightarrow> bool" where "good_base b \<longleftrightarrow> b = 0 \<or> 2 \<le> b \<and> b \<le> 16"

lemma fixup_base: "good_base base \<Longrightarrow> parse_integer_fixup_radix s base = (t, b) \<Longrightarrow> 2 \<le> b \<and> b \<le> 16"
  by (auto simp: parse_integer_fixup_radix_def good_base_def Let_def split: if_splits)

lemma fixup_length: "parse_integer_fixup_radix s base = (t, b) \<Longrightarrow> length t \<le> length s"
  by (auto simp: parse_integer_fixup_radix_def Let_def)

lemma leading_digits_length: "length (leading_digits b s) \<le> length s"
  by (simp add: leading_digits_def length_takeWhile_le)

lemma overflow_bit:
  assumes "n < 2 ^ 31"
  shows "(of_nat n :: u32) AND KSTRTOX_OVERFLOW = 0" "((of_nat n :: u32) OR KSTRTOX_OVERFLOW) AND KSTRTOX_OVERFLOW \<noteq> 0"
    "((of_nat n :: u32) AND NOT KSTRTOX_OVERFLOW) = of_nat n" "((of_nat n OR KSTRTOX_OVERFLOW) AND NOT KSTRTOX_OVERFLOW) = (of_nat n :: u32)"
proof -
  have eq: "KSTRTOX_OVERFLOW = 2 ^ 31" by (simp add: KSTRTOX_OVERFLOW_def)
  have bits: "bit KSTRTOX_OVERFLOW k \<longleftrightarrow> k = 31" for k unfolding eq bit_exp_iff by auto
  have "\<not> bit n 31" using assms by (simp add: bit_iff_odd)
  then have n: "\<not> bit (of_nat n :: u32) 31" by (simp add: bit_simps)
  show "(of_nat n :: u32) AND KSTRTOX_OVERFLOW = 0" using n by (intro bit_word_eqI) (auto simp: bit_and_iff bits)
  show "((of_nat n :: u32) AND NOT KSTRTOX_OVERFLOW) = of_nat n"
    "((of_nat n OR KSTRTOX_OVERFLOW) AND NOT KSTRTOX_OVERFLOW) = (of_nat n :: u32)"
    using n by (intro bit_word_eqI; auto simp: bit_and_iff bit_or_iff bit_not_iff bits)+
  have "bit (((of_nat n :: u32) OR KSTRTOX_OVERFLOW) AND KSTRTOX_OVERFLOW) 31" by (simp add: bit_and_iff bit_or_iff bits)
  then show "((of_nat n :: u32) OR KSTRTOX_OVERFLOW) AND KSTRTOX_OVERFLOW \<noteq> 0" by (metis bit_0_eq bot_apply bot_bool_def)
qed

lemma parse_integer_spec:
  assumes "2 \<le> base" "length s < 2 ^ 31"
  shows "\<exists>rv res. parse_integer s base = (rv, res) \<and>
    rv AND NOT KSTRTOX_OVERFLOW = of_nat (length (leading_digits (unat base) s)) \<and>
    unat (rv AND NOT KSTRTOX_OVERFLOW) = length (leading_digits (unat base) s) \<and>
    (rv AND KSTRTOX_OVERFLOW \<noteq> 0 \<longleftrightarrow> 2 ^ 64 \<le> value_of (unat base) s) \<and>
    (value_of (unat base) s < 2 ^ 64 \<longrightarrow> unat res = value_of (unat base) s)"
proof -
  obtain res rv ov where p: "parse_loop s base 0 0 False = (res, rv, ov)" by (metis prod_cases3)
  let ?n = "length (leading_digits (unat base) s)"
  have pos: "0 < base" using assms(1) by (simp add: word_le_nat_alt word_less_nat_alt)
  have n: "?n < 2 ^ 31" using assms(2) leading_digits_length [of "unat base" s] by linarith
  have "rv = of_nat ?n" "ov \<longleftrightarrow> 2 ^ 64 \<le> value_of (unat base) s" "\<not> ov \<longrightarrow> unat res = value_of (unat base) s"
    using parse_loop_spec [OF pos _ p, of 0] by (simp_all add: value_of_def)
  moreover have "unat (of_nat ?n :: u32) = ?n" using n by (simp add: unat_of_nat take_bit_nat_eq_self)
  ultimately show ?thesis using overflow_bit [OF n] by (auto simp: parse_integer_def p)
qed

lemma ends_here_iff:
  "at_pos (if at_pos s 0 = CHR 0x0A then drop 1 s else s) 0 = NUL \<longleftrightarrow> ends_here s"
  by (auto simp: ends_here_def at_pos_def NUL_def split: if_splits)

lemma kstrtoull_core_spec:
  assumes "good_base base" "length s < 2 ^ 31"
  shows "kstrtoull_core s base = map_sum id of_nat (read_number s base)"
proof -
  obtain t b where tb: "parse_integer_fixup_radix s base = (t, b)" by fastforce
  have b: "2 \<le> b" and t: "length t < 2 ^ 31" using fixup_base [OF assms(1) tb] fixup_length [OF tb] assms(2) by auto
  obtain rv res where p: "parse_integer t b = (rv, res)" 
    "rv AND NOT KSTRTOX_OVERFLOW = of_nat (length (leading_digits (unat b) t))"
    "unat (rv AND NOT KSTRTOX_OVERFLOW) = length (leading_digits (unat b) t)"
    "rv AND KSTRTOX_OVERFLOW \<noteq> 0 \<longleftrightarrow> 2 ^ 64 \<le> value_of (unat b) t" "value_of (unat b) t < 2 ^ 64 \<longrightarrow> unat res = value_of (unat b) t"
    using parse_integer_spec [OF b t] by blast
  have "rv AND NOT KSTRTOX_OVERFLOW = 0 \<longleftrightarrow> leading_digits (unat b) t = []"
    using p(3) by (metis length_0_conv unsigned_0 unat_eq_zero)
  moreover have "value_of (unat b) t < 2 ^ 64 \<Longrightarrow> res = of_nat (value_of (unat b) t)"
    using p(5) by (metis of_nat_unat ucast_id)
  ultimately show ?thesis
    using p(4) ends_here_iff [of "drop (length (leading_digits (unat b) t)) t"]
    by (auto simp: kstrtoull_core_def read_number_def tb p(1) p(3) Let_def not_le)
qed

definition read_unsigned :: "string \<Rightarrow> u32 \<Rightarrow> errno + nat" where
  "read_unsigned s base = read_number (if at_pos s 0 = CHR ''+'' then drop 1 s else s) base"

definition read_signed :: "string \<Rightarrow> u32 \<Rightarrow> errno + int" where
  "read_signed s base =
     (if at_pos s 0 = CHR ''-'' then
        case read_number (drop 1 s) base of
          Inl e \<Rightarrow> Inl e
        | Inr n \<Rightarrow> if n = 0 \<or> 2 ^ 63 < n then Inl ERANGE else Inr (- int n)
      else
        case read_unsigned s base of
          Inl e \<Rightarrow> Inl e
        | Inr n \<Rightarrow> if 2 ^ 63 \<le> n then Inl ERANGE else Inr (int n))"

lemma read_number_less: "read_number s base = Inr n \<Longrightarrow> n < 2 ^ 64"
  by (auto simp: read_number_def Let_def split: prod.splits if_splits)

lemma kstrtoull_spec:
  "good_base base \<Longrightarrow> length s < 2 ^ 31 \<Longrightarrow> kstrtoull s base = map_sum id of_nat (read_unsigned s base)"
  by (auto simp: kstrtoull_def read_unsigned_def kstrtoull_core_spec)

lemma sint_of_int: "- (2 ^ 63) \<le> k \<Longrightarrow> k < 2 ^ 63 \<Longrightarrow> sint (of_int k :: u64) = k"
  by (simp add: signed_of_int signed_take_bit_int_eq_self)

lemma sint_of_nat:
  assumes "n < 2 ^ 64"
  shows "sint (of_nat n :: u64) = (if n < 2 ^ 63 then int n else int n - 2 ^ 64)"
proof (cases "n < 2 ^ 63")
  case True
  have "sint (of_int (int n) :: u64) = int n" using True by (intro sint_of_int) simp_all
  then show ?thesis using True by simp
next
  case False
  have eq: "(of_int (int n - 2 ^ 64) :: u64) = of_nat n" by simp
  have "sint (of_int (int n - 2 ^ 64) :: u64) = int n - 2 ^ 64" using False assms by (intro sint_of_int) simp_all
  then show ?thesis using False unfolding eq by simp
qed

lemma kstrtoll_spec:
  assumes "good_base base" "length s < 2 ^ 31"
  shows "kstrtoll s base = map_sum id of_int (read_signed s base)"
proof (cases "at_pos s 0 = CHR ''-''")
  case True
  have core: "kstrtoull_core (drop 1 s) base = map_sum id of_nat (read_number (drop 1 s) base)"
    using assms by (intro kstrtoull_core_spec) auto
  have neg: "sint (- of_nat n :: u64) \<ge> 0 \<longleftrightarrow> n = 0 \<or> 2 ^ 63 < n" if "n < 2 ^ 64" for n
  proof -
    obtain m where m: "m + n = 2 ^ 64" using \<open>n < 2 ^ 64\<close> by (metis less_imp_add_positive add.commute)
    have "(of_nat m + of_nat n :: u64) = 0" unfolding of_nat_add [symmetric] m by simp
    then have eq: "(- of_nat n :: u64) = of_nat m" by (simp add: eq_neg_iff_add_eq_0 neg_eq_iff_add_eq_0 add.commute)
    show ?thesis
    proof (cases "n = 0")
      case False
      then have "m < 2 ^ 64" using m by linarith
      then show ?thesis using m False unfolding eq by (simp add: sint_of_nat)
    qed simp
  qed
  show ?thesis
  proof (cases "read_number (drop 1 s) base")
    case (Inr n)
    then show ?thesis using True core neg [OF read_number_less [OF Inr]] by (simp add: kstrtoll_def read_signed_def)
  next
    case (Inl e)
    then show ?thesis using True core by (simp add: kstrtoll_def read_signed_def)
  qed
next
  case False
  show ?thesis
  proof (cases "read_unsigned s base")
    case (Inr n)
    then have "n < 2 ^ 64" using read_number_less unfolding read_unsigned_def by blast
    then show ?thesis using False Inr kstrtoull_spec [OF assms] sint_of_nat [of n] by (simp add: kstrtoll_def read_signed_def)
  next
    case (Inl e)
    then show ?thesis using False kstrtoull_spec [OF assms] by (simp add: kstrtoll_def read_signed_def)
  qed
qed

text \<open>Narrowing keeps the numbers of the type and refuses the others.\<close>

definition in_unsigned :: "nat \<Rightarrow> errno + nat \<Rightarrow> errno + nat" where
  "in_unsigned w r = (case r of Inl e \<Rightarrow> Inl e | Inr n \<Rightarrow> if n < 2 ^ w then Inr n else Inl ERANGE)"

definition in_signed :: "nat \<Rightarrow> errno + int \<Rightarrow> errno + int" where
  "in_signed w r = (case r of Inl e \<Rightarrow> Inl e | Inr i \<Rightarrow> if - (2 ^ (w - 1)) \<le> i \<and> i < 2 ^ (w - 1) then Inr i else Inl ERANGE)"

lemma narrow_unsigned_spec:
  assumes "LENGTH('a::len) \<le> 64" "\<And>n. r = Inr n \<Longrightarrow> n < 2 ^ 64"
  shows "narrow_unsigned TYPE('a word) (map_sum id of_nat r) = map_sum id of_nat (in_unsigned LENGTH('a) r)"
proof (cases r)
  case (Inr n)
  have "(of_nat n :: u64) = ucast (ucast (of_nat n :: u64) :: 'a word) \<longleftrightarrow> n < 2 ^ LENGTH('a)"
  proof -
    have "unat (of_nat n :: u64) = n" using assms(2) [OF Inr] by (simp add: unat_of_nat take_bit_nat_eq_self)
    moreover have "unat (ucast (ucast (of_nat n :: u64) :: 'a word) :: u64) = take_bit LENGTH('a) n"
      using assms(1) calculation by (simp add: unat_ucast_up unsigned_ucast_eq unsigned_take_bit_eq)
    ultimately show ?thesis by (metis take_bit_nat_eq_self_iff word_unat_eq_iff)
  qed
  moreover have "ucast (of_nat n :: u64) = (of_nat n :: 'a word)" using assms(1) by (simp add: unsigned_of_nat word_of_nat_eq_iff min_absorb1)
  ultimately show ?thesis using Inr by (simp add: narrow_unsigned_def in_unsigned_def)
qed (simp add: narrow_unsigned_def in_unsigned_def)

lemma sint_scast_up: "LENGTH('a::len) \<le> 64 \<Longrightarrow> sint (scast (w :: 'a word) :: u64) = sint w"
proof -
  assume len: "LENGTH('a) \<le> 64"
  have "(2 :: int) ^ (LENGTH('a) - 1) \<le> 2 ^ 63" using len by (intro power_increasing) auto
  then have "- (2 ^ 63) \<le> sint w" "sint w < 2 ^ 63" using sint_greater_eq [of w] sint_less [of w] by simp_all
  then show ?thesis by (simp add: signed_scast_eq signed_take_bit_int_eq_self)
qed

lemma narrow_signed_spec:
  assumes "LENGTH('a::len) \<le> 64" "\<And>i. r = Inr i \<Longrightarrow> - (2 ^ 63) \<le> i \<and> i < 2 ^ 63"
  shows "narrow_signed TYPE('a word) (map_sum id of_int r) = map_sum id of_int (in_signed LENGTH('a) r)"
proof (cases r)
  case (Inr i)
  have u: "ucast (of_int i :: u64) = (of_int i :: 'a word)" using assms(1) by (simp add: unsigned_of_int word_of_int_eq_iff min_absorb1)
  have "(of_int i :: u64) = scast (of_int i :: 'a word) \<longleftrightarrow> sint (of_int i :: 'a word) = i"
  proof
    assume "(of_int i :: u64) = scast (of_int i :: 'a word)"
    then have "sint (of_int i :: u64) = sint (scast (of_int i :: 'a word) :: u64)" by simp
    also have "\<dots> = sint (of_int i :: 'a word)" using assms(1) by (rule sint_scast_up)
    finally show "sint (of_int i :: 'a word) = i" using sint_of_int assms(2) [OF Inr] by simp
  next
    assume "sint (of_int i :: 'a word) = i"
    then show "(of_int i :: u64) = scast (of_int i :: 'a word)" by (metis scast_eq)
  qed
  also have "\<dots> \<longleftrightarrow> - (2 ^ (LENGTH('a) - 1)) \<le> i \<and> i < 2 ^ (LENGTH('a) - 1)"
    by (simp add: signed_of_int signed_take_bit_int_eq_self_iff)
  finally show ?thesis using Inr u by (simp add: narrow_signed_def in_signed_def)
qed (simp add: narrow_signed_def in_signed_def)

lemma read_signed_range: "read_signed s base = Inr i \<Longrightarrow> - (2 ^ 63) \<le> i \<and> i < 2 ^ 63"
  by (auto simp: read_signed_def split: if_splits sum.splits)

lemma read_unsigned_less: "read_unsigned s base = Inr n \<Longrightarrow> n < 2 ^ 64"
  unfolding read_unsigned_def by (rule read_number_less)

text \<open>
  C26. Every conversion of a string returns the number that the string denotes if the type holds it, and an error
  otherwise: the 64-bit accumulation with its overflow test agrees with arithmetic on unbounded numbers, on strings
  of every length below \<open>2 ^ 31\<close> and for every base. A negative zero is refused, see below.
\<close>

theorem kstrtox_exact:
  assumes "good_base base" "length s < 2 ^ 31"
  shows "kstrtoull s base = map_sum id of_nat (read_unsigned s base) \<and>
    kstrtoll s base = map_sum id of_int (read_signed s base) \<and>
    kstrtouint s base = map_sum id of_nat (in_unsigned 32 (read_unsigned s base)) \<and>
    kstrtoint s base = map_sum id of_int (in_signed 32 (read_signed s base)) \<and>
    kstrtou16 s base = map_sum id of_nat (in_unsigned 16 (read_unsigned s base)) \<and>
    kstrtos16 s base = map_sum id of_int (in_signed 16 (read_signed s base)) \<and>
    kstrtou8 s base = map_sum id of_nat (in_unsigned 8 (read_unsigned s base)) \<and>
    kstrtos8 s base = map_sum id of_int (in_signed 8 (read_signed s base)) \<and>
    kstrtoul s base = kstrtouint s base \<and> kstrtol s base = kstrtoint s base"
proof -
  note u = kstrtoull_spec [OF assms] and i = kstrtoll_spec [OF assms]
  show ?thesis
    unfolding kstrtouint_def kstrtoint_def kstrtou16_def kstrtos16_def kstrtou8_def kstrtos8_def kstrtoul_def kstrtol_def
    using u i narrow_unsigned_spec [where 'a = 32, OF _ read_unsigned_less] narrow_unsigned_spec [where 'a = 16, OF _ read_unsigned_less]
      narrow_unsigned_spec [where 'a = 8, OF _ read_unsigned_less]
      narrow_signed_spec [where 'a = 32, OF _ read_signed_range] narrow_signed_spec [where 'a = 16, OF _ read_signed_range]
      narrow_signed_spec [where 'a = 8, OF _ read_signed_range]
    by simp
qed

lemmas string_eval = char_code_def tolower_code_def isdigit_def isxdigit_def digit_val_def NUL_def leading_digits_def
  is_digit_in_def horner_def value_of_def ends_here_def at_pos_def

theorem kstrtox_exact_witness:
  "kstrtou8 ''0x1F'' 0 = Inr 31 \<and> kstrtos8 ''-129'' 10 = Inl ERANGE \<and> kstrtoull ''18446744073709551616'' 10 = Inl ERANGE"
proof -
  have "read_unsigned ''0x1F'' 0 = Inr 31" "read_signed ''-129'' 10 = Inr (- 129)"
    "read_unsigned ''18446744073709551616'' 10 = Inl ERANGE"
    by (simp_all add: read_signed_def read_unsigned_def read_number_def parse_integer_fixup_radix_def at_pos_def string_eval)
  then show ?thesis
    using kstrtox_exact [of 0 "''0x1F''"] kstrtox_exact [of 10 "''-129''"] kstrtox_exact [of 10 "''18446744073709551616''"]
    by (simp add: good_base_def in_unsigned_def in_signed_def)
qed

text \<open>
  Two numbers that are not what the string says. The string \<open>-0\<close> is refused as out of range by the signed
  conversions. A conversion from user space that gets more characters than its buffer holds drops the others, and
  returns the number that the first ones denote: of eleven characters, the last of which is \<open>1\<close>, \<open>kstrtou8_from_user\<close>
  makes 0.
\<close>

lemma kstrtox_defects:
  "kstrtoll ''-0'' 10 = Inl ERANGE \<and> kstrtoint ''-0'' 0 = Inl ERANGE \<and>
   kstrto_from_user kstrtou8 1 (\<lambda>k. if k < 11 then Some (''00000000001'' ! k) else None) 0 11 10 = Inr 0 \<and>
   kstrtou8 ''00000000001'' 10 = Inr 1"
  by (simp add: kstrtoll_def kstrtoint_def kstrtou8_def kstrto_from_user_def from_user_chars_def upt_conv_Cons
      kstrtoull_def kstrtoull_core_def parse_integer_def parse_integer_fixup_radix_def KSTRTOX_OVERFLOW_def
      narrow_signed_def narrow_unsigned_def string_eval)
    (simp add: word_le_nat_alt)

end
