(* ===== verification/Number_Format.thy ===== *)
theory Number_Format
  imports Kstrtox
begin

text \<open>
  Printing of numbers (\<open>lib/vsprintf.c\<close>: \<open>put_dec_trunc\<close>, \<open>put_dec_full\<close>, \<open>put_dec\<close>, \<open>number\<close>). Decimal digits are
  made with multiplications and shifts on 32-bit words; the characters go to a buffer whose end may come before
  that of the output. Digits are collected in reverse order, as in the array \<open>tmp\<close> of the source.
\<close>

subsection \<open>Decimal digits\<close>

definition digit_char :: "u32 \<Rightarrow> char" where "digit_char d = char_of (unat d + 48)"

definition put_dec_trunc :: "u32 \<Rightarrow> string" where
  "put_dec_trunc q =
     (let d1 = drop_bit 4 q AND 0xF; d2 = drop_bit 8 q AND 0xF; d3 = drop_bit 12 q;
          d0 = 6 * (d3 + d2 + d1) + (q AND 0xF);
          q = drop_bit 11 (d0 * 0xCD);
          d0 = d0 - 10 * q;
          d1 = q + 9 * d3 + 5 * d2 + d1 in
      digit_char d0 #
      (if d1 \<noteq> 0 then
         let q = drop_bit 11 (d1 * 0xCD);
             d1 = d1 - 10 * q;
             d2 = q + 2 * d2 in
         digit_char d1 #
         (if d2 \<noteq> 0 \<or> d3 \<noteq> 0 then
            let q = drop_bit 7 (d2 * 0xD);
                d2 = d2 - 10 * q;
                d3 = q + 4 * d3 in
            digit_char d2 #
            (if d3 \<noteq> 0 then
               let q = drop_bit 11 (d3 * 0xCD);
                   d3 = d3 - 10 * q in
               digit_char d3 # (if q \<noteq> 0 then [digit_char q] else [])
             else [])
          else [])
       else []))"

definition put_dec_full :: "u32 \<Rightarrow> string" where
  "put_dec_full q =
     (let d1 = drop_bit 4 q AND 0xF; d2 = drop_bit 8 q AND 0xF; d3 = drop_bit 12 q;
          d0 = 6 * (d3 + d2 + d1) + (q AND 0xF);
          q0 = drop_bit 11 (d0 * 0xCD);
          d1 = q0 + 9 * d3 + 5 * d2 + d1;
          q1 = drop_bit 11 (d1 * 0xCD);
          d2 = q1 + 2 * d2;
          q2 = drop_bit 7 (d2 * 0xD);
          d3 = q2 + 4 * d3;
          q3 = drop_bit 11 (d3 * 0xCD) in
      [digit_char (d0 - 10 * q0), digit_char (d1 - 10 * q1), digit_char (d2 - 10 * q2), digit_char (d3 - 10 * q3), digit_char q3])"

function put_dec :: "u64 \<Rightarrow> string" where
  "put_dec num =
     (if num < 100000 then put_dec_trunc (ucast num)
      else put_dec_full (ucast (num mod 100000)) @ put_dec (num div 100000))"
  by auto

termination put_dec
proof (relation "measure unat")
  fix num :: u64 assume "\<not> num < 100000"
  then show "(num div 100000, num) \<in> measure unat" by (simp add: word_less_nat_alt unat_div)
qed simp

declare put_dec.simps [simp del]

subsection \<open>Formatting\<close>

definition ZEROPAD :: u8 where "ZEROPAD = 1"
definition SIGN :: u8 where "SIGN = 2"
definition PLUS :: u8 where "PLUS = 4"
definition SPACE :: u8 where "SPACE = 8"
definition LEFT :: u8 where "LEFT = 16"
definition SMALL :: u8 where "SMALL = 32"
definition SPECIAL :: u8 where "SPECIAL = 64"

text \<open>The width and the precision are signed numbers of 16 bits.\<close>

definition s16 :: "int \<Rightarrow> int" where "s16 x = (x + 32768) mod 65536 - 32768"

record printf_spec =
  ps_flags :: u8
  ps_base :: u8
  field_width :: int
  precision :: int

text \<open>
  The output: the memory from the start of the buffer, the position of the next character and the end of the
  buffer. Characters after the end are counted and not stored.
\<close>

record out_buf =
  o_mem :: string
  o_buf :: nat
  o_end :: nat

definition emit :: "char \<Rightarrow> out_buf \<Rightarrow> out_buf" where
  "emit c out = out\<lparr>o_mem := (if o_buf out < o_end out then (o_mem out)[o_buf out := c] else o_mem out), o_buf := o_buf out + 1\<rparr>"

fun emit_list :: "string \<Rightarrow> out_buf \<Rightarrow> out_buf" where
  "emit_list [] out = out"
| "emit_list (c # cs) out = emit_list cs (emit c out)"

function pad_loop :: "char \<Rightarrow> int \<Rightarrow> out_buf \<Rightarrow> int \<times> out_buf" where
  "pad_loop c width out =
     (let width = s16 (width - 1) in if 0 \<le> width then pad_loop c width (emit c out) else (width, out))"
  by auto

termination pad_loop
proof (relation "measure (\<lambda>(c, width, out). if - 32768 < width \<and> width \<le> 32767 then nat width else 40000)")
  fix c :: char and width x :: int and out :: out_buf
  assume "x = s16 (width - 1)" "0 \<le> x"
  then show "((c, x, emit c out), c, width, out) \<in>
      measure (\<lambda>(c, width, out). if - 32768 < width \<and> width \<le> 32767 then nat width else 40000)"
    by (auto simp: s16_def)
qed simp

function prec_loop :: "nat \<Rightarrow> int \<Rightarrow> out_buf \<Rightarrow> out_buf" where
  "prec_loop i prec out =
     (let prec = s16 (prec - 1) in if int i \<le> prec then prec_loop i prec (emit (CHR ''0'') out) else out)"
  by auto

termination prec_loop
proof (relation "measure (\<lambda>(i, prec, out). if - 32768 < prec \<and> prec \<le> 32767 then nat prec else 40000)")
  fix i :: nat and prec x :: int and out :: out_buf
  assume "x = s16 (prec - 1)" "int i \<le> x"
  then show "((i, x, emit (CHR ''0'') out), i, prec, out) \<in>
      measure (\<lambda>(i, prec, out). if - 32768 < prec \<and> prec \<le> 32767 then nat prec else 40000)"
    by (auto simp: s16_def)
qed simp

declare pad_loop.simps [simp del] prec_loop.simps [simp del]

definition hex_table :: string where "hex_table = ''0123456789ABCDEF''"

definition or_char :: "char \<Rightarrow> u8 \<Rightarrow> char" where "or_char c l = char_of (char_code c OR unat l)"

function pow2_digits :: "u8 \<Rightarrow> u8 \<Rightarrow> u64 \<Rightarrow> string" where
  "pow2_digits base locase num =
     (let c = or_char (hex_table ! unat (ucast num AND (base - 1))) locase;
          num' = drop_bit (if base = 16 then 4 else 3) num in
      c # (if num' \<noteq> 0 then pow2_digits base locase num' else []))"
  by auto

termination pow2_digits
proof (relation "measure (\<lambda>(base, locase, num). unat num)")
  fix base locase :: u8 and num x :: u64
  assume x: "x = drop_bit (if base = 16 then 4 else 3) num" "x \<noteq> 0"
  have "unat x = unat num div 2 ^ (if base = 16 then 4 else 3)" unfolding x(1) by (simp add: drop_bit_eq_div unat_div)
  moreover have "unat num \<noteq> 0" using x by (auto simp: unat_eq_zero)
  ultimately show "((base, locase, x), base, locase, num) \<in> measure (\<lambda>(base, locase, num). unat num)" by simp
qed simp

declare pow2_digits.simps [simp del]

definition number_digits :: "u8 \<Rightarrow> u8 \<Rightarrow> u64 \<Rightarrow> string" where
  "number_digits base locase num =
     (if num = 0 then [CHR ''0''] else if base \<noteq> 10 then pow2_digits base locase num else put_dec num)"

definition number_sign :: "u8 \<Rightarrow> u64 \<Rightarrow> int \<Rightarrow> char option \<times> u64 \<times> int" where
  "number_sign flags num width =
     (if flags AND SIGN \<noteq> 0 then
        if sint num < 0 then (Some (CHR ''-''), - num, s16 (width - 1))
        else if flags AND PLUS \<noteq> 0 then (Some (CHR ''+''), num, s16 (width - 1))
        else if flags AND SPACE \<noteq> 0 then (Some (CHR '' ''), num, s16 (width - 1))
        else (None, num, width)
      else (None, num, width))"

definition emit_opt :: "char option \<Rightarrow> out_buf \<Rightarrow> out_buf" where
  "emit_opt sign out = (case sign of None \<Rightarrow> out | Some c \<Rightarrow> emit c out)"

definition emit_prefix :: "bool \<Rightarrow> u8 \<Rightarrow> u8 \<Rightarrow> out_buf \<Rightarrow> out_buf" where
  "emit_prefix need_pfx base locase out =
     (if need_pfx then
        let out = emit (CHR ''0'') out in
        if base = 16 then emit (or_char (CHR ''X'') locase) out else out
      else out)"

definition number :: "out_buf \<Rightarrow> u64 \<Rightarrow> printf_spec \<Rightarrow> out_buf" where
  "number out num spec =
     (let base = ps_base spec;
          need_pfx = (ps_flags spec AND SPECIAL \<noteq> 0 \<and> base \<noteq> 10);
          locase = ps_flags spec AND SMALL;
          flags = (if ps_flags spec AND LEFT \<noteq> 0 then ps_flags spec AND NOT ZEROPAD else ps_flags spec);
          (sign, num, width) = number_sign flags num (field_width spec);
          width = (if need_pfx then s16 (width - 1) else width);
          width = (if need_pfx \<and> base = 16 then s16 (width - 1) else width);
          tmp = number_digits base locase num;
          i = length tmp;
          prec = (if int i > precision spec then s16 (int i) else precision spec);
          width = s16 (width - prec);
          (width, out) = (if flags AND (ZEROPAD + LEFT) = 0 then pad_loop (CHR '' '') width out else (width, out));
          out = emit_prefix need_pfx base locase (emit_opt sign out);
          (width, out) = (if flags AND LEFT = 0
                          then pad_loop (if flags AND ZEROPAD \<noteq> 0 then CHR ''0'' else CHR '' '') width out else (width, out));
          out = emit_list (rev tmp) (prec_loop i prec out);
          (width, out) = pad_loop (CHR '' '') width out in
      out)"

subsection \<open>Decimal routines and digits\<close>

text \<open>The digits of a number, the least significant one first.\<close>

fun digits_rev :: "nat \<Rightarrow> nat \<Rightarrow> nat list" where
  "digits_rev b n = (if b \<le> 1 \<or> n < b then [n] else n mod b # digits_rev b (n div b))"

declare digits_rev.simps [simp del]

definition dec_char :: "nat \<Rightarrow> char" where "dec_char d = char_of (d + 48)"

lemma digit_char_of_nat: "n < 10 \<Longrightarrow> digit_char (of_nat n) = dec_char n"
  by (simp add: digit_char_def dec_char_def unat_of_nat take_bit_nat_eq_self)

text \<open>Words that hold small numbers.\<close>

lemma word_of_small:
  fixes a b :: nat
  assumes "a < 2 ^ 32"
  shows "(of_nat a :: u32) = 0 \<longleftrightarrow> a = 0"
    "drop_bit k (of_nat a :: u32) = of_nat (a div 2 ^ k)"
    "(of_nat a :: u32) AND 0xF = of_nat (a mod 16)"
    "b \<le> a \<Longrightarrow> (of_nat a - of_nat b :: u32) = of_nat (a - b)"
proof -
  have u: "unat (of_nat a :: u32) = a" using assms by (simp add: unat_of_nat take_bit_nat_eq_self)
  show "(of_nat a :: u32) = 0 \<longleftrightarrow> a = 0" using u by (metis unat_eq_zero of_nat_0)
  have "unat (drop_bit k (of_nat a :: u32)) = drop_bit k (take_bit LENGTH(32) (unat (of_nat a :: u32)))"
    by (rule unsigned_drop_bit_eq)
  then have "unat (drop_bit k (of_nat a :: u32)) = a div 2 ^ k"
    using assms unfolding u by (simp add: take_bit_nat_eq_self drop_bit_eq_div)
  then show "drop_bit k (of_nat a :: u32) = of_nat (a div 2 ^ k)" by (metis of_nat_unat ucast_id)
  have "(of_nat a :: u32) AND 0xF = take_bit 4 (of_nat a)" by (simp add: take_bit_eq_mask mask_numeral)
  then have "unat ((of_nat a :: u32) AND 0xF) = a mod 16"
    using u by (simp add: take_bit_eq_mod unat_mod)
  then show "(of_nat a :: u32) AND 0xF = of_nat (a mod 16)" by (metis of_nat_unat ucast_id)
  show "b \<le> a \<Longrightarrow> (of_nat a - of_nat b :: u32) = of_nat (a - b)" by (simp add: of_nat_diff)
qed

lemma div10_cases:
  fixes x :: nat
  obtains a b where "x = 10 * a + b" "b < 10" "x div 10 = a"
  using div_mult_mod_eq [of x 10] mod_less_divisor [of 10 x] by (metis mult.commute zero_less_numeral)

lemma div10_mult_205: "x * 205 div 2048 = x div 10" if "x \<le> 1019" for x :: nat
proof -
  obtain a b where x: "x = 10 * a + b" "b < 10" "x div 10 = a" by (rule div10_cases)
  then have "a \<le> 101" using that by linarith
  then show ?thesis unfolding x(3) unfolding x(1) using x(2) by (intro div_nat_eqI) simp_all
qed

lemma div10_mult_13: "x * 13 div 128 = x div 10" if "x \<le> 68" for x :: nat
proof -
  obtain a b where x: "x = 10 * a + b" "b < 10" "x div 10 = a" by (rule div10_cases)
  then have "a \<le> 5 \<or> a = 6 \<and> b \<le> 8" using that by linarith
  then show ?thesis unfolding x(3) unfolding x(1) using x(2) by (intro div_nat_eqI) auto
qed

lemma divmod10: "n = r + 10 * k \<Longrightarrow> r < 10 \<Longrightarrow> n div 10 = k \<and> n mod 10 = r" for n r k :: nat
  by simp

text \<open>The numbers that the decimal routines compute from the hexadecimal digits of their argument.\<close>

lemma put_dec_steps:
  fixes n :: nat
  assumes n: "n < 100000"
  defines "d1 \<equiv> n div 16 mod 16" and "d2 \<equiv> n div 256 mod 16" and "d3 \<equiv> n div 4096"
  defines "s0 \<equiv> 6 * (d3 + d2 + d1) + n mod 16"
  defines "s1 \<equiv> s0 div 10 + 9 * d3 + 5 * d2 + d1"
  defines "s2 \<equiv> s1 div 10 + 2 * d2"
  defines "s3 \<equiv> s2 div 10 + 4 * d3"
  shows "s0 \<le> 339" "s1 \<le> 339" "s2 \<le> 63" "s3 \<le> 102" "s0 mod 10 = n mod 10" "s1 mod 10 = n div 10 mod 10"
    "s2 mod 10 = n div 100 mod 10" "s3 mod 10 = n div 1000 mod 10" "s3 div 10 = n div 10000"
    "s1 = 0 \<longleftrightarrow> n < 10" "s2 = 0 \<and> d3 = 0 \<longleftrightarrow> n < 100" "s3 = 0 \<longleftrightarrow> n < 1000"
proof -
  have b: "d1 \<le> 15" "d2 \<le> 15" "d3 \<le> 24" "n mod 16 \<le> 15" using n by (simp_all add: d1_def d2_def d3_def)
  then show s: "s0 \<le> 339" by (simp add: s0_def)
  then have "s0 div 10 \<le> 33" by simp
  then show s1: "s1 \<le> 339" using b by (simp add: s1_def)
  then have "s1 div 10 \<le> 33" by simp
  then show s2: "s2 \<le> 63" using b by (simp add: s2_def)
  then have "s2 div 10 \<le> 6" by simp
  then show "s3 \<le> 102" using b by (simp add: s3_def)
  have "n div 256 = n div 16 div 16" "n div 4096 = n div 256 div 16" by (simp_all flip: div_mult2_eq)
  then have "n = n mod 16 + 16 * d1 + 256 * d2 + 4096 * d3"
    using div_mult_mod_eq [of n 16] div_mult_mod_eq [of "n div 16" 16] div_mult_mod_eq [of "n div 256" 16]
    unfolding d1_def d2_def d3_def by linarith
  then have n_eq: "n = s0 + 10 * (9 * d3 + 5 * d2 + d1) + 100 * (2 * d2) + 1000 * (4 * d3)" by (simp add: s0_def)
  have n1: "n = s0 mod 10 + 10 * (s1 + 10 * (2 * d2) + 100 * (4 * d3))" unfolding s1_def using n_eq div_mult_mod_eq [of s0 10] by (simp add: algebra_simps)
  have d10: "n div 10 = s1 + 10 * (2 * d2) + 100 * (4 * d3)" "n mod 10 = s0 mod 10" using divmod10 [OF n1] by linarith+
  have n2: "n div 10 = s1 mod 10 + 10 * (s2 + 10 * (4 * d3))" unfolding s2_def using d10(1) div_mult_mod_eq [of s1 10] by (simp add: algebra_simps)
  have "n div 100 = n div 10 div 10" "n div 1000 = n div 100 div 10" by (simp_all flip: div_mult2_eq)
  then have d100: "n div 100 = s2 + 10 * (4 * d3)" "n div 10 mod 10 = s1 mod 10" using divmod10 [OF n2] by linarith+
  have n3: "n div 100 = s2 mod 10 + 10 * s3" unfolding s3_def using d100(1) div_mult_mod_eq [of s2 10] by (simp add: algebra_simps)
  then have d1000: "n div 1000 = s3" "n div 100 mod 10 = s2 mod 10"
    using divmod10 [OF n3] \<open>n div 1000 = n div 100 div 10\<close> by linarith+
  show "s0 mod 10 = n mod 10" "s1 mod 10 = n div 10 mod 10" "s2 mod 10 = n div 100 mod 10" "s3 mod 10 = n div 1000 mod 10"
    using d10 d100 d1000 by simp_all
  show "s3 div 10 = n div 10000" using d1000(1) by (simp flip: d1000(1) add: div_mult2_eq [symmetric])
  show "s1 = 0 \<longleftrightarrow> n < 10"
  proof -
    have "s1 = 0 \<longleftrightarrow> n div 10 = 0" unfolding d10 s1_def by auto
    then show ?thesis by (simp add: div_eq_0_iff)
  qed
  show "s2 = 0 \<and> d3 = 0 \<longleftrightarrow> n < 100" using d100(1) by (cases "n < 100") auto
  show "s3 = 0 \<longleftrightarrow> n < 1000" using d1000(1) by auto
qed

lemma word_div10:
  "x \<le> 1019 \<Longrightarrow> drop_bit 11 (of_nat x * 0xCD :: u32) = of_nat (x div 10)"
  "x \<le> 68 \<Longrightarrow> drop_bit 7 (of_nat x * 0xD :: u32) = of_nat (x div 10)"
  "of_nat x - 10 * of_nat (x div 10) = (of_nat (x mod 10) :: u32)"
proof -
  have "(of_nat x * 0xCD :: u32) = of_nat (x * 205)" "(of_nat x * 0xD :: u32) = of_nat (x * 13)" by simp_all
  then show "x \<le> 1019 \<Longrightarrow> drop_bit 11 (of_nat x * 0xCD :: u32) = of_nat (x div 10)"
    "x \<le> 68 \<Longrightarrow> drop_bit 7 (of_nat x * 0xD :: u32) = of_nat (x div 10)"
    using word_of_small(2) [of "x * 205" 11] word_of_small(2) [of "x * 13" 7] div10_mult_205 [of x] div10_mult_13 [of x] by simp_all
  have "(of_nat x :: u32) = of_nat (10 * (x div 10) + x mod 10)" by simp
  then show "of_nat x - 10 * of_nat (x div 10) = (of_nat (x mod 10) :: u32)" unfolding of_nat_add of_nat_mult by simp
qed

text \<open>What the routines hold in their variables for the argument \<open>n\<close>.\<close>

definition dec_words :: "nat \<Rightarrow> nat \<Rightarrow> nat \<Rightarrow> nat \<Rightarrow> nat \<Rightarrow> nat \<Rightarrow> nat \<Rightarrow> nat \<Rightarrow> bool" where
  "dec_words n d1 d2 d3 s0 s1 s2 s3 \<longleftrightarrow>
     drop_bit 4 (of_nat n :: u32) AND 0xF = of_nat d1 \<and> drop_bit 8 (of_nat n :: u32) AND 0xF = of_nat d2 \<and>
     drop_bit 12 (of_nat n :: u32) = of_nat d3 \<and> (of_nat n :: u32) AND 0xF = of_nat (n mod 16) \<and>
     6 * (of_nat d3 + of_nat d2 + of_nat d1) + of_nat (n mod 16) = (of_nat s0 :: u32) \<and>
     of_nat (s0 div 10) + 9 * of_nat d3 + 5 * of_nat d2 + of_nat d1 = (of_nat s1 :: u32) \<and>
     of_nat (s1 div 10) + 2 * of_nat d2 = (of_nat s2 :: u32) \<and> of_nat (s2 div 10) + 4 * of_nat d3 = (of_nat s3 :: u32)"

lemma put_dec_words:
  assumes n: "n < 100000"
  obtains d1 d2 d3 s0 s1 s2 s3 where "dec_words n d1 d2 d3 s0 s1 s2 s3" "s0 \<le> 339" "s1 \<le> 339" "s2 \<le> 63" "s3 \<le> 102"
    "s0 mod 10 = n mod 10 \<and> s1 mod 10 = n div 10 mod 10 \<and> s2 mod 10 = n div 100 mod 10 \<and> s3 mod 10 = n div 1000 mod 10 \<and>
     s3 div 10 = n div 10000"
    "(of_nat s1 :: u32) = 0 \<longleftrightarrow> n < 10" "(of_nat s2 :: u32) = 0 \<and> (of_nat d3 :: u32) = 0 \<longleftrightarrow> n < 100"
    "(of_nat s3 :: u32) = 0 \<longleftrightarrow> n < 1000" "(of_nat (s3 div 10) :: u32) = 0 \<longleftrightarrow> n < 10000"
proof -
  define d1 d2 d3 where "d1 = n div 16 mod 16" and "d2 = n div 256 mod 16" and "d3 = n div 4096"
  define s0 where "s0 = 6 * (d3 + d2 + d1) + n mod 16"
  define s1 where "s1 = s0 div 10 + 9 * d3 + 5 * d2 + d1"
  define s2 where "s2 = s1 div 10 + 2 * d2"
  define s3 where "s3 = s2 div 10 + 4 * d3"
  note st = put_dec_steps [OF n, folded d1_def d2_def d3_def, folded s0_def, folded s1_def, folded s2_def, folded s3_def]
  have w: "drop_bit 4 (of_nat n :: u32) AND 0xF = of_nat d1" "drop_bit 8 (of_nat n :: u32) AND 0xF = of_nat d2"
    "drop_bit 12 (of_nat n :: u32) = of_nat d3" "(of_nat n :: u32) AND 0xF = of_nat (n mod 16)"
    using n word_of_small(2) [of n] word_of_small(3) [of n] word_of_small(3) [of "n div 16"] word_of_small(3) [of "n div 256"]
    by (simp_all add: d1_def d2_def d3_def)
  have sums: "6 * (of_nat d3 + of_nat d2 + of_nat d1) + of_nat (n mod 16) = (of_nat s0 :: u32)"
    "of_nat (s0 div 10) + 9 * of_nat d3 + 5 * of_nat d2 + of_nat d1 = (of_nat s1 :: u32)"
    "of_nat (s1 div 10) + 2 * of_nat d2 = (of_nat s2 :: u32)" "of_nat (s2 div 10) + 4 * of_nat d3 = (of_nat s3 :: u32)"
    unfolding s0_def s1_def s2_def s3_def by simp_all
  have "d3 < 2 ^ 32" using n by (simp add: d3_def)
  then have "(of_nat s1 :: u32) = 0 \<longleftrightarrow> n < 10" "(of_nat s2 :: u32) = 0 \<and> (of_nat d3 :: u32) = 0 \<longleftrightarrow> n < 100"
    "(of_nat s3 :: u32) = 0 \<longleftrightarrow> n < 1000"
    using st(2-4,10-12) word_of_small(1) [of s1] word_of_small(1) [of s2] word_of_small(1) [of s3] word_of_small(1) [of d3] by simp_all
  moreover have "s3 div 10 = 0 \<longleftrightarrow> n < 10000" unfolding st(9) by (simp add: div_eq_0_iff)
  then have "(of_nat (s3 div 10) :: u32) = 0 \<longleftrightarrow> n < 10000" using st(4) word_of_small(1) [of "s3 div 10"] by simp
  moreover have "dec_words n d1 d2 d3 s0 s1 s2 s3" unfolding dec_words_def using w sums by blast
  ultimately show thesis using that st(1-9) by blast
qed

lemma dec_digit: "n div 10000 < 10" if "n < 100000" for n :: nat
  using that by (simp add: less_mult_imp_div_less)

lemma put_dec_full_eq:
  assumes n: "n < 100000"
  shows "put_dec_full (of_nat n) =
    map dec_char [n mod 10, n div 10 mod 10, n div 100 mod 10, n div 1000 mod 10, n div 10000]"
proof -
  obtain d1 d2 d3 s0 s1 s2 s3 where w: "dec_words n d1 d2 d3 s0 s1 s2 s3"
    and b: "s0 \<le> 339" "s1 \<le> 339" "s2 \<le> 63" "s3 \<le> 102"
    and d: "s0 mod 10 = n mod 10 \<and> s1 mod 10 = n div 10 mod 10 \<and> s2 mod 10 = n div 100 mod 10 \<and> s3 mod 10 = n div 1000 mod 10 \<and>
     s3 div 10 = n div 10000" by (rule put_dec_words [OF n])
  note w = w [unfolded dec_words_def]
  have "put_dec_full (of_nat n) =
      map digit_char [of_nat (s0 mod 10), of_nat (s1 mod 10), of_nat (s2 mod 10), of_nat (s3 mod 10), of_nat (s3 div 10)]"
    using b by (simp only: put_dec_full_def Let_def w word_div10) (simp add: word_div10)
  then show ?thesis using d dec_digit [OF n] by (simp add: digit_char_of_nat)
qed

lemma digits_rev_10:
  "n < 10 \<Longrightarrow> digits_rev 10 n = [n]"
  "\<not> n < 10 \<Longrightarrow> digits_rev 10 n = n mod 10 # digits_rev 10 (n div 10)"
  by (subst digits_rev.simps; simp)+

lemma put_dec_trunc_eq:
  assumes n: "n < 100000"
  shows "put_dec_trunc (of_nat n) = map dec_char (digits_rev 10 n)"
proof -
  obtain d1 d2 d3 s0 s1 s2 s3 where w: "dec_words n d1 d2 d3 s0 s1 s2 s3"
    and b: "s0 \<le> 339" "s1 \<le> 339" "s2 \<le> 63" "s3 \<le> 102"
    and d: "s0 mod 10 = n mod 10 \<and> s1 mod 10 = n div 10 mod 10 \<and> s2 mod 10 = n div 100 mod 10 \<and> s3 mod 10 = n div 1000 mod 10 \<and>
     s3 div 10 = n div 10000"
    and z: "(of_nat s1 :: u32) = 0 \<longleftrightarrow> n < 10" "(of_nat s2 :: u32) = 0 \<and> (of_nat d3 :: u32) = 0 \<longleftrightarrow> n < 100"
    "(of_nat s3 :: u32) = 0 \<longleftrightarrow> n < 1000" "(of_nat (s3 div 10) :: u32) = 0 \<longleftrightarrow> n < 10000" by (rule put_dec_words [OF n])
  note w = w [unfolded dec_words_def]
  have z2: "(of_nat s2 :: u32) \<noteq> 0 \<or> (of_nat d3 :: u32) \<noteq> 0 \<longleftrightarrow> \<not> n < 100" using z(2) by blast
  have "put_dec_trunc (of_nat n) = digit_char (of_nat (s0 mod 10)) #
      (if \<not> n < 10 then digit_char (of_nat (s1 mod 10)) #
        (if \<not> n < 100 then digit_char (of_nat (s2 mod 10)) #
          (if \<not> n < 1000 then digit_char (of_nat (s3 mod 10)) #
            (if \<not> n < 10000 then [digit_char (of_nat (s3 div 10))] else []) else []) else []) else [])"
    using b by (simp only: put_dec_trunc_def Let_def w word_div10 z(1,3,4) z2)
  also have "\<dots> = dec_char (n mod 10) #
      (if \<not> n < 10 then dec_char (n div 10 mod 10) #
        (if \<not> n < 100 then dec_char (n div 100 mod 10) #
          (if \<not> n < 1000 then dec_char (n div 1000 mod 10) #
            (if \<not> n < 10000 then [dec_char (n div 10000)] else []) else []) else []) else [])"
    using d dec_digit [OF n] by (simp add: digit_char_of_nat)
  also have "\<dots> = map dec_char (digits_rev 10 n)"
  proof -
    have "n div 10 div 10 = n div 100" "n div 100 div 10 = n div 1000" "n div 1000 div 10 = n div 10000"
      by (simp_all flip: div_mult2_eq)
    moreover have "n div 10 < 10 \<longleftrightarrow> n < 100" "n div 100 < 10 \<longleftrightarrow> n < 1000" "n div 1000 < 10 \<longleftrightarrow> n < 10000" "n div 10000 < 10"
      using dec_digit [OF n] by (simp_all add: div_less_iff_less_mult)
    ultimately show ?thesis
      by (cases "n < 10"; cases "n < 100"; cases "n < 1000"; cases "n < 10000") (simp_all add: digits_rev_10)
  qed
  finally show ?thesis .
qed

lemma mod_div_digit:
  fixes n k :: nat
  assumes "k = 10 \<or> k = 100 \<or> k = 1000"
  shows "(n mod 100000) div k mod 10 = n div k mod 10"
proof -
  define c where "c = 100000 div k"
  have c: "100000 = k * c" "10 dvd c" "0 < k" using assms by (auto simp: c_def)
  have "n mod (k * c) div k = n div k mod c" using c(3) by (simp add: mod_mult2_eq)
  then show ?thesis using c by (simp add: mod_mod_cancel)
qed

lemma digits_rev_5:
  assumes "\<not> n < 100000"
  shows "digits_rev 10 n = [n mod 10, n div 10 mod 10, n div 100 mod 10, n div 1000 mod 10, n div 10000 mod 10] @ digits_rev 10 (n div 100000)"
proof -
  have "n div 10 div 10 = n div 100" "n div 100 div 10 = n div 1000" "n div 1000 div 10 = n div 10000" "n div 10000 div 10 = n div 100000"
    by (simp_all flip: div_mult2_eq)
  moreover have "\<not> n < 10" "\<not> n div 10 < 10" "\<not> n div 100 < 10" "\<not> n div 1000 < 10" "\<not> n div 10000 < 10"
    using assms by (simp_all add: div_less_iff_less_mult)
  ultimately show ?thesis by (simp add: digits_rev_10)
qed

lemma put_dec_eq: "put_dec num = map dec_char (digits_rev 10 (unat num))"
proof (induction num rule: put_dec.induct)
  case (1 num)
  have u: "(ucast w :: u32) = of_nat (unat w)" for w :: u64 by simp
  have less: "num < 100000 \<longleftrightarrow> unat num < 100000" by (simp add: word_less_nat_alt)
  show ?case
  proof (cases "num < 100000")
    case True
    then show ?thesis using put_dec_trunc_eq [of "unat num"] less unfolding put_dec.simps [of num] u by simp
  next
    case False
    let ?n = "unat num" and ?r = "unat num mod 100000"
    have "?r mod 10 = ?n mod 10" by (simp add: mod_mod_cancel)
    moreover have "?r div 10000 = ?n div 10000 mod 10" using mod_mult2_eq [of ?n 10000 10] by simp
    ultimately have "put_dec_full (of_nat ?r) = map dec_char [?n mod 10, ?n div 10 mod 10, ?n div 100 mod 10, ?n div 1000 mod 10, ?n div 10000 mod 10]"
      using put_dec_full_eq [of ?r] mod_div_digit [of 10 ?n] mod_div_digit [of 100 ?n] mod_div_digit [of 1000 ?n] by simp
    moreover have "put_dec (num div 100000) = map dec_char (digits_rev 10 (?n div 100000))" using 1 False by (simp add: unat_div)
    ultimately show ?thesis
      using False less digits_rev_5 [of ?n] unfolding put_dec.simps [of num] u by (simp add: unat_mod)
  qed
qed

end
