(* ===== verification/Number_Text.thy ===== *)
theory Number_Text
  imports Number_Format
begin

text \<open>
  The text that \<open>number\<close> (\<open>lib/vsprintf.c\<close>) produces, as a function on lists and unbounded numbers, and the proof that
  \<open>number\<close> stores this text as far as the buffer goes and counts the rest.  The text read back by the conversions of
  \<open>lib/kstrtox.c\<close> is the number again.
\<close>

subsection \<open>The buffer\<close>

lemma emit_list_append: "emit_list (xs @ ys) out = emit_list ys (emit_list xs out)"
  by (induction xs arbitrary: out) simp_all

lemma emit_list_buf: "o_buf (emit_list cs out) = o_buf out + length cs" "o_end (emit_list cs out) = o_end out"
  "length (o_mem (emit_list cs out)) = length (o_mem out)"
  by (induction cs arbitrary: out) (simp_all add: emit_def)

lemma emit_list_mem:
  assumes "k < length (o_mem out)"
  shows "o_mem (emit_list cs out) ! k =
    (if o_buf out \<le> k \<and> k < o_end out \<and> k < o_buf out + length cs then cs ! (k - o_buf out) else o_mem out ! k)"
  using assms
proof (induction cs arbitrary: out)
  case (Cons c cs)
  have "o_mem (emit_list (c # cs) out) ! k =
      (if Suc (o_buf out) \<le> k \<and> k < o_end out \<and> k < Suc (o_buf out) + length cs then cs ! (k - Suc (o_buf out)) else o_mem (emit c out) ! k)"
    using Cons.IH [of "emit c out"] Cons.prems by (simp add: emit_def)
  then show ?case using Cons.prems by (auto simp: emit_def nth_Cons' Suc_le_eq nth_list_update)
qed auto

subsection \<open>Padding\<close>

lemma s16_id: "- 32768 \<le> x \<Longrightarrow> x \<le> 32767 \<Longrightarrow> s16 x = x"
  by (simp add: s16_def)

lemma pad_loop_eq:
  "- 32768 < width \<Longrightarrow> width \<le> 32767 \<Longrightarrow>
     pad_loop c width out = (min (width - 1) (- 1), emit_list (replicate (nat width) c) out)"
proof (induction c width out rule: pad_loop.induct)
  case (1 c width out)
  show ?case
  proof (cases "0 < width")
    case True
    then have "nat width = Suc (nat (width - 1))" by simp
    then show ?thesis using 1 True by (subst pad_loop.simps) (simp add: s16_id Let_def)
  next
    case False
    then show ?thesis using 1(2,3) by (subst pad_loop.simps) (simp add: s16_id Let_def)
  qed
qed

lemma prec_loop_eq:
  "- 32768 < prec \<Longrightarrow> prec \<le> 32767 \<Longrightarrow> prec_loop i prec out = emit_list (replicate (nat (prec - int i)) (CHR ''0'')) out"
proof (induction i prec out rule: prec_loop.induct)
  case (1 i prec out)
  show ?case
  proof (cases "int i < prec")
    case True
    then have "nat (prec - int i) = Suc (nat (prec - 1 - int i))" by simp
    then show ?thesis using 1 True by (subst prec_loop.simps) (simp add: s16_id Let_def)
  next
    case False
    then show ?thesis using 1(2,3) by (subst prec_loop.simps) (simp add: s16_id Let_def)
  qed
qed

subsection \<open>Digits\<close>

text \<open>The digit characters, in upper or lower case.\<close>

definition base_char :: "bool \<Rightarrow> nat \<Rightarrow> char" where
  "base_char small d = char_of (if d < 10 then d + 48 else if small then d + 87 else d + 55)"

lemma flag_bit:
  "f AND ZEROPAD = 0 \<longleftrightarrow> \<not> bit f 0" "f AND SIGN = 0 \<longleftrightarrow> \<not> bit f 1" "f AND PLUS = 0 \<longleftrightarrow> \<not> bit f 2" "f AND SPACE = 0 \<longleftrightarrow> \<not> bit f 3"
  "f AND LEFT = 0 \<longleftrightarrow> \<not> bit f 4" "f AND SMALL = 0 \<longleftrightarrow> \<not> bit f 5" "f AND SPECIAL = 0 \<longleftrightarrow> \<not> bit f 6"
  using and_exp_eq_0_iff_not_bit [of f 0] and_exp_eq_0_iff_not_bit [of f 1] and_exp_eq_0_iff_not_bit [of f 2]
    and_exp_eq_0_iff_not_bit [of f 3] and_exp_eq_0_iff_not_bit [of f 4] and_exp_eq_0_iff_not_bit [of f 5]
    and_exp_eq_0_iff_not_bit [of f 6]
  by (simp_all add: ZEROPAD_def SIGN_def PLUS_def SPACE_def LEFT_def SMALL_def SPECIAL_def)

lemma flag_pad: "f AND (ZEROPAD + LEFT) = 0 \<longleftrightarrow> \<not> bit f 0 \<and> \<not> bit f 4"
proof -
  have "ZEROPAD + LEFT = ZEROPAD OR LEFT" by (simp add: ZEROPAD_def LEFT_def)
  then have "f AND (ZEROPAD + LEFT) = (f AND ZEROPAD) OR (f AND LEFT)" by (simp add: bit.conj_disj_distrib)
  then show ?thesis by (simp add: flag_bit [symmetric] or_eq_0_iff)
qed

lemma flag_clear: "bit (f AND NOT ZEROPAD) n \<longleftrightarrow> bit f n \<and> n \<noteq> 0"
proof -
  have "bit ZEROPAD n \<longleftrightarrow> n = 0" by (auto simp: ZEROPAD_def bit_1_iff)
  then show ?thesis using bit_imp_le_length [of f n] by (auto simp: bit_and_iff bit_not_iff)
qed

lemma small_value: "f AND SMALL = (if bit f 5 then 32 else 0)"
proof -
  have "bit SMALL n \<longleftrightarrow> n = 5" for n unfolding SMALL_def using bit_exp_iff [of 5 n, where 'a = u8] by auto
  then have "f AND SMALL = (if bit f 5 then SMALL else 0)" by (intro bit_word_eqI) (auto simp: bit_and_iff)
  then show ?thesis by (simp add: SMALL_def)
qed

lemma char_is_code: "c = char_of n \<longleftrightarrow> of_char c = take_bit 8 n" for n :: nat
  using char_of_eq_iff [of n c] by auto

lemma or_char_table: "d < 16 \<Longrightarrow> or_char (hex_table ! d) (if small then 32 else 0) = base_char small d"
proof -
  have "list_all (\<lambda>d. or_char (hex_table ! d) 32 = base_char True d \<and> or_char (hex_table ! d) 0 = base_char False d) [0..<16]"
    by (simp add: upt_conv_Cons hex_table_def or_char_def base_char_def char_code_def char_is_code)
  then show "d < 16 \<Longrightarrow> or_char (hex_table ! d) (if small then 32 else 0) = base_char small d"
    by (cases small) (simp_all add: list_all_iff)
qed

lemma pow2_index:
  fixes num :: u64
  assumes "base = 8 \<or> base = 16"
  shows "unat (ucast num AND (base - 1) :: u8) = unat num mod unat base"
proof -
  have "ucast num AND (7 :: u8) = take_bit 3 (ucast num)" "ucast num AND (15 :: u8) = take_bit 4 (ucast num)"
    by (simp_all add: take_bit_eq_mask mask_numeral)
  then have "unat (ucast num AND (7 :: u8)) = take_bit 3 (unat num)" "unat (ucast num AND (15 :: u8)) = take_bit 4 (unat num)"
    by (simp_all add: unsigned_take_bit_eq unsigned_ucast_eq)
  then show ?thesis using assms by (auto simp: take_bit_eq_mod)
qed

lemma pow2_digits_eq:
  assumes base: "base = 8 \<or> base = 16"
  shows "pow2_digits base (if small then 32 else 0) num = map (base_char small) (digits_rev (unat base) (unat num))"
proof (induction num rule: measure_induct_rule [of unat])
  case (less num)
  define num' where "num' = drop_bit (if base = 16 then 4 else 3) num"
  have u: "unat num' = unat num div unat base" using base by (auto simp: num'_def drop_bit_eq_div unat_div)
  have c: "or_char (hex_table ! unat (ucast num AND (base - 1))) (if small then 32 else 0) = base_char small (unat num mod unat base)"
    unfolding pow2_index [OF base] using base by (intro or_char_table) auto
  have step: "pow2_digits base (if small then 32 else 0) num =
      base_char small (unat num mod unat base) # (if num' \<noteq> 0 then pow2_digits base (if small then 32 else 0) num' else [])"
    by (subst pow2_digits.simps) (simp only: Let_def c num'_def [symmetric])
  have z: "num' = 0 \<longleftrightarrow> unat num < unat base" using u base by (auto simp: unat_eq_zero [symmetric] div_eq_0_iff)
  show ?case
  proof (cases "num' = 0")
    case True
    then show ?thesis using step z by (subst digits_rev.simps) simp
  next
    case False
    then have "unat num' < unat num" using u z base by auto
    then show ?thesis using step less [of num'] z False u base by (subst digits_rev.simps) auto
  qed
qed

lemma number_digits_eq:
  assumes "base = 8 \<or> base = 10 \<or> base = 16"
  shows "number_digits base (f AND SMALL) num = map (base_char (bit f 5)) (digits_rev (unat base) (unat num))"
proof (cases "num = 0")
  case True
  have "digits_rev (unat base) 0 = [0]" using assms by (subst digits_rev.simps) auto
  then show ?thesis using True by (simp add: number_digits_def base_char_def char_is_code)
next
  case False
  have dec: "map dec_char (digits_rev 10 n) = map (base_char sm) (digits_rev 10 n)" for n sm
  proof -
    have "d \<in> set (digits_rev 10 n) \<Longrightarrow> d < 10" for d
      by (induction "10 :: nat" n rule: digits_rev.induct) (subst (asm) digits_rev.simps, auto split: if_splits)
    then show ?thesis by (simp add: dec_char_def base_char_def)
  qed
  show ?thesis
    using assms False pow2_digits_eq [of base "bit f 5" num] put_dec_eq [of num] dec
    by (auto simp: number_digits_def small_value)
qed

subsection \<open>The text\<close>

definition sign_text :: "u8 \<Rightarrow> u64 \<Rightarrow> string" where
  "sign_text f num =
     (if \<not> bit f 1 then [] else if sint num < 0 then ''-'' else if bit f 2 then ''+'' else if bit f 3 then '' '' else [])"

definition magnitude :: "u8 \<Rightarrow> u64 \<Rightarrow> nat" where
  "magnitude f num = (if bit f 1 \<and> sint num < 0 then nat (- sint num) else unat num)"

definition prefix_text :: "u8 \<Rightarrow> u8 \<Rightarrow> string" where
  "prefix_text f base =
     (if bit f 6 \<and> base \<noteq> 10 then if base = 16 then [CHR ''0'', if bit f 5 then CHR ''x'' else CHR ''X''] else ''0'' else [])"

definition digits_text :: "u8 \<Rightarrow> u8 \<Rightarrow> nat \<Rightarrow> string" where
  "digits_text f base n = map (base_char (bit f 5)) (rev (digits_rev (unat base) n))"

definition number_text :: "u64 \<Rightarrow> printf_spec \<Rightarrow> string" where
  "number_text num spec =
     (let f = ps_flags spec; base = ps_base spec;
          sgn = sign_text f num; pfx = prefix_text f base; ds = digits_text f base (magnitude f num);
          body = replicate (nat (precision spec) - length ds) (CHR ''0'') @ ds;
          gap = nat (field_width spec - int (length (sgn @ pfx @ body))) in
      if bit f 4 then sgn @ pfx @ body @ replicate gap (CHR '' '')
      else if bit f 0 then sgn @ pfx @ replicate gap (CHR ''0'') @ body
      else replicate gap (CHR '' '') @ sgn @ pfx @ body)"

text \<open>Widths and precisions for which the 16-bit arithmetic does not wrap; -1 stands for none.\<close>

definition spec_ok :: "printf_spec \<Rightarrow> bool" where
  "spec_ok spec \<longleftrightarrow> (ps_base spec = 8 \<or> ps_base spec = 10 \<or> ps_base spec = 16) \<and>
     - 1 \<le> field_width spec \<and> field_width spec \<le> 32767 \<and> - 1 \<le> precision spec \<and> precision spec \<le> 32000"

lemma digits_rev_length: "2 \<le> b \<Longrightarrow> n < b ^ k \<Longrightarrow> 0 < k \<Longrightarrow> length (digits_rev b n) \<le> k"
proof (induction k arbitrary: n)
  case (Suc k)
  show ?case
  proof (cases "n < b")
    case True
    then show ?thesis by (subst digits_rev.simps) simp
  next
    case False
    then have "k \<noteq> 0" using Suc.prems by (cases k) auto
    moreover have "n div b < b ^ k" using Suc.prems by (simp add: div_less_iff_less_mult mult.commute)
    ultimately have "length (digits_rev b (n div b)) \<le> k" using Suc.IH Suc.prems by simp
    then show ?thesis using False Suc.prems by (subst digits_rev.simps) simp
  qed
qed simp

lemma number_digits_length:
  assumes "base = 8 \<or> base = 10 \<or> base = 16"
  shows "length (number_digits base (f AND SMALL) num) \<le> 22"
proof -
  have "unat num < 8 ^ 22" using unat_u64_less [of num] by simp
  also have "\<dots> \<le> unat base ^ 22" using assms by (intro power_mono) auto
  finally show ?thesis
    unfolding number_digits_eq [OF assms] using assms by (subst length_map, intro digits_rev_length) auto
qed

lemma unat_minus_sint:
  fixes num :: u64
  assumes neg: "sint num < 0"
  shows "unat (- num) = nat (- sint num)"
proof -
  define n where "n = unat num"
  have n: "n < 2 ^ 64" "num = of_nat n" using unat_u64_less [of num] by (simp_all add: n_def)
  then have eq: "sint num = int n - 2 ^ 64" using neg sint_of_nat [OF n(1)] by (simp split: if_splits)
  have "n \<noteq> 0" using neg n by (intro notI) simp
  have "of_nat (2 ^ 64 - n) = - num" using n by (simp add: of_nat_diff)
  then have "unat (- num) = unat (of_nat (2 ^ 64 - n) :: u64)" by simp
  also have "\<dots> = 2 ^ 64 - n" using \<open>n \<noteq> 0\<close> by (simp add: unat_of_nat take_bit_nat_eq_self)
  finally show ?thesis using eq n(1) by simp
qed

lemma number_sign_eq:
  assumes "- 1 \<le> width" "width \<le> 32767" "\<And>n. 1 \<le> n \<Longrightarrow> bit f' n = bit f n"
  shows "\<exists>sign m. number_sign f' num width = (sign, m, width - int (length (sign_text f num))) \<and>
    emit_opt sign = emit_list (sign_text f num) \<and> unat m = magnitude f num"
  using assms unat_minus_sint [of num]
  by (auto simp: number_sign_def sign_text_def magnitude_def flag_bit s16_id emit_opt_def fun_eq_iff)

lemma emit_prefix_eq:
  "emit_prefix (f AND SPECIAL \<noteq> 0 \<and> base \<noteq> 10) base (f AND SMALL) = emit_list (prefix_text f base)"
proof -
  have "or_char (CHR ''X'') (f AND SMALL) = (if bit f 5 then CHR ''x'' else CHR ''X'')"
    by (simp add: small_value or_char_def char_code_def char_of_eq_iff)
  then show ?thesis by (auto simp: emit_prefix_def prefix_text_def flag_bit fun_eq_iff Let_def)
qed

lemma number_eq_text:
  assumes ok: "spec_ok spec"
  shows "number out num spec = emit_list (number_text num spec) out"
proof -
  define f where "f = ps_flags spec"
  define base where "base = ps_base spec"
  define f' where "f' = (if f AND LEFT \<noteq> 0 then f AND NOT ZEROPAD else f)"
  define sgn where "sgn = sign_text f num"
  define pfx where "pfx = prefix_text f base"
  have base: "base = 8 \<or> base = 10 \<or> base = 16" and w: "- 1 \<le> field_width spec" "field_width spec \<le> 32767"
    and pr: "- 1 \<le> precision spec" "precision spec \<le> 32000" using ok by (auto simp: spec_ok_def base_def)
  have f': "bit f' n \<longleftrightarrow> bit f n \<and> (n = 0 \<longrightarrow> \<not> bit f 4)" for n by (auto simp: f'_def flag_bit flag_clear)
  obtain sign m where sign: "number_sign f' num (field_width spec) = (sign, m, field_width spec - int (length sgn))"
    "emit_opt sign = emit_list sgn" and m: "unat m = magnitude f num"
    using number_sign_eq [OF w, of f' f num] f' by (auto simp: sgn_def)
  define ds where "ds = digits_text f base (magnitude f num)"
  have tmp: "number_digits base (f AND SMALL) m = rev ds"
    unfolding number_digits_eq [OF base] by (simp add: ds_def digits_text_def m rev_map)
  have i: "length ds \<le> 22" using number_digits_length [OF base, of f m] by (simp add: tmp)
  have sl: "length sgn \<le> 1" "length pfx \<le> 2" by (auto simp: sgn_def pfx_def sign_text_def prefix_text_def)
  define prec where "prec = max (precision spec) (int (length ds))"
  define gap where "gap = field_width spec - int (length sgn) - int (length pfx) - prec"
  have p: "(if int (length ds) > precision spec then s16 (int (length ds)) else precision spec) = prec" "0 \<le> prec" "prec \<le> 32000"
    using i pr by (auto simp: prec_def s16_id)
  have wd: "(if need \<and> base = 16 then s16 ((if need then s16 (x - 1) else x) - 1) else if need then s16 (x - 1) else x) = x - int (length pfx)"
    if "need = (f AND SPECIAL \<noteq> 0 \<and> base \<noteq> 10)" "- 2 \<le> x" "x \<le> 32767" for need x
    using that by (auto simp: pfx_def prefix_text_def flag_bit s16_id)
  have g: "s16 gap = gap" "- 32700 < gap" "gap \<le> 32767" using w sl p by (auto simp: gap_def intro!: s16_id)
  have len: "nat (prec - int (length ds)) = nat (precision spec) - length ds" by (auto simp: prec_def nat_diff_distrib' max_def)
  have pad: "pad_loop c gap out = (min (gap - 1) (- 1), emit_list (replicate (nat gap) c) out)" for c out
    using pad_loop_eq [of gap] g by simp
  have none: "- 32750 < x \<Longrightarrow> x \<le> 0 \<Longrightarrow> pad_loop c x out = (x - 1, out)" for c x out using pad_loop_eq [of x] by simp
  have shape: "number_text num spec =
    (let body = replicate (nat (prec - int (length ds))) (CHR ''0'') @ ds in
     if bit f 4 then sgn @ pfx @ body @ replicate (nat gap) (CHR '' '')
     else if bit f 0 then sgn @ pfx @ replicate (nat gap) (CHR ''0'') @ body
     else replicate (nat gap) (CHR '' '') @ sgn @ pfx @ body)"
  proof -
    have "int (length (sgn @ pfx @ replicate (nat (precision spec) - length ds) (CHR ''0'') @ ds)) = int (length sgn) + int (length pfx) + prec"
      using pr by (auto simp: prec_def)
    then show ?thesis
      unfolding number_text_def Let_def f_def [symmetric] base_def [symmetric] sgn_def [symmetric] pfx_def [symmetric] ds_def [symmetric] len
      by (simp add: gap_def algebra_simps)
  qed
  have prl: "prec_loop (length ds) prec out = emit_list (replicate (nat (prec - int (length ds))) (CHR ''0'')) out" for out
    using prec_loop_eq [of prec "length ds"] p by simp
  have wx: "- 2 \<le> field_width spec - int (length sgn)" "field_width spec - int (length sgn) \<le> 32767" using w sl by auto
  have num: "number out num spec =
    (let (width, out) = (if \<not> bit f 0 \<and> \<not> bit f 4 then pad_loop (CHR '' '') gap out else (gap, out));
         out = emit_list pfx (emit_list sgn out);
         (width, out) = (if \<not> bit f 4 then pad_loop (if bit f 0 then CHR ''0'' else CHR '' '') width out else (width, out));
         out = emit_list ds (prec_loop (length ds) prec out);
         (width, out) = pad_loop (CHR '' '') width out in out)"
  proof -
    have fl: "f' AND (ZEROPAD + LEFT) = 0 \<longleftrightarrow> \<not> bit f 0 \<and> \<not> bit f 4" "f' AND LEFT = 0 \<longleftrightarrow> \<not> bit f 4"
      "\<not> bit f 4 \<Longrightarrow> f' AND ZEROPAD = 0 \<longleftrightarrow> \<not> bit f 0" by (auto simp: flag_pad flag_bit f')
    show ?thesis
      unfolding number_def Let_def f_def [symmetric] base_def [symmetric] f'_def [symmetric] sign(1) prod.case tmp length_rev p(1)
        wd [OF refl wx] gap_def [symmetric] g(1) emit_prefix_eq sign(2) pfx_def [symmetric] rev_rev_ident fl(1,2)
      by (cases "bit f 4") (simp_all add: fl(3))
  qed
  show ?thesis
    unfolding num shape Let_def
    using g by (cases "bit f 4"; cases "bit f 0") (simp_all add: pad prl none emit_list_append)
qed

subsection \<open>Reading the text back\<close>

lemma base_char_digit:
  assumes "d < 16"
  shows "digit_val (base_char sm d) = Some d" "tolower_code (base_char sm d) \<noteq> 120" "base_char sm d \<noteq> CHR '' ''"
    "base_char sm d \<noteq> CHR ''+''" "base_char sm d \<noteq> CHR ''-''"
proof -
  have "list_all (\<lambda>d. digit_val (base_char sm d) = Some d \<and> tolower_code (base_char sm d) \<noteq> 120 \<and> base_char sm d \<noteq> CHR '' '' \<and>
      base_char sm d \<noteq> CHR ''+'' \<and> base_char sm d \<noteq> CHR ''-'') [0..<16]"
    by (cases sm) (simp_all add: upt_conv_Cons base_char_def string_eval char_of_eq_iff)
  then show "digit_val (base_char sm d) = Some d" "tolower_code (base_char sm d) \<noteq> 120" "base_char sm d \<noteq> CHR '' ''"
    "base_char sm d \<noteq> CHR ''+''" "base_char sm d \<noteq> CHR ''-''"
    using assms by (simp_all add: list_all_iff)
qed

lemma base_char_0: "base_char sm 0 = CHR ''0''"
  by (simp add: base_char_def char_of_eq_iff)

lemma digits_rev_less: "2 \<le> b \<Longrightarrow> d \<in> set (digits_rev b n) \<Longrightarrow> d < b"
  by (induction b n rule: digits_rev.induct) (subst (asm) digits_rev.simps, auto split: if_splits)

lemma digits_rev_not_Nil: "digits_rev b n \<noteq> []"
  by (subst digits_rev.simps) simp

lemma horner_append: "horner b a (xs @ ys) = horner b (horner b a xs) ys"
  by (simp add: horner_def)

lemma horner_digits:
  assumes "2 \<le> b" "b \<le> 16"
  shows "horner b 0 (map (base_char sm) (rev (digits_rev b n))) = n"
  using assms
proof (induction b n rule: digits_rev.induct)
  case (1 b n)
  show ?case
  proof (cases "n < b")
    case True
    then show ?thesis using 1 by (subst digits_rev.simps) (simp add: horner_def base_char_digit)
  next
    case False
    have "n mod b < 16" using 1(2,3) mod_less_divisor [of b n] by linarith
    then show ?thesis using 1 False by (subst digits_rev.simps) (simp add: horner_append, simp add: horner_def base_char_digit)
  qed
qed

lemma horner_zeros: "horner b 0 (replicate k (CHR ''0'')) = 0"
  using base_char_digit(1) [of 0 True] by (induction k) (simp_all add: horner_def base_char_0)

text \<open>Zeros and digits of a number.\<close>

definition zero_digits :: "nat \<Rightarrow> u8 \<Rightarrow> u8 \<Rightarrow> nat \<Rightarrow> string" where
  "zero_digits k f base n = replicate k (CHR ''0'') @ digits_text f base n"

lemma zero_digits_chars:
  assumes "base = 8 \<or> base = 10 \<or> base = 16" "c \<in> set (zero_digits k f base n)"
  obtains d where "c = base_char (bit f 5) d" "d < unat base" "d < 16"
proof -
  have b: "2 \<le> unat base" "unat base \<le> 16" using assms(1) by auto
  have "c = CHR ''0'' \<or> (\<exists>d\<in>set (digits_rev (unat base) n). c = base_char (bit f 5) d)"
    using assms(2) by (auto simp: zero_digits_def digits_text_def)
  then obtain d where "c = base_char (bit f 5) d" "d < unat base"
    using digits_rev_less [OF b(1)] base_char_0 [of "bit f 5"] b by (metis less_le_trans zero_less_numeral)
  then show thesis using that b by simp
qed

lemma zero_digits_value:
  assumes base: "base = 8 \<or> base = 10 \<or> base = 16"
  shows "leading_digits (unat base) (zero_digits k f base n) = zero_digits k f base n"
    "value_of (unat base) (zero_digits k f base n) = n"
proof -
  have "is_digit_in (unat base) c" if "c \<in> set (zero_digits k f base n)" for c
    using zero_digits_chars [OF base that] by (metis base_char_digit(1) is_digit_in_def option.case(2))
  then show lead: "leading_digits (unat base) (zero_digits k f base n) = zero_digits k f base n"
    by (simp add: leading_digits_def takeWhile_eq_all_conv)
  have "horner (unat base) 0 (zero_digits k f base n) = n"
    unfolding zero_digits_def horner_append horner_zeros digits_text_def using base by (intro horner_digits) auto
  then show "value_of (unat base) (zero_digits k f base n) = n" by (simp add: value_of_def lead)
qed

lemma fixup_text:
  assumes base: "base = 8 \<or> base = 10 \<or> base = 16"
  shows "\<exists>k'. parse_integer_fixup_radix (prefix_text f base @ zero_digits k f base n) (ucast base) = (zero_digits k' f base n, ucast base)"
proof -
  have nz: "(ucast base :: u32) \<noteq> 0" "(ucast base :: u32) = 16 \<longleftrightarrow> base = 16" using base by auto
  have at1: "tolower_code (at_pos (zero_digits k f base n) 1) \<noteq> 120"
  proof (cases "1 < length (zero_digits k f base n)")
    case True
    then have "at_pos (zero_digits k f base n) 1 \<in> set (zero_digits k f base n)" by (simp add: at_pos_def)
    then show ?thesis using zero_digits_chars [OF base] by (metis base_char_digit(2))
  qed (simp add: at_pos_def NUL_def tolower_code_def char_code_def)
  consider (hex) "base = 16" "prefix_text f base = [CHR ''0'', if bit f 5 then CHR ''x'' else CHR ''X'']"
    | (oct) "base \<noteq> 16" "prefix_text f base = ''0''" | (none) "prefix_text f base = []"
    unfolding prefix_text_def by (cases "bit f 6 \<and> base \<noteq> 10"; cases "base = 16") auto
  then show ?thesis
  proof cases
    case hex
    then show ?thesis using nz by (auto simp: parse_integer_fixup_radix_def at_pos_def tolower_code_def char_code_def)
  next
    case oct
    then have "prefix_text f base @ zero_digits k f base n = zero_digits (Suc k) f base n" by (simp add: zero_digits_def)
    then show ?thesis using oct nz by (auto simp: parse_integer_fixup_radix_def)
  next
    case none
    then show ?thesis using nz at1 by (auto simp: parse_integer_fixup_radix_def)
  qed
qed

lemma read_number_text:
  assumes base: "base = 8 \<or> base = 10 \<or> base = 16" and n: "n < 2 ^ 64"
  shows "read_number (prefix_text f base @ zero_digits k f base n) (ucast base) = Inr n"
proof -
  obtain k' where fx: "parse_integer_fixup_radix (prefix_text f base @ zero_digits k f base n) (ucast base) = (zero_digits k' f base n, ucast base)"
    using fixup_text [OF base] by blast
  have "zero_digits k' f base n \<noteq> []" by (simp add: zero_digits_def digits_text_def digits_rev_not_Nil)
  moreover have "unat (ucast base :: u32) = unat base" by (simp add: unat_ucast_up)
  ultimately show ?thesis
    using n zero_digits_value [OF base, of k' f n] by (simp add: read_number_def fx ends_here_def at_pos_def)
qed

lemma no_blank_text:
  assumes "CHR '' '' \<notin> set (number_text num spec)"
  shows "sign_text (ps_flags spec) num \<noteq> '' ''"
    "\<exists>k. number_text num spec = sign_text (ps_flags spec) num @ prefix_text (ps_flags spec) (ps_base spec) @
       zero_digits k (ps_flags spec) (ps_base spec) (magnitude (ps_flags spec) num)"
proof -
  define f where "f = ps_flags spec"
  define ds where "ds = digits_text f (ps_base spec) (magnitude f num)"
  define front where "front = sign_text f num @ prefix_text f (ps_base spec)"
  define z where "z = nat (precision spec) - length ds"
  define gap where "gap = nat (field_width spec - int (length (sign_text f num @ prefix_text f (ps_base spec) @ replicate z (CHR ''0'') @ ds)))"
  have t: "number_text num spec =
     (if bit f 4 then front @ replicate z (CHR ''0'') @ ds @ replicate gap (CHR '' '')
      else if bit f 0 then front @ replicate (gap + z) (CHR ''0'') @ ds
      else replicate gap (CHR '' '') @ front @ replicate z (CHR ''0'') @ ds)"
    unfolding number_text_def Let_def f_def [symmetric] ds_def [symmetric] z_def [symmetric] gap_def [symmetric]
    by (simp add: front_def replicate_add)
  show "sign_text (ps_flags spec) num \<noteq> '' ''"
    using assms unfolding t by (auto simp: front_def f_def split: if_splits)
  have "gap = 0 \<or> \<not> bit f 4 \<and> bit f 0" using assms unfolding t by (cases gap) (auto split: if_splits)
  then show "\<exists>k. number_text num spec = sign_text (ps_flags spec) num @ prefix_text (ps_flags spec) (ps_base spec) @
      zero_digits k (ps_flags spec) (ps_base spec) (magnitude (ps_flags spec) num)"
    unfolding t by (auto simp: front_def zero_digits_def f_def ds_def)
qed

lemma number_text_length:
  assumes "spec_ok spec"
  shows "length (number_text num spec) \<le> 40000"
proof -
  define f where "f = ps_flags spec"
  have base: "ps_base spec = 8 \<or> ps_base spec = 10 \<or> ps_base spec = 16" using assms by (simp add: spec_ok_def)
  have "magnitude f num < 2 ^ 64" 
    using unat_u64_less [of num] unat_u64_less [of "- num"] unat_minus_sint [of num] by (auto simp: magnitude_def)
  then have "magnitude f num < 8 ^ 22" by simp
  also have "\<dots> \<le> unat (ps_base spec) ^ 22" using base by (intro power_mono) auto
  finally have "length (digits_text f (ps_base spec) (magnitude f num)) \<le> 22"
    using base by (simp add: digits_text_def) (auto intro!: digits_rev_length)
  moreover have "length (sign_text f num) \<le> 1" "length (prefix_text f (ps_base spec)) \<le> 2"
    by (auto simp: sign_text_def prefix_text_def)
  moreover define l where "l = length (sign_text f num) + length (prefix_text f (ps_base spec)) +
      (nat (precision spec) - length (digits_text f (ps_base spec) (magnitude f num))) + length (digits_text f (ps_base spec) (magnitude f num))"
  ultimately have "l \<le> 32100" using assms by (auto simp: spec_ok_def)
  moreover have "length (number_text num spec) = l + nat (field_width spec - int l)"
    unfolding number_text_def Let_def f_def [symmetric] by (auto simp: l_def algebra_simps)
  ultimately show ?thesis using assms by (auto simp: spec_ok_def)
qed

text \<open>
  C27. \<open>number\<close> prints what the format asks for: the text made of padding, sign, prefix, zeros and the digits of the
  number in base 8, 10 or 16, where the decimal digits come from multiplications and shifts. It counts every character
  of the text, stores those before the end of the buffer and changes nothing else; the digits fit into the array of
  66 characters.
\<close>

theorem number_formats:
  assumes "spec_ok spec"
  shows "let out' = number out num spec; t = number_text num spec in
    o_buf out' = o_buf out + length t \<and> length (o_mem out') = length (o_mem out) \<and>
    (\<forall>k. k < length (o_mem out) \<longrightarrow> o_mem out' ! k =
      (if o_buf out \<le> k \<and> k < o_end out \<and> k < o_buf out + length t then t ! (k - o_buf out) else o_mem out ! k)) \<and>
    length (number_digits (ps_base spec) (ps_flags spec AND SMALL) num) \<le> 22"
  using assms number_digits_length [of "ps_base spec" "ps_flags spec" num]
  by (simp add: Let_def number_eq_text emit_list_buf emit_list_mem spec_ok_def)

lemma text_of_minus_42:
  "number_text (- 42) \<lparr>ps_flags = SIGN OR ZEROPAD, ps_base = 10, field_width = 6, precision = - 1\<rparr> = ''-00042''"
  by (simp add: number_text_def Let_def SIGN_def ZEROPAD_def sign_text_def prefix_text_def digits_text_def magnitude_def
      digits_rev_10 base_char_def char_of_eq_iff) (simp add: numeral_eq_Suc)

theorem number_formats_witness:
  "o_mem (number \<lparr>o_mem = ''........'', o_buf = 1, o_end = 6\<rparr> (- 42)
     \<lparr>ps_flags = SIGN OR ZEROPAD, ps_base = 10, field_width = 6, precision = - 1\<rparr>) ! 1 = CHR ''-'' \<and>
   number_text (- 42) \<lparr>ps_flags = SIGN OR ZEROPAD, ps_base = 10, field_width = 6, precision = - 1\<rparr> = ''-00042''"
proof -
  let ?spec = "\<lparr>ps_flags = SIGN OR ZEROPAD, ps_base = 10, field_width = 6, precision = - 1\<rparr>"
  have "spec_ok ?spec" by (simp add: spec_ok_def)
  then show ?thesis
    using number_formats [of ?spec "\<lparr>o_mem = ''........'', o_buf = 1, o_end = 6\<rparr>" "- 42"] text_of_minus_42 by (simp add: Let_def)
qed



end
