(* ===== verification/Dev_Cgroup.thy ===== *)
theory Dev_Cgroup
  imports Posix_Acl Number_Text
begin

text \<open>
  The device whitelists of control groups (\<open>security/device_cgroup.c\<close>, \<open>include/linux/device_cgroup.h\<close>). Every group
  has a list of rules; a new group starts with a copy of its parent's list, and writing to the files \<open>allow\<close> and \<open>deny\<close>
  adds and removes rules. The rules decide whether the tasks of a group may read, write or make a device node.
  Groups are the positions of a list; the allocations of an operation are an argument.
\<close>

subsection \<open>Data\<close>

definition ACC_MKNOD :: u16 where "ACC_MKNOD = 1"
definition ACC_READ :: u16 where "ACC_READ = 2"
definition ACC_WRITE :: u16 where "ACC_WRITE = 4"
definition ACC_MASK :: u16 where "ACC_MASK = ACC_MKNOD OR ACC_READ OR ACC_WRITE"

definition DEV_BLOCK :: u16 where "DEV_BLOCK = 1"
definition DEV_CHAR :: u16 where "DEV_CHAR = 2"
definition DEV_ALL :: u16 where "DEV_ALL = 4"

text \<open>The number \<open>~0\<close> stands for all major or minor numbers.\<close>

definition any_number :: u32 where "any_number = NOT 0"

record dev_whitelist_item =
  wh_major :: u32
  wh_minor :: u32
  wh_type :: u16
  wh_access :: u16

record dev_cgroup =
  dc_parent :: "nat option"
  whitelist :: "dev_whitelist_item list"

type_synonym dev_groups = "dev_cgroup option list"

text \<open>A group that was destroyed is \<open>None\<close>; reading it is a use after free.\<close>

definition group_at :: "dev_groups \<Rightarrow> nat \<Rightarrow> dev_cgroup option" where
  "group_at gs c = (if c < length gs then gs ! c else None)"

subsection \<open>Lists of rules\<close>

text \<open>
  The copy of a list takes one allocation for each rule; a failed one frees what was copied.
\<close>

fun dev_whitelist_copy :: "(nat \<Rightarrow> bool) \<Rightarrow> dev_whitelist_item list \<Rightarrow> dev_whitelist_item list \<Rightarrow> errno + dev_whitelist_item list" where
  "dev_whitelist_copy alloc dest [] = Inr dest"
| "dev_whitelist_copy alloc dest (wh # orig) =
     (if alloc (length dest) then dev_whitelist_copy alloc (dest @ [wh]) orig else Inl ENOMEM)"

definition same_device :: "dev_whitelist_item \<Rightarrow> dev_whitelist_item \<Rightarrow> bool" where
  "same_device walk wh \<longleftrightarrow> \<not> (wh_type walk \<noteq> wh_type wh) \<and> \<not> (wh_major walk \<noteq> wh_major wh) \<and> \<not> (wh_minor walk \<noteq> wh_minor wh)"

fun add_loop :: "dev_whitelist_item \<Rightarrow> dev_whitelist_item list \<Rightarrow> dev_whitelist_item option \<Rightarrow> dev_whitelist_item list \<times> dev_whitelist_item option" where
  "add_loop wh [] whcopy = ([], whcopy)"
| "add_loop wh (walk # ws) whcopy =
     (if same_device walk wh then
        case add_loop wh ws None of (ws, c) \<Rightarrow> (walk\<lparr>wh_access := wh_access walk OR wh_access wh\<rparr> # ws, c)
      else case add_loop wh ws whcopy of (ws, c) \<Rightarrow> (walk # ws, c))"

definition dev_whitelist_add :: "bool \<Rightarrow> dev_whitelist_item list \<Rightarrow> dev_whitelist_item \<Rightarrow> errno option \<times> dev_whitelist_item list" where
  "dev_whitelist_add alloc wl wh =
     (if \<not> alloc then (Some ENOMEM, wl)
      else case add_loop wh wl (Some wh) of
        (wl, None) \<Rightarrow> (None, wl)
      | (wl, Some whcopy) \<Rightarrow> (None, wl @ [whcopy]))"

fun dev_whitelist_rm :: "dev_whitelist_item list \<Rightarrow> dev_whitelist_item \<Rightarrow> dev_whitelist_item list" where
  "dev_whitelist_rm [] wh = []"
| "dev_whitelist_rm (walk # ws) wh =
     (if wh_type walk \<noteq> DEV_ALL \<and>
         (wh_type walk \<noteq> wh_type wh \<or>
          wh_major walk \<noteq> any_number \<and> wh_major walk \<noteq> wh_major wh \<or>
          wh_minor walk \<noteq> any_number \<and> wh_minor walk \<noteq> wh_minor wh)
      then walk # dev_whitelist_rm ws wh
      else
        let access = wh_access walk AND NOT (wh_access wh) in
        if access = 0 then dev_whitelist_rm ws wh else walk\<lparr>wh_access := access\<rparr> # dev_whitelist_rm ws wh)"

subsection \<open>Groups\<close>

definition root_rule :: dev_whitelist_item where
  "root_rule = \<lparr>wh_major = any_number, wh_minor = any_number, wh_type = DEV_ALL, wh_access = ACC_MASK\<rparr>"

text \<open>\<open>alloc 0\<close> is the allocation of the group itself; the new group gets the next position.\<close>

definition devcgroup_create :: "(nat \<Rightarrow> bool) \<Rightarrow> nat option \<Rightarrow> dev_groups \<Rightarrow> (errno + dev_groups) option" where
  "devcgroup_create alloc parent gs =
     (if \<not> alloc 0 then Some (Inl ENOMEM)
      else case parent of
        None \<Rightarrow> Some (if alloc 1 then Inr (gs @ [Some \<lparr>dc_parent = None, whitelist = [root_rule]\<rparr>]) else Inl ENOMEM)
      | Some p \<Rightarrow> do {
          parent_dev_cgroup \<leftarrow> group_at gs p;
          Some (case dev_whitelist_copy (\<lambda>k. alloc (Suc k)) [] (whitelist parent_dev_cgroup) of
                  Inl e \<Rightarrow> Inl e
                | Inr wl \<Rightarrow> Inr (gs @ [Some \<lparr>dc_parent = Some p, whitelist = wl\<rparr>]))
        })"

definition devcgroup_destroy :: "nat \<Rightarrow> dev_groups \<Rightarrow> dev_groups option" where
  "devcgroup_destroy c gs = do {
     _ \<leftarrow> group_at gs c;
     Some (gs[c := None])
   }"

definition devcgroup_can_attach :: "cred \<Rightarrow> bool \<Rightarrow> errno option" where
  "devcgroup_can_attach cr task_is_current =
     (if \<not> task_is_current \<and> \<not> capable cr CAP_SYS_ADMIN then Some EPERM else None)"

fun may_access_whitelist :: "dev_whitelist_item list \<Rightarrow> dev_whitelist_item \<Rightarrow> bool" where
  "may_access_whitelist [] refwh = False"
| "may_access_whitelist (whitem # ws) refwh =
     (if wh_type whitem AND DEV_ALL \<noteq> 0 then True
      else if wh_type refwh AND DEV_BLOCK \<noteq> 0 \<and> \<not> wh_type whitem AND DEV_BLOCK \<noteq> 0 then may_access_whitelist ws refwh
      else if wh_type refwh AND DEV_CHAR \<noteq> 0 \<and> \<not> wh_type whitem AND DEV_CHAR \<noteq> 0 then may_access_whitelist ws refwh
      else if wh_major whitem \<noteq> any_number \<and> wh_major whitem \<noteq> wh_major refwh then may_access_whitelist ws refwh
      else if wh_minor whitem \<noteq> any_number \<and> wh_minor whitem \<noteq> wh_minor refwh then may_access_whitelist ws refwh
      else if wh_access refwh AND NOT (wh_access whitem) \<noteq> 0 then may_access_whitelist ws refwh
      else True)"

definition parent_has_perm :: "dev_groups \<Rightarrow> dev_cgroup \<Rightarrow> dev_whitelist_item \<Rightarrow> bool option" where
  "parent_has_perm gs childcg wh =
     (case dc_parent childcg of
        None \<Rightarrow> Some True
      | Some p \<Rightarrow> do {
          parent \<leftarrow> group_at gs p;
          Some (may_access_whitelist (whitelist parent) wh)
        })"

subsection \<open>Rules as text\<close>

definition isspace :: "char \<Rightarrow> bool" where
  "isspace c \<longleftrightarrow> 9 \<le> char_code c \<and> char_code c \<le> 13 \<or> char_code c = 32 \<or> char_code c = 160"

text \<open>A number or a star, and the rest of the text.\<close>

definition parse_majmin :: "string \<Rightarrow> errno + u32 \<times> string" where
  "parse_majmin b =
     (if at_pos b 0 = CHR ''*'' then Inr (any_number, drop 1 b)
      else if isdigit (at_pos b 0) then Inr (simple_strtoul b 10)
      else Inl EINVAL)"

fun parse_access :: "nat \<Rightarrow> string \<Rightarrow> u16 \<Rightarrow> errno + u16" where
  "parse_access 0 b access = Inr access"
| "parse_access (Suc n) b access =
     (if at_pos b 0 = CHR ''r'' then parse_access n (drop 1 b) (access OR ACC_READ)
      else if at_pos b 0 = CHR ''w'' then parse_access n (drop 1 b) (access OR ACC_WRITE)
      else if at_pos b 0 = CHR ''m'' then parse_access n (drop 1 b) (access OR ACC_MKNOD)
      else if at_pos b 0 = CHR 0x0A \<or> at_pos b 0 = NUL then Inr access
      else Inl EINVAL)"

definition parse_device :: "u16 \<Rightarrow> string \<Rightarrow> errno + dev_whitelist_item" where
  "parse_device type b =
     (if \<not> isspace (at_pos b 0) then Inl EINVAL
      else case parse_majmin (drop 1 b) of
        Inl e \<Rightarrow> Inl e
      | Inr (major, b) \<Rightarrow>
          if at_pos b 0 \<noteq> CHR '':'' then Inl EINVAL
          else case parse_majmin (drop 1 b) of
            Inl e \<Rightarrow> Inl e
          | Inr (minor, b) \<Rightarrow>
              if \<not> isspace (at_pos b 0) then Inl EINVAL
              else case parse_access 3 (drop 1 b) 0 of
                Inl e \<Rightarrow> Inl e
              | Inr access \<Rightarrow> Inr \<lparr>wh_major = major, wh_minor = minor, wh_type = type, wh_access = access\<rparr>)"

definition parse_rule :: "string \<Rightarrow> errno + dev_whitelist_item" where
  "parse_rule b =
     (if at_pos b 0 = CHR ''a'' then Inr root_rule
      else if at_pos b 0 = CHR ''b'' then parse_device DEV_BLOCK (drop 1 b)
      else if at_pos b 0 = CHR ''c'' then parse_device DEV_CHAR (drop 1 b)
      else Inl EINVAL)"

datatype devcg_file = DEVCG_ALLOW | DEVCG_DENY | DEVCG_LIST

definition devcgroup_update_access ::
  "cred \<Rightarrow> bool \<Rightarrow> dev_groups \<Rightarrow> nat \<Rightarrow> devcg_file \<Rightarrow> string \<Rightarrow> (errno option \<times> dev_groups) option" where
  "devcgroup_update_access cr alloc gs cg filetype buffer =
     (if \<not> capable cr CAP_SYS_ADMIN then Some (Some EPERM, gs)
      else case parse_rule buffer of
        Inl e \<Rightarrow> Some (Some e, gs)
      | Inr wh \<Rightarrow>
          (case filetype of
             DEVCG_ALLOW \<Rightarrow> do {
               g \<leftarrow> group_at gs cg;
               has_perm \<leftarrow> parent_has_perm gs g wh;
               Some (if \<not> has_perm then (Some EPERM, gs)
                     else case dev_whitelist_add alloc (whitelist g) wh of
                       (ret, wl) \<Rightarrow> (ret, gs[cg := Some (g\<lparr>whitelist := wl\<rparr>)]))
             }
           | DEVCG_DENY \<Rightarrow> do {
               g \<leftarrow> group_at gs cg;
               Some (None, gs[cg := Some (g\<lparr>whitelist := dev_whitelist_rm (whitelist g) wh\<rparr>)])
             }
           | DEVCG_LIST \<Rightarrow> Some (Some EINVAL, gs)))"

definition set_access :: "u16 \<Rightarrow> string" where
  "set_access access =
     (if access AND ACC_READ \<noteq> 0 then ''r'' else []) @ (if access AND ACC_WRITE \<noteq> 0 then ''w'' else []) @
     (if access AND ACC_MKNOD \<noteq> 0 then ''m'' else [])"

definition type_to_char :: "u16 \<Rightarrow> char" where
  "type_to_char type =
     (if type = DEV_ALL then CHR ''a'' else if type = DEV_CHAR then CHR ''c'' else if type = DEV_BLOCK then CHR ''b'' else CHR ''X'')"

text \<open>\<open>sprintf (str, "%u", m)\<close> into an array of 13 characters.\<close>

definition u_spec :: printf_spec where
  "u_spec = \<lparr>ps_flags = 0, ps_base = 10, field_width = - 1, precision = - 1\<rparr>"

definition set_majmin :: "u32 \<Rightarrow> string" where
  "set_majmin m =
     (if m = any_number then ''*''
      else let out = number \<lparr>o_mem = replicate 13 NUL, o_buf = 0, o_end = 13\<rparr> (ucast m) u_spec in take (o_buf out) (o_mem out))"

definition seq_line :: "dev_whitelist_item \<Rightarrow> string" where
  "seq_line wh = type_to_char (wh_type wh) # '' '' @ set_majmin (wh_major wh) @ '':'' @ set_majmin (wh_minor wh) @ '' '' @
     set_access (wh_access wh) @ [CHR 0x0A]"

definition devcgroup_seq_read :: "dev_cgroup \<Rightarrow> string" where
  "devcgroup_seq_read g = concat (map seq_line (whitelist g))"

subsection \<open>Decisions\<close>

fun permission_whitelist :: "dev_whitelist_item list \<Rightarrow> u16 \<Rightarrow> u32 \<Rightarrow> u32 \<Rightarrow> errno option" where
  "permission_whitelist [] mode rdev may = Some EPERM"
| "permission_whitelist (wh # ws) mode rdev may =
     (if wh_type wh AND DEV_ALL \<noteq> 0 then None
      else if wh_type wh AND DEV_BLOCK \<noteq> 0 \<and> \<not> S_ISBLK mode then permission_whitelist ws mode rdev may
      else if wh_type wh AND DEV_CHAR \<noteq> 0 \<and> \<not> S_ISCHR mode then permission_whitelist ws mode rdev may
      else if wh_major wh \<noteq> any_number \<and> wh_major wh \<noteq> MAJOR rdev then permission_whitelist ws mode rdev may
      else if wh_minor wh \<noteq> any_number \<and> wh_minor wh \<noteq> MINOR rdev then permission_whitelist ws mode rdev may
      else if may AND MAY_WRITE \<noteq> 0 \<and> wh_access wh AND ACC_WRITE = 0 then permission_whitelist ws mode rdev may
      else if may AND MAY_READ \<noteq> 0 \<and> wh_access wh AND ACC_READ = 0 then permission_whitelist ws mode rdev may
      else None)"

definition devcgroup_inode_permission :: "dev_cgroup \<Rightarrow> inode \<Rightarrow> u32 \<Rightarrow> errno option" where
  "devcgroup_inode_permission g inode may =
     (if i_rdev inode = 0 then None
      else if \<not> S_ISBLK (i_mode inode) \<and> \<not> S_ISCHR (i_mode inode) then None
      else permission_whitelist (whitelist g) (i_mode inode) (i_rdev inode) may)"

fun mknod_whitelist :: "dev_whitelist_item list \<Rightarrow> u16 \<Rightarrow> u32 \<Rightarrow> errno option" where
  "mknod_whitelist [] mode dev = Some EPERM"
| "mknod_whitelist (wh # ws) mode dev =
     (if wh_type wh AND DEV_ALL \<noteq> 0 then None
      else if wh_type wh AND DEV_BLOCK \<noteq> 0 \<and> \<not> S_ISBLK mode then mknod_whitelist ws mode dev
      else if wh_type wh AND DEV_CHAR \<noteq> 0 \<and> \<not> S_ISCHR mode then mknod_whitelist ws mode dev
      else if wh_major wh \<noteq> any_number \<and> wh_major wh \<noteq> MAJOR dev then mknod_whitelist ws mode dev
      else if wh_minor wh \<noteq> any_number \<and> wh_minor wh \<noteq> MINOR dev then mknod_whitelist ws mode dev
      else if wh_access wh AND ACC_MKNOD = 0 then mknod_whitelist ws mode dev
      else None)"

definition devcgroup_inode_mknod :: "dev_cgroup \<Rightarrow> u16 \<Rightarrow> u32 \<Rightarrow> errno option" where
  "devcgroup_inode_mknod g mode dev =
     (if \<not> S_ISBLK mode \<and> \<not> S_ISCHR mode then None else mknod_whitelist (whitelist g) mode dev)"

subsection \<open>What the rules allow\<close>

text \<open>
  The right \<open>r\<close>, one of \<open>ACC_READ\<close>, \<open>ACC_WRITE\<close> and \<open>ACC_MKNOD\<close>, to a block or character device.
\<close>

definition rule_ok :: "dev_whitelist_item \<Rightarrow> bool" where
  "rule_ok wh \<longleftrightarrow> wh_type wh = DEV_BLOCK \<or> wh_type wh = DEV_CHAR \<or> wh_type wh = DEV_ALL"

definition rule_allows :: "dev_whitelist_item \<Rightarrow> bool \<Rightarrow> u32 \<Rightarrow> u32 \<Rightarrow> u16 \<Rightarrow> bool" where
  "rule_allows wh blk major minor r \<longleftrightarrow> wh_type wh = DEV_ALL \<or>
     wh_type wh = (if blk then DEV_BLOCK else DEV_CHAR) \<and> (wh_major wh = any_number \<or> wh_major wh = major) \<and>
     (wh_minor wh = any_number \<or> wh_minor wh = minor) \<and> wh_access wh AND r \<noteq> 0"

definition allows :: "dev_whitelist_item list \<Rightarrow> bool \<Rightarrow> u32 \<Rightarrow> u32 \<Rightarrow> u16 \<Rightarrow> bool" where
  "allows wl blk major minor r \<longleftrightarrow> (\<exists>wh\<in>set wl. rule_allows wh blk major minor r)"

definition within :: "dev_whitelist_item list \<Rightarrow> dev_whitelist_item list \<Rightarrow> bool" where
  "within wl wl' \<longleftrightarrow> (\<forall>blk major minor r. allows wl blk major minor r \<longrightarrow> allows wl' blk major minor r)"

lemmas dev_consts = DEV_BLOCK_def DEV_CHAR_def DEV_ALL_def

lemma rule_ok_types:
  assumes "rule_ok wh"
  shows "wh_type wh AND DEV_ALL \<noteq> 0 \<longleftrightarrow> wh_type wh = DEV_ALL" "wh_type wh AND DEV_BLOCK \<noteq> 0 \<longleftrightarrow> wh_type wh = DEV_BLOCK"
    "wh_type wh AND DEV_CHAR \<noteq> 0 \<longleftrightarrow> wh_type wh = DEV_CHAR"
  using assms by (auto simp: rule_ok_def dev_consts)

lemma blk_not_chr: "S_ISBLK mode \<Longrightarrow> \<not> S_ISCHR mode"
  by (simp add: S_ISBLK_def S_ISCHR_def S_IFBLK_def S_IFCHR_def)

lemma permission_whitelist_iff:
  assumes "\<forall>wh\<in>set wl. rule_ok wh" "S_ISBLK mode \<or> S_ISCHR mode"
  shows "permission_whitelist wl mode rdev MAY_READ = None \<longleftrightarrow> allows wl (S_ISBLK mode) (MAJOR rdev) (MINOR rdev) ACC_READ"
    "permission_whitelist wl mode rdev MAY_WRITE = None \<longleftrightarrow> allows wl (S_ISBLK mode) (MAJOR rdev) (MINOR rdev) ACC_WRITE"
    "mknod_whitelist wl mode rdev = None \<longleftrightarrow> allows wl (S_ISBLK mode) (MAJOR rdev) (MINOR rdev) ACC_MKNOD"
proof -
  have m: "MAY_READ AND MAY_WRITE = 0" "MAY_READ \<noteq> 0" "MAY_WRITE AND MAY_READ = 0" "MAY_WRITE \<noteq> 0"
    by (simp_all add: MAY_READ_def MAY_WRITE_def)
  have ne: "DEV_BLOCK \<noteq> DEV_CHAR" "DEV_BLOCK \<noteq> DEV_ALL" "DEV_CHAR \<noteq> DEV_ALL" by (simp_all add: dev_consts)
  have ok: "wh_type wh = DEV_BLOCK \<or> wh_type wh = DEV_CHAR \<or> wh_type wh = DEV_ALL" if "rule_ok wh" for wh
    using that by (simp add: rule_ok_def)
  have Nil: "\<not> allows [] blk a b r" and Cons: "allows (wh # ws) blk a b r \<longleftrightarrow> rule_allows wh blk a b r \<or> allows ws blk a b r" for wh ws blk a b r
    by (simp_all add: allows_def)
  have step: "rule_allows wh (S_ISBLK mode) a b r \<longleftrightarrow> wh_type wh = DEV_ALL \<or> \<not> (wh_type wh = DEV_BLOCK \<and> \<not> S_ISBLK mode) \<and>
      \<not> (wh_type wh = DEV_CHAR \<and> \<not> S_ISCHR mode) \<and> \<not> (wh_major wh \<noteq> any_number \<and> wh_major wh \<noteq> a) \<and>
      \<not> (wh_minor wh \<noteq> any_number \<and> wh_minor wh \<noteq> b) \<and> wh_access wh AND r \<noteq> 0" if "rule_ok wh" for wh a b r
    using ok [OF that] assms(2) blk_not_chr ne by (auto simp: rule_allows_def)
  show "permission_whitelist wl mode rdev MAY_READ = None \<longleftrightarrow> allows wl (S_ISBLK mode) (MAJOR rdev) (MINOR rdev) ACC_READ"
    using assms(1) by (induction wl) (auto simp: Nil Cons step rule_ok_types m)
  show "permission_whitelist wl mode rdev MAY_WRITE = None \<longleftrightarrow> allows wl (S_ISBLK mode) (MAJOR rdev) (MINOR rdev) ACC_WRITE"
    using assms(1) by (induction wl) (auto simp: Nil Cons step rule_ok_types m)
  show "mknod_whitelist wl mode rdev = None \<longleftrightarrow> allows wl (S_ISBLK mode) (MAJOR rdev) (MINOR rdev) ACC_MKNOD"
    using assms(1) by (induction wl) (auto simp: Nil Cons step rule_ok_types)
qed

end
