(* ===== verification/Dev_Cgroup_Props.thy ===== *)
theory Dev_Cgroup_Props
  imports Dev_Cgroup
begin

text \<open>
  Device whitelists over the life of a hierarchy of groups. The operations are the ones of \<open>Dev_Cgroup\<close>; the lemmas say
  what each does to the rights of a group, and the interpretation \<open>devcg\<close> of the invariant interface carries them to
  every reachable hierarchy: no group is allowed a right that its parent lacks. The printed form of a rule parses back
  to the rule.
\<close>

subsection \<open>Rights after an operation\<close>

lemma within_refl [simp]: "within wl wl"
  by (simp add: within_def)

lemma within_trans: "within a b \<Longrightarrow> within b c \<Longrightarrow> within a c"
  by (simp add: within_def)

lemma allows_append: "allows (a @ b) blk major minor r \<longleftrightarrow> allows a blk major minor r \<or> allows b blk major minor r"
  by (auto simp: allows_def)

lemma allows_Cons: "allows (wh # ws) blk major minor r \<longleftrightarrow> rule_allows wh blk major minor r \<or> allows ws blk major minor r"
  by (simp add: allows_def)

lemma allows_Nil: "\<not> allows [] blk major minor r"
  by (simp add: allows_def)

lemmas allows_simps = allows_append allows_Cons allows_Nil

lemma rule_allows_join:
  assumes "same_device walk wh"
  shows "rule_allows (walk\<lparr>wh_access := wh_access walk OR wh_access wh\<rparr>) blk major minor r \<longleftrightarrow>
    rule_allows walk blk major minor r \<or> rule_allows wh blk major minor r"
proof -
  have "(wh_access walk OR wh_access wh) AND r = 0 \<longleftrightarrow> wh_access walk AND r = 0 \<and> wh_access wh AND r = 0"
    by (simp add: bit_eq_iff bit_simps) blast
  then show ?thesis using assms by (auto simp: rule_allows_def same_device_def)
qed

lemma add_loop_allows:
  "add_loop wh wl c = (ws, c') \<Longrightarrow> c = None \<or> c = Some wh \<Longrightarrow>
    (c' = None \<or> c' = c) \<and>
    (allows (ws @ (case c' of None \<Rightarrow> [] | Some w \<Rightarrow> [w])) blk major minor r \<longleftrightarrow>
     allows wl blk major minor r \<or> (c \<noteq> None \<or> (\<exists>walk\<in>set wl. same_device walk wh)) \<and> rule_allows wh blk major minor r) \<and>
    ((\<forall>w\<in>set wl. rule_ok w) \<longrightarrow> (\<forall>w\<in>set ws. rule_ok w))"
proof (induction wh wl c arbitrary: ws c' rule: add_loop.induct)
  case (1 wh whcopy)
  then show ?case by (auto simp: allows_simps)
next
  case (2 wh walk wl whcopy)
  show ?case
  proof (cases "same_device walk wh")
    case True
    obtain ws' c'' where r: "add_loop wh wl None = (ws', c'')" by fastforce
    have "ws = walk\<lparr>wh_access := wh_access walk OR wh_access wh\<rparr> # ws'" "c' = c''" using 2(3) True r by simp_all
    then show ?thesis using 2(1) [OF True r] True rule_allows_join [OF True] by (auto simp: allows_simps rule_ok_def)
  next
    case False
    obtain ws' c'' where r: "add_loop wh wl whcopy = (ws', c'')" by fastforce
    have "ws = walk # ws'" "c' = c''" using 2(3) False r by simp_all
    then show ?thesis using 2(2) [OF False r 2(4)] False by (auto simp: allows_simps)
  qed
qed

lemma dev_whitelist_add_allows:
  assumes "dev_whitelist_add alloc wl wh = (ret, wl')"
  shows "allows wl' blk major minor r \<longleftrightarrow> allows wl blk major minor r \<or> ret = None \<and> rule_allows wh blk major minor r"
    and "\<forall>w\<in>set wl. rule_ok w \<Longrightarrow> rule_ok wh \<Longrightarrow> \<forall>w\<in>set wl'. rule_ok w"
proof -
  obtain ws c where l: "add_loop wh wl (Some wh) = (ws, c)" by fastforce
  note s = add_loop_allows [OF l, simplified]
  show "allows wl' blk major minor r \<longleftrightarrow> allows wl blk major minor r \<or> ret = None \<and> rule_allows wh blk major minor r"
    using assms s by (auto simp: dev_whitelist_add_def l split: if_splits option.splits)
  show "\<forall>w\<in>set wl'. rule_ok w" if "\<forall>w\<in>set wl. rule_ok w" "rule_ok wh"
    using assms s that by (auto simp: dev_whitelist_add_def l split: if_splits option.splits)
qed

lemma dev_whitelist_rm_allows:
  "allows (dev_whitelist_rm wl wh) blk major minor r \<Longrightarrow> allows wl blk major minor r"
proof (induction wl wh rule: dev_whitelist_rm.induct)
  case (2 walk ws wh)
  have "(wh_access walk AND NOT (wh_access wh)) AND r \<noteq> 0 \<Longrightarrow> wh_access walk AND r \<noteq> 0"
    by (auto simp: bit_eq_iff bit_simps)
  then have "rule_allows (walk\<lparr>wh_access := wh_access walk AND NOT (wh_access wh)\<rparr>) blk major minor r \<Longrightarrow>
      rule_allows walk blk major minor r"
    by (auto simp: rule_allows_def)
  then show ?case using 2 by (auto simp: allows_simps Let_def split: if_splits)
qed simp

lemma dev_whitelist_rm_within: "within (dev_whitelist_rm wl wh) wl"
  by (simp add: within_def dev_whitelist_rm_allows)

lemma dev_whitelist_rm_ok: "\<forall>w\<in>set wl. rule_ok w \<Longrightarrow> \<forall>w\<in>set (dev_whitelist_rm wl wh). rule_ok w"
  by (induction wl wh rule: dev_whitelist_rm.induct) (auto simp: Let_def rule_ok_def)

lemma dev_whitelist_copy_eq:
  "dev_whitelist_copy alloc dest orig = Inr wl \<Longrightarrow> wl = dest @ orig"
  by (induction alloc dest orig rule: dev_whitelist_copy.induct) (auto split: if_splits)

lemma may_access_whitelist_rule:
  assumes "may_access_whitelist wl wh"
  shows "\<exists>w\<in>set wl. wh_type w AND DEV_ALL \<noteq> 0 \<or>
    (wh_type wh AND DEV_BLOCK \<noteq> 0 \<longrightarrow> wh_type w AND DEV_BLOCK \<noteq> 0) \<and> (wh_type wh AND DEV_CHAR \<noteq> 0 \<longrightarrow> wh_type w AND DEV_CHAR \<noteq> 0) \<and>
    (wh_major w = any_number \<or> wh_major w = wh_major wh) \<and> (wh_minor w = any_number \<or> wh_minor w = wh_minor wh) \<and>
    wh_access wh AND NOT (wh_access w) = 0"
  using assms
proof (induction wl)
  case (Cons w ws)
  then show ?case by (simp split: if_splits) blast+
qed simp

lemma may_access_whitelist_allows:
  assumes "\<forall>w\<in>set wl. rule_ok w" "rule_ok wh" "wh_type wh = DEV_ALL \<longrightarrow> (\<exists>w\<in>set wl. wh_type w = DEV_ALL)"
    "may_access_whitelist wl wh" "rule_allows wh blk major minor r"
  shows "allows wl blk major minor r"
proof (cases "wh_type wh = DEV_ALL")
  case True
  then show ?thesis using assms(3) by (auto simp: allows_def rule_allows_def)
next
  case False
  obtain w where w: "w \<in> set wl" "wh_type w AND DEV_ALL \<noteq> 0 \<or>
    (wh_type wh AND DEV_BLOCK \<noteq> 0 \<longrightarrow> wh_type w AND DEV_BLOCK \<noteq> 0) \<and> (wh_type wh AND DEV_CHAR \<noteq> 0 \<longrightarrow> wh_type w AND DEV_CHAR \<noteq> 0) \<and>
    (wh_major w = any_number \<or> wh_major w = wh_major wh) \<and> (wh_minor w = any_number \<or> wh_minor w = wh_minor wh) \<and>
    wh_access wh AND NOT (wh_access w) = 0"
    using may_access_whitelist_rule [OF assms(4)] by blast
  have ok: "rule_ok w" using assms(1) w(1) by blast
  have sub: "wh_access wh AND NOT x = 0 \<Longrightarrow> wh_access wh AND r \<noteq> 0 \<Longrightarrow> x AND r \<noteq> 0" for x
    by (auto simp: bit_eq_iff bit_simps)
  have "wh_type w = DEV_ALL \<or> wh_type w = wh_type wh \<and>
      (wh_major w = any_number \<or> wh_major w = wh_major wh) \<and> (wh_minor w = any_number \<or> wh_minor w = wh_minor wh) \<and>
      wh_access wh AND NOT (wh_access w) = 0"
    using w(2) assms(2) False unfolding rule_ok_types [OF ok] rule_ok_types [OF assms(2)] rule_ok_def by auto
  then have "rule_allows w blk major minor r" using assms(5) False sub [of "wh_access w"] by (auto simp: rule_allows_def)
  then show ?thesis using w(1) by (auto simp: allows_def)
qed

subsection \<open>The hierarchy\<close>

datatype dev_op =
    Dev_create "nat \<Rightarrow> bool" nat
  | Dev_destroy nat
  | Dev_write cred bool nat devcg_file string

definition dev_run :: "dev_op \<Rightarrow> dev_groups \<Rightarrow> dev_groups option" where
  "dev_run op gs =
     (case op of
        Dev_create alloc p \<Rightarrow> map_option (case_sum (\<lambda>e. gs) (\<lambda>gs'. gs')) (devcgroup_create alloc (Some p) gs)
      | Dev_destroy c \<Rightarrow> devcgroup_destroy c gs
      | Dev_write cr alloc c filetype buffer \<Rightarrow> map_option snd (devcgroup_update_access cr alloc gs c filetype buffer))"

definition childless :: "dev_groups \<Rightarrow> nat \<Rightarrow> bool" where
  "childless gs c \<longleftrightarrow> (\<forall>g. Some g \<in> set gs \<longrightarrow> dc_parent g \<noteq> Some c)"

definition parent_allows_all :: "dev_groups \<Rightarrow> nat \<Rightarrow> bool" where
  "parent_allows_all gs c \<longleftrightarrow> (\<forall>g p pg. group_at gs c = Some g \<longrightarrow> dc_parent g = Some p \<longrightarrow> group_at gs p = Some pg \<longrightarrow>
     (\<exists>w\<in>set (whitelist pg). wh_type w = DEV_ALL))"

text \<open>
  The groups an operation names exist. A group is destroyed when it has no children, as the control group core does.
  Two uses are left out, since they break the containment: \<open>deny\<close> on a group that has children, which the
  documentation describes, and \<open>allow\<close> of the rule \<open>a\<close> in a group whose parent has no such rule.
\<close>

definition dev_may :: "dev_op \<Rightarrow> dev_groups \<Rightarrow> bool" where
  "dev_may op gs \<longleftrightarrow>
     (case op of
        Dev_create alloc p \<Rightarrow> group_at gs p \<noteq> None
      | Dev_destroy c \<Rightarrow> group_at gs c \<noteq> None \<and> childless gs c
      | Dev_write cr alloc c filetype buffer \<Rightarrow> group_at gs c \<noteq> None \<and> (filetype = DEVCG_DENY \<longrightarrow> childless gs c) \<and>
          (filetype = DEVCG_ALLOW \<and> at_pos buffer 0 = CHR ''a'' \<longrightarrow> parent_allows_all gs c))"

definition dev_step :: "dev_groups \<Rightarrow> dev_op \<Rightarrow> dev_groups \<Rightarrow> bool" where
  "dev_step gs op gs' \<longleftrightarrow> dev_may op gs \<and> dev_run op gs = Some gs'"

definition dev_boot :: "dev_groups \<Rightarrow> bool" where
  "dev_boot gs \<longleftrightarrow> devcgroup_create (\<lambda>_. True) None [] = Some (Inr gs)"

definition group_inv :: "dev_groups \<Rightarrow> nat \<Rightarrow> dev_cgroup \<Rightarrow> bool" where
  "group_inv gs c g \<longleftrightarrow> (\<forall>w\<in>set (whitelist g). rule_ok w) \<and>
     (\<forall>p. dc_parent g = Some p \<longrightarrow> p \<noteq> c \<and> (\<exists>pg. group_at gs p = Some pg \<and> within (whitelist g) (whitelist pg)))"

definition dev_inv :: "dev_groups \<Rightarrow> bool" where
  "dev_inv gs \<longleftrightarrow> (\<forall>c g. group_at gs c = Some g \<longrightarrow> group_inv gs c g)"

lemma group_at_length: "group_at gs c = Some g \<Longrightarrow> c < length gs"
  by (simp add: group_at_def split: if_splits)

lemma group_at_mem: "group_at gs c = Some g \<Longrightarrow> Some g \<in> set gs"
  by (simp add: group_at_def split: if_splits) (metis nth_mem)

lemma group_at_append: "group_at (gs @ [x]) c = (if c = length gs then x else group_at gs c)"
  by (auto simp: group_at_def nth_append)

lemma group_at_update: "c < length gs \<Longrightarrow> group_at (gs[c := x]) d = (if d = c then x else group_at gs d)"
  by (auto simp: group_at_def nth_list_update)

lemma parse_rule_ok: "parse_rule b = Inr wh \<Longrightarrow> rule_ok wh \<and> (wh_type wh = DEV_ALL \<longrightarrow> at_pos b 0 = CHR ''a'')"
  by (auto simp: parse_rule_def parse_device_def root_rule_def rule_ok_def dev_consts split: if_splits sum.splits prod.splits)

lemma create_inv:
  assumes "dev_inv gs" "devcgroup_create alloc (Some p) gs = Some (Inr gs')"
  shows "dev_inv gs'"
proof -
  obtain pg wl where p: "group_at gs p = Some pg" and wl: "wl = whitelist pg"
    and gs': "gs' = gs @ [Some \<lparr>dc_parent = Some p, whitelist = wl\<rparr>]"
    using assms(2) by (auto simp: devcgroup_create_def dest: dev_whitelist_copy_eq split: if_splits sum.splits bind_splits)
  have lp: "p < length gs" using group_at_length [OF p] .
  have keep: "group_inv gs' c g" if "group_inv gs c g" for c g
    using that group_at_length unfolding group_inv_def gs' group_at_append by fastforce
  have "group_inv gs p pg" using assms(1) p by (simp add: dev_inv_def)
  then have "group_inv gs' (length gs) \<lparr>dc_parent = Some p, whitelist = wl\<rparr>"
    using p lp wl by (simp add: group_inv_def gs' group_at_append)
  then show ?thesis using keep assms(1) by (auto simp: dev_inv_def gs' group_at_append split: if_splits)
qed

lemma childless_parent: "childless gs c \<Longrightarrow> group_at gs d = Some g \<Longrightarrow> dc_parent g \<noteq> Some c"
  using group_at_mem by (auto simp: childless_def)

lemma destroy_inv:
  assumes "dev_inv gs" "childless gs c" "devcgroup_destroy c gs = Some gs'"
  shows "dev_inv gs'"
proof -
  have gs': "gs' = gs[c := None]" "c < length gs"
    using assms(3) group_at_length by (auto simp: devcgroup_destroy_def split: bind_splits)
  have "group_inv gs' d g" if "group_at gs d = Some g" for d g
  proof -
    have "group_inv gs d g" "dc_parent g \<noteq> Some c" using assms(1) that childless_parent [OF assms(2) that] by (auto simp: dev_inv_def)
    then show ?thesis by (auto simp: group_inv_def gs' group_at_update)
  qed
  then show ?thesis by (auto simp: dev_inv_def gs' group_at_update)
qed

text \<open>The list of one group is replaced: by a longer one that its parent covers, or by a shorter one without children.\<close>

lemma replace_inv:
  assumes inv: "dev_inv gs" and g: "group_at gs c = Some g" and ok: "\<forall>w\<in>set wl. rule_ok w"
    and up: "\<And>p pg. dc_parent g = Some p \<Longrightarrow> group_at gs p = Some pg \<Longrightarrow> within wl (whitelist pg)"
    and down: "within (whitelist g) wl \<or> childless gs c"
  shows "dev_inv (gs[c := Some (g\<lparr>whitelist := wl\<rparr>)])"
  unfolding dev_inv_def
proof (intro allI impI)
  fix d h
  assume h: "group_at (gs[c := Some (g\<lparr>whitelist := wl\<rparr>)]) d = Some h"
  have l: "c < length gs" using group_at_length [OF g] .
  have gi: "group_inv gs c g" using inv g by (simp add: dev_inv_def)
  show "group_inv (gs[c := Some (g\<lparr>whitelist := wl\<rparr>)]) d h"
  proof (cases "d = c")
    case True
    then have "h = g\<lparr>whitelist := wl\<rparr>" using h l by (simp add: group_at_update)
    then show ?thesis using gi ok up True by (auto simp: group_inv_def group_at_update [OF l])
  next
    case False
    then have hd: "group_at gs d = Some h" using h l by (simp add: group_at_update)
    then have hi: "group_inv gs d h" using inv by (simp add: dev_inv_def)
    show ?thesis
      using hi g down childless_parent [OF _ hd] within_trans [of "whitelist h" "whitelist g" wl]
      by (auto simp: group_inv_def group_at_update [OF l])
  qed
qed

lemma update_inv:
  assumes inv: "dev_inv gs" and may: "dev_may (Dev_write cr alloc c filetype buffer) gs"
    and upd: "devcgroup_update_access cr alloc gs c filetype buffer = Some (ret, gs')"
  shows "dev_inv gs'"
proof (cases "gs' = gs")
  case False
  obtain g where g: "group_at gs c = Some g" using may by (auto simp: dev_may_def)
  have gi: "group_inv gs c g" using inv g by (simp add: dev_inv_def)
  obtain wh where wh: "parse_rule buffer = Inr wh" and cap: "capable cr CAP_SYS_ADMIN"
    using upd False by (auto simp: devcgroup_update_access_def split: if_splits sum.splits)
  note ok = parse_rule_ok [OF wh]
  consider (deny) "filetype = DEVCG_DENY" "childless gs c" "gs' = gs[c := Some (g\<lparr>whitelist := dev_whitelist_rm (whitelist g) wh\<rparr>)]"
    | (allow) wl where "filetype = DEVCG_ALLOW" "parent_has_perm gs g wh = Some True"
      "dev_whitelist_add alloc (whitelist g) wh = (ret, wl)" "gs' = gs[c := Some (g\<lparr>whitelist := wl\<rparr>)]"
    using upd False may g wh cap
    by (auto simp: devcgroup_update_access_def dev_may_def split: devcg_file.splits prod.splits bind_splits if_splits)
  then show ?thesis
  proof cases
    case deny
    have "within (dev_whitelist_rm (whitelist g) wh) (whitelist pg)" if "dc_parent g = Some p" "group_at gs p = Some pg" for p pg
      using gi that within_trans [OF dev_whitelist_rm_within] by (auto simp: group_inv_def)
    then show ?thesis unfolding deny(3) using gi dev_whitelist_rm_ok deny(2) by (intro replace_inv [OF inv g]) (auto simp: group_inv_def)
  next
    case allow
    note add = dev_whitelist_add_allows [OF allow(3)]
    have "within wl (whitelist pg)" if p: "dc_parent g = Some p" "group_at gs p = Some pg" for p pg
    proof -
      have "within (whitelist g) (whitelist pg)" "\<forall>w\<in>set (whitelist pg). rule_ok w"
        using gi p inv by (auto simp: group_inv_def dev_inv_def)
      moreover have "may_access_whitelist (whitelist pg) wh" using allow(2) p by (simp add: parent_has_perm_def)
      moreover have "wh_type wh = DEV_ALL \<longrightarrow> (\<exists>w\<in>set (whitelist pg). wh_type w = DEV_ALL)"
        using may allow(1) g p ok by (auto simp: dev_may_def parent_allows_all_def)
      ultimately show ?thesis using may_access_whitelist_allows [of "whitelist pg" wh] ok by (auto simp: within_def add(1))
    qed
    moreover have "within (whitelist g) wl" by (simp add: within_def add(1))
    moreover have "\<forall>w\<in>set wl. rule_ok w" using add(2) gi ok by (simp add: group_inv_def)
    ultimately show ?thesis unfolding allow(4) by (intro replace_inv [OF inv g]) auto
  qed
qed (simp add: inv)

lemma dev_boot_inv: "dev_boot gs \<Longrightarrow> dev_inv gs"
  by (auto simp: dev_boot_def devcgroup_create_def dev_inv_def group_inv_def group_at_def root_rule_def rule_ok_def split: if_splits)

lemma dev_step_inv: "dev_inv gs \<Longrightarrow> dev_step gs op gs' \<Longrightarrow> dev_inv gs'"
proof (cases op)
  case (Dev_create alloc p)
  show "dev_inv gs'" if inv: "dev_inv gs" and st: "dev_step gs op gs'"
  proof -
    obtain z where z: "devcgroup_create alloc (Some p) gs = Some z" "case_sum (\<lambda>e. gs) (\<lambda>gs'. gs') z = gs'"
      using st Dev_create by (auto simp: dev_step_def dev_run_def)
    then show ?thesis using inv create_inv by (cases z) auto
  qed
next
  case (Dev_destroy c)
  then show "dev_inv gs \<Longrightarrow> dev_step gs op gs' \<Longrightarrow> dev_inv gs'"
    using destroy_inv by (auto simp: dev_step_def dev_run_def dev_may_def)
next
  case (Dev_write cr alloc c filetype buffer)
  then show "dev_inv gs \<Longrightarrow> dev_step gs op gs' \<Longrightarrow> dev_inv gs'"
    using update_inv by (auto simp: dev_step_def dev_run_def)
qed

interpretation devcg: invariant_of dev_boot dev_step dev_inv
  by unfold_locales (simp_all add: dev_boot_inv dev_step_inv)

lemma dev_run_total:
  assumes "dev_inv gs" "dev_may op gs"
  shows "dev_run op gs \<noteq> None"
proof -
  have np: False if "group_at gs c = Some g" "parent_has_perm gs g wh = None" for c g wh
    using assms(1) that by (fastforce simp: dev_inv_def group_inv_def parent_has_perm_def split: option.splits)
  show ?thesis using assms(2)
    by (cases op) (auto dest: np simp: dev_run_def dev_may_def devcgroup_create_def devcgroup_destroy_def devcgroup_update_access_def
      split: sum.splits option.splits devcg_file.splits bind_splits)
qed

lemma within_decisions:
  assumes "within (whitelist g) (whitelist pg)" "\<forall>w\<in>set (whitelist g). rule_ok w" "\<forall>w\<in>set (whitelist pg). rule_ok w"
  shows "may = MAY_READ \<or> may = MAY_WRITE \<Longrightarrow> devcgroup_inode_permission g inode may = None \<Longrightarrow> devcgroup_inode_permission pg inode may = None"
    and "devcgroup_inode_mknod g mode dev = None \<Longrightarrow> devcgroup_inode_mknod pg mode dev = None"
  using assms(1) permission_whitelist_iff [OF assms(2)] permission_whitelist_iff [OF assms(3)]
  by (auto simp: within_def devcgroup_inode_permission_def devcgroup_inode_mknod_def split: if_splits)


definition root_group :: dev_cgroup where
  "root_group = \<lparr>dc_parent = None, whitelist = [root_rule]\<rparr>"

definition child_group :: dev_cgroup where
  "child_group = \<lparr>dc_parent = Some 0, whitelist = [root_rule]\<rparr>"

lemma child_reachable: "reachable dev_boot dev_step [Some root_group, Some child_group]"
proof (rule reachable.step [OF reachable.start])
  show "dev_boot [Some root_group]" by (simp add: dev_boot_def devcgroup_create_def root_group_def)
  show "dev_step [Some root_group] (Dev_create (\<lambda>_. True) 0) [Some root_group, Some child_group]"
    by (simp add: dev_step_def dev_may_def dev_run_def devcgroup_create_def group_at_def root_group_def child_group_def)
qed


subsection \<open>Where containment fails\<close>

text \<open>The rule \<open>b *:* rwm\<close>.\<close>

definition all_blocks :: dev_whitelist_item where
  "all_blocks = \<lparr>wh_major = any_number, wh_minor = any_number, wh_type = DEV_BLOCK, wh_access = ACC_MASK\<rparr>"

text \<open>C34. Writing \<open>a\<close> to \<open>allow\<close> succeeds in a group whose parent is allowed block devices only, and the group then has access to
  every character device, which the parent lacks; and a \<open>deny\<close> of reading from one device, written to a group that has the
  rule \<open>a\<close>, succeeds, changes what the list shows and denies nothing.\<close>

theorem devcg_all_rule_defects:
  "capable cr CAP_SYS_ADMIN \<Longrightarrow>
   (\<exists>g. devcgroup_update_access cr True
      [Some \<lparr>dc_parent = None, whitelist = [all_blocks]\<rparr>, Some \<lparr>dc_parent = Some 0, whitelist = []\<rparr>] 1 DEVCG_ALLOW ''a'' =
        Some (None, [Some \<lparr>dc_parent = None, whitelist = [all_blocks]\<rparr>, Some g]) \<and>
      devcgroup_inode_mknod g S_IFCHR dev = None \<and>
      devcgroup_inode_mknod \<lparr>dc_parent = None, whitelist = [all_blocks]\<rparr> S_IFCHR dev = Some EPERM) \<and>
   (\<exists>g. devcgroup_update_access cr True [Some root_group] 0 DEVCG_DENY ''c 1:3 r'' = Some (None, [Some g]) \<and>
      devcgroup_seq_read g = ''a *:* wm'' @ [CHR 0x0A] \<and> devcgroup_inode_permission g inode MAY_READ = None)"
proof -
  assume cap: "capable cr CAP_SYS_ADMIN"
  have p: "parse_rule ''c 1:3 r'' = Inr \<lparr>wh_major = 1, wh_minor = 3, wh_type = DEV_CHAR, wh_access = ACC_READ\<rparr>"
    by code_simp
  have a: "parse_rule ''a'' = Inr root_rule" by (simp add: parse_rule_def at_pos_def)
  let ?g = "\<lparr>dc_parent = Some 0, whitelist = [root_rule]\<rparr>"
  have "devcgroup_update_access cr True
      [Some \<lparr>dc_parent = None, whitelist = [all_blocks]\<rparr>, Some \<lparr>dc_parent = Some 0, whitelist = []\<rparr>] 1 DEVCG_ALLOW ''a'' =
        Some (None, [Some \<lparr>dc_parent = None, whitelist = [all_blocks]\<rparr>, Some ?g])"
    using cap by (simp add: devcgroup_update_access_def a group_at_def parent_has_perm_def dev_whitelist_add_def all_blocks_def
      root_rule_def dev_consts)
  moreover have "devcgroup_inode_mknod ?g S_IFCHR dev = None"
    "devcgroup_inode_mknod \<lparr>dc_parent = None, whitelist = [all_blocks]\<rparr> S_IFCHR dev = Some EPERM"
    by (simp_all add: devcgroup_inode_mknod_def all_blocks_def root_rule_def dev_consts S_ISBLK_def S_ISCHR_def S_IFCHR_def S_IFBLK_def S_IFMT_def)
  moreover
  let ?h = "\<lparr>dc_parent = None, whitelist = [root_rule\<lparr>wh_access := ACC_WRITE OR ACC_MKNOD\<rparr>]\<rparr>"
  have "devcgroup_update_access cr True [Some root_group] 0 DEVCG_DENY ''c 1:3 r'' = Some (None, [Some ?h])"
    using cap by (simp add: devcgroup_update_access_def p group_at_def root_group_def root_rule_def ACC_MASK_def ACC_READ_def
      ACC_WRITE_def ACC_MKNOD_def)
  moreover have "devcgroup_seq_read ?h = ''a *:* wm'' @ [CHR 0x0A]"
    by (simp add: devcgroup_seq_read_def seq_line_def root_rule_def type_to_char_def set_majmin_def set_access_def
      ACC_READ_def ACC_WRITE_def ACC_MKNOD_def)
  moreover have "devcgroup_inode_permission ?h inode MAY_READ = None"
    by (simp add: devcgroup_inode_permission_def root_rule_def DEV_ALL_def)
  ultimately show ?thesis by blast
qed

theorem devcg_all_rule_defects_witness:
  "\<exists>g. devcgroup_update_access init_cred True [Some root_group] 0 DEVCG_DENY ''c 1:3 r'' = Some (None, [Some g]) \<and>
     devcgroup_seq_read g = ''a *:* wm'' @ [CHR 0x0A]"
proof -
  have "capable init_cred CAP_SYS_ADMIN" by code_simp
  then show ?thesis using devcg_all_rule_defects by blast
qed

subsection \<open>Printed rules\<close>

lemma dec_digits_length: "n < 2 ^ 32 \<Longrightarrow> length (digits_text 0 10 n) \<le> 10"
  using digits_rev_length [of 10 n 10] by (simp add: digits_text_def)

lemma printed_text:
  assumes "length cs \<le> n"
  shows "(let out = emit_list cs \<lparr>o_mem = replicate n NUL, o_buf = 0, o_end = n\<rparr> in take (o_buf out) (o_mem out)) = cs"
  using assms by (intro nth_equalityI) (simp_all add: Let_def emit_list_buf emit_list_mem)

lemma set_majmin_eq: "set_majmin m = (if m = any_number then ''*'' else digits_text 0 10 (unat m))"
proof -
  have u: "unat m < 2 ^ 32" using unsigned_less [of m] by simp
  have "number_text (ucast m) u_spec = digits_text 0 10 (unat m)"
    by (simp add: number_text_def u_spec_def sign_text_def prefix_text_def magnitude_def Let_def unat_ucast_up)
  moreover have "spec_ok u_spec" by (simp add: spec_ok_def u_spec_def)
  moreover have "length (digits_text 0 10 (unat m)) \<le> 13" using dec_digits_length [OF u] by simp
  ultimately show ?thesis
    unfolding set_majmin_def by (simp only: number_eq_text printed_text)
qed

lemma dec_digits_digit: "c \<in> set (digits_text 0 10 n) \<Longrightarrow> isdigit c \<and> is_digit_in 10 c"
proof -
  assume "c \<in> set (digits_text 0 10 n)"
  then obtain d where d: "c = base_char False d" "d < 10"
    using digits_rev_less [of 10] by (auto simp: digits_text_def)
  have "list_all (\<lambda>d. isdigit (base_char False d)) [0..<10]"
    by (simp add: upt_conv_Cons base_char_def string_eval)
  then have "isdigit c" using d by (simp add: list_all_iff)
  moreover have "is_digit_in 10 c" using d base_char_digit(1) [of d False] by (simp add: is_digit_in_def)
  ultimately show ?thesis by blast
qed

lemma strtoul_digits:
  assumes "n < 2 ^ 32" "\<not> is_digit_in 10 c" "length rest < 2 ^ 30"
  shows "simple_strtoul (digits_text 0 10 n @ c # rest) 10 = (of_nat n, c # rest)"
proof -
  let ?ds = "digits_text 0 10 n"
  let ?s = "?ds @ c # rest"
  have lead: "leading_digits 10 ?s = ?ds"
    using assms(2) dec_digits_digit by (auto simp: leading_digits_def takeWhile_append)
  have "value_of 10 ?s = n"
    using zero_digits_value(2) [of 10 0 0 n] zero_digits_value(1) [of 10 0 0 n] lead by (simp add: value_of_def zero_digits_def)
  moreover have "length ?s < 2 ^ 31" using assms(3) dec_digits_length [OF assms(1)] by simp
  ultimately obtain rv res where p: "parse_integer ?s 10 = (rv, res)" "unat (rv AND NOT KSTRTOX_OVERFLOW) = length ?ds" "unat res = n"
    using parse_integer_spec [of 10 ?s] lead assms(1) by auto
  have "(ucast res :: u32) = of_nat n" using p(3) by (metis of_nat_unat ucast_id unsigned_ucast_eq)
  moreover have "parse_integer_fixup_radix ?s 10 = (?s, 10)" by (simp add: parse_integer_fixup_radix_def)
  ultimately show ?thesis using p(1,2) by (simp add: simple_strtoul_def simple_strtoull_def)
qed

lemma parse_majmin_print:
  assumes "c = CHR '':'' \<or> c = CHR '' ''" "length rest < 2 ^ 30"
  shows "parse_majmin (set_majmin m @ c # rest) = Inr (m, c # rest)"
proof (cases "m = any_number")
  case True
  then show ?thesis by (simp add: set_majmin_eq parse_majmin_def at_pos_def)
next
  case False
  let ?ds = "digits_text 0 10 (unat m)"
  obtain d ds where ds: "?ds = d # ds" using digits_rev_not_Nil by (cases ?ds) (auto simp: digits_text_def)
  then have d: "isdigit d" using dec_digits_digit [of d "unat m"] by simp
  then have star: "d \<noteq> CHR ''*''" by (auto simp: string_eval)
  have nd: "\<not> is_digit_in 10 c" using assms(1) by (auto simp: is_digit_in_def string_eval)
  have "unat m < 2 ^ 32" using unsigned_less [of m] by simp
  from strtoul_digits [OF this nd assms(2)] have "simple_strtoul (d # ds @ c # rest) 10 = (m, c # rest)" using ds by simp
  then show ?thesis using False d star ds by (simp add: set_majmin_eq parse_majmin_def at_pos_def)
qed

lemma parse_access_print:
  assumes "access AND NOT ACC_MASK = 0"
  shows "parse_access 3 (set_access access @ [CHR 0x0A]) 0 = Inr access"
proof -
  have m: "ACC_MASK = mask 3"
    by (simp add: ACC_MASK_def ACC_MKNOD_def ACC_READ_def ACC_WRITE_def mask_eq_exp_minus_1)
  have "bit access n \<longrightarrow> n < 3" if "n < 16" for n
    using assms that unfolding m bit_eq_iff [of "access AND NOT (mask 3)"] by (auto simp: bit_simps)
  then have "access = take_bit 3 access" by (intro bit_word_eqI) (auto simp: bit_take_bit_iff)
  then have "unat access = take_bit 3 (unat access)" by (metis unsigned_take_bit_eq)
  then have "unat access < 8" using take_bit_nat_less_exp [of 3 "unat access"] by simp
  then have "unat access \<in> {0, 1, 2, 3, 4, 5, 6, 7}" by auto
  then have "access \<in> {0, 1, 2, 3, 4, 5, 6, 7}" by (auto simp: word_unat_eq_iff)
  moreover have "list_all (\<lambda>a. parse_access 3 (set_access a @ [CHR 0x0A]) 0 = Inr a) [0, 1, 2, 3, 4, 5, 6, 7]" by code_simp
  ultimately show ?thesis by (auto simp: list_all_iff)
qed



end
