(* ===== verification/Permission.thy ===== *)
theory Permission
  imports Acl_Mode Dev_Cgroup Cred_Protocol
begin

text \<open>
  Access to files (\<open>fs/namei.c\<close>, \<open>fs/inode.c\<close>, \<open>include/linux/posix_acl.h\<close>): the cache of access control lists in
  an inode, the check of the mode and the list, the capabilities that override it, and the checks before a
  file is opened, made or removed. Lists live in a store with reference counts; \<open>None\<close> as a result is an access to a
  freed list or a \<open>BUG\<close>. The operations of a file system and the hooks of a security module are arguments.
\<close>

subsection \<open>The store of access control lists\<close>

type_synonym acls = "posix_acl option list"

definition acl_at :: "acls \<Rightarrow> nat \<Rightarrow> posix_acl option" where
  "acl_at acls a = (if a < length acls then acls ! a else None)"

definition posix_acl_dup :: "acl_ptr \<Rightarrow> acls \<Rightarrow> acls option" where
  "posix_acl_dup p acls =
     (case p of
        ACL_NULL \<Rightarrow> Some acls
      | ACL_NOT_CACHED \<Rightarrow> None
      | Acl a \<Rightarrow> do {
          acl \<leftarrow> acl_at acls a;
          Some (acls[a := Some (acl\<lparr>a_refcount := a_refcount acl + 1\<rparr>)])
        })"

definition posix_acl_release :: "acl_ptr \<Rightarrow> acls \<Rightarrow> acls option" where
  "posix_acl_release p acls =
     (case p of
        ACL_NULL \<Rightarrow> Some acls
      | ACL_NOT_CACHED \<Rightarrow> None
      | Acl a \<Rightarrow> do {
          acl \<leftarrow> acl_at acls a;
          Some (acls[a := (if a_refcount acl - 1 = 0 then None else Some (acl\<lparr>a_refcount := a_refcount acl - 1\<rparr>))])
        })"

text \<open>A fresh list with one reference (\<open>posix_acl_alloc\<close>, \<open>posix_acl_init\<close> and the stores to its entries).\<close>

definition new_acl :: "posix_acl_entry list \<Rightarrow> acls \<Rightarrow> acl_ptr \<times> acls" where
  "new_acl entries acls = (Acl (length acls), acls @ [Some \<lparr>a_refcount = 1, a_entries = entries\<rparr>])"

definition posix_acl_from_mode :: "bool \<Rightarrow> u16 \<Rightarrow> acls \<Rightarrow> (errno + acl_ptr) \<times> acls" where
  "posix_acl_from_mode alloc mode acls =
     (if \<not> alloc then (Inl ENOMEM, acls)
      else case new_acl (from_mode_entries mode) acls of (p, acls) \<Rightarrow> (Inr p, acls))"

definition posix_acl_clone :: "bool \<Rightarrow> acl_ptr \<Rightarrow> acls \<Rightarrow> (acl_ptr \<times> acls) option" where
  "posix_acl_clone alloc p acls =
     (case p of
        ACL_NULL \<Rightarrow> Some (ACL_NULL, acls)
      | ACL_NOT_CACHED \<Rightarrow> None
      | Acl a \<Rightarrow> do {
          acl \<leftarrow> acl_at acls a;
          Some (if alloc then new_acl (a_entries acl) acls else (ACL_NULL, acls))
        })"

definition put_entries :: "nat \<Rightarrow> posix_acl_entry list \<Rightarrow> acls \<Rightarrow> acls option" where
  "put_entries a es acls = do {
     acl \<leftarrow> acl_at acls a;
     Some (acls[a := Some (acl\<lparr>a_entries := es\<rparr>)])
   }"

text \<open>
  The error or \<open>not_equiv\<close>, the new pointer \<open>*acl\<close>, the new mode and the store.
\<close>

definition posix_acl_create :: "bool \<Rightarrow> acl_ptr \<Rightarrow> u16 \<Rightarrow> acls \<Rightarrow> ((errno + bool) \<times> acl_ptr \<times> u16 \<times> acls) option" where
  "posix_acl_create alloc acl mode_p acls = do {
     (clone, acls) \<leftarrow> posix_acl_clone alloc acl acls;
     (err, clone, mode_p, acls) \<leftarrow>
       (case clone of
          Acl c \<Rightarrow> do {
            new \<leftarrow> acl_at acls c;
            case posix_acl_create_masq (a_entries new) mode_p of
              Inl e \<Rightarrow> do { acls \<leftarrow> posix_acl_release clone acls; Some (Inl e, ACL_NULL, mode_p, acls) }
            | Inr (es, ne, mode) \<Rightarrow> do { acls \<leftarrow> put_entries c es acls; Some (Inr ne, clone, mode, acls) }
          }
        | _ \<Rightarrow> Some (Inl ENOMEM, clone, mode_p, acls));
     acls \<leftarrow> posix_acl_release acl acls;
     Some (err, clone, mode_p, acls)
   }"

definition posix_acl_chmod :: "bool \<Rightarrow> acl_ptr \<Rightarrow> u16 \<Rightarrow> acls \<Rightarrow> (errno option \<times> acl_ptr \<times> acls) option" where
  "posix_acl_chmod alloc acl mode acls = do {
     (clone, acls) \<leftarrow> posix_acl_clone alloc acl acls;
     (err, clone, acls) \<leftarrow>
       (case clone of
          Acl c \<Rightarrow> do {
            new \<leftarrow> acl_at acls c;
            case posix_acl_chmod_masq (a_entries new) mode of
              Inl e \<Rightarrow> do { acls \<leftarrow> posix_acl_release clone acls; Some (Some e, ACL_NULL, acls) }
            | Inr es \<Rightarrow> do { acls \<leftarrow> put_entries c es acls; Some (None, clone, acls) }
          }
        | _ \<Rightarrow> Some (Some ENOMEM, clone, acls));
     acls \<leftarrow> posix_acl_release acl acls;
     Some (err, clone, acls)
   }"

subsection \<open>The cache in an inode\<close>

datatype acl_type = ACL_TYPE_ACCESS | ACL_TYPE_DEFAULT

definition acl_by_type :: "inode \<Rightarrow> acl_type \<Rightarrow> acl_ptr" where
  "acl_by_type inode type = (case type of ACL_TYPE_ACCESS \<Rightarrow> i_acl inode | ACL_TYPE_DEFAULT \<Rightarrow> i_default_acl inode)"

definition set_acl_by_type :: "inode \<Rightarrow> acl_type \<Rightarrow> acl_ptr \<Rightarrow> inode" where
  "set_acl_by_type inode type p =
     (case type of ACL_TYPE_ACCESS \<Rightarrow> inode\<lparr>i_acl := p\<rparr> | ACL_TYPE_DEFAULT \<Rightarrow> inode\<lparr>i_default_acl := p\<rparr>)"

definition get_cached_acl :: "inode \<Rightarrow> acl_type \<Rightarrow> acls \<Rightarrow> (acl_ptr \<times> acls) option" where
  "get_cached_acl inode type acls =
     (let acl = acl_by_type inode type in
      if acl \<noteq> ACL_NOT_CACHED then do { acls \<leftarrow> posix_acl_dup acl acls; Some (acl, acls) } else Some (acl, acls))"

definition get_cached_acl_rcu :: "inode \<Rightarrow> acl_type \<Rightarrow> acl_ptr" where
  "get_cached_acl_rcu inode type = acl_by_type inode type"

text \<open>A pointer that is not \<open>ACL_NOT_CACHED\<close> is released.\<close>

definition release_old :: "acl_ptr \<Rightarrow> acls \<Rightarrow> acls option" where
  "release_old old acls = (if old \<noteq> ACL_NOT_CACHED then posix_acl_release old acls else Some acls)"

definition set_cached_acl :: "inode \<Rightarrow> acl_type \<Rightarrow> acl_ptr \<Rightarrow> acls \<Rightarrow> (inode \<times> acls) option" where
  "set_cached_acl inode type acl acls = do {
     acls \<leftarrow> posix_acl_dup acl acls;
     acls \<leftarrow> release_old (acl_by_type inode type) acls;
     Some (set_acl_by_type inode type acl, acls)
   }"

definition forget_cached_acl :: "inode \<Rightarrow> acl_type \<Rightarrow> acls \<Rightarrow> (inode \<times> acls) option" where
  "forget_cached_acl inode type acls = do {
     acls \<leftarrow> release_old (acl_by_type inode type) acls;
     Some (set_acl_by_type inode type ACL_NOT_CACHED, acls)
   }"

definition forget_all_cached_acls :: "inode \<Rightarrow> acls \<Rightarrow> (inode \<times> acls) option" where
  "forget_all_cached_acls inode acls = do {
     acls \<leftarrow> release_old (i_acl inode) acls;
     acls \<leftarrow> release_old (i_default_acl inode) acls;
     Some (inode\<lparr>i_acl := ACL_NOT_CACHED, i_default_acl := ACL_NOT_CACHED\<rparr>, acls)
   }"

definition cache_no_acl :: "inode \<Rightarrow> inode" where
  "cache_no_acl inode = inode\<lparr>i_acl := ACL_NULL, i_default_acl := ACL_NULL\<rparr>"

subsection \<open>Permission checks\<close>

text \<open>
  The operations of the file system that the checks call, where it has them. They may change the cache.
\<close>

record inode_ops =
  op_get_acl :: "(inode \<Rightarrow> acl_type \<Rightarrow> acls \<Rightarrow> (errno + acl_ptr) \<times> inode \<times> acls) option"
  op_permission :: "(inode \<Rightarrow> u32 \<Rightarrow> acls \<Rightarrow> (errno option \<times> inode \<times> acls) option) option"

definition acl_decision ::
  "cred_state \<Rightarrow> nat \<Rightarrow> inode \<Rightarrow> acl_ptr \<Rightarrow> u32 \<Rightarrow> acls \<Rightarrow> (errno option \<times> inode \<times> acls) option" where
  "acl_decision s cur inode acl may acls =
     (case acl of
        ACL_NULL \<Rightarrow> Some (Some EAGAIN, inode, acls)
      | ACL_NOT_CACHED \<Rightarrow> None
      | Acl a \<Rightarrow> do {
          al \<leftarrow> acl_at acls a;
          error \<leftarrow> posix_acl_permission s cur inode (a_entries al) may;
          acls \<leftarrow> posix_acl_release acl acls;
          Some (error, inode, acls)
        })"

definition check_acl ::
  "inode_ops \<Rightarrow> cred_state \<Rightarrow> nat \<Rightarrow> inode \<Rightarrow> u32 \<Rightarrow> acls \<Rightarrow> (errno option \<times> inode \<times> acls) option" where
  "check_acl ops s cur inode may acls =
     (if may AND MAY_NOT_BLOCK \<noteq> 0 then
        (case get_cached_acl_rcu inode ACL_TYPE_ACCESS of
           ACL_NULL \<Rightarrow> Some (Some EAGAIN, inode, acls)
         | ACL_NOT_CACHED \<Rightarrow> Some (Some ECHILD, inode, acls)
         | Acl a \<Rightarrow> do {
             al \<leftarrow> acl_at acls a;
             error \<leftarrow> posix_acl_permission s cur inode (a_entries al) (may AND NOT MAY_NOT_BLOCK);
             Some (error, inode, acls)
           })
      else do {
        (acl, acls) \<leftarrow> get_cached_acl inode ACL_TYPE_ACCESS acls;
        if acl = ACL_NOT_CACHED then
          (case op_get_acl ops of
             Some get_acl \<Rightarrow>
               (case get_acl inode ACL_TYPE_ACCESS acls of
                  (Inl e, inode, acls) \<Rightarrow> Some (Some e, inode, acls)
                | (Inr acl, inode, acls) \<Rightarrow> acl_decision s cur inode acl may acls)
           | None \<Rightarrow> do {
               (inode, acls) \<leftarrow> set_cached_acl inode ACL_TYPE_ACCESS ACL_NULL acls;
               Some (Some EAGAIN, inode, acls)
             })
        else acl_decision s cur inode acl may acls
      })"

definition MS_RDONLY :: u32 where "MS_RDONLY = 1"
definition MS_POSIXACL :: u32 where "MS_POSIXACL = 0x10000"
definition S_APPEND :: u32 where "S_APPEND = 4"
definition S_IMMUTABLE :: u32 where "S_IMMUTABLE = 8"
definition S_DEAD :: u32 where "S_DEAD = 16"
definition S_SWAPFILE :: u32 where "S_SWAPFILE = 256"

definition IS_RDONLY :: "inode \<Rightarrow> bool" where "IS_RDONLY inode \<longleftrightarrow> s_flags (i_sb inode) AND MS_RDONLY \<noteq> 0"
definition IS_POSIXACL :: "inode \<Rightarrow> bool" where "IS_POSIXACL inode \<longleftrightarrow> s_flags (i_sb inode) AND MS_POSIXACL \<noteq> 0"
definition IS_APPEND :: "inode \<Rightarrow> bool" where "IS_APPEND inode \<longleftrightarrow> i_flags inode AND S_APPEND \<noteq> 0"
definition IS_IMMUTABLE :: "inode \<Rightarrow> bool" where "IS_IMMUTABLE inode \<longleftrightarrow> i_flags inode AND S_IMMUTABLE \<noteq> 0"
definition IS_DEADDIR :: "inode \<Rightarrow> bool" where "IS_DEADDIR inode \<longleftrightarrow> i_flags inode AND S_DEAD \<noteq> 0"
definition IS_SWAPFILE :: "inode \<Rightarrow> bool" where "IS_SWAPFILE inode \<longleftrightarrow> i_flags inode AND S_SWAPFILE \<noteq> 0"

text \<open>The comparison of the wanted access with the three lowest bits of \<open>mode\<close>.\<close>

definition mode_grants :: "u32 \<Rightarrow> u32 \<Rightarrow> bool" where
  "mode_grants mode may \<longleftrightarrow> may AND NOT mode AND (MAY_READ OR MAY_WRITE OR MAY_EXEC) = 0"

definition mode_check :: "u32 \<Rightarrow> u32 \<Rightarrow> errno option" where
  "mode_check mode may = (if mode_grants mode may then None else Some EACCES)"

text \<open>Every inode belongs to the initial user namespace.\<close>

definition acl_permission_check ::
  "inode_ops \<Rightarrow> cred_state \<Rightarrow> nat \<Rightarrow> inode \<Rightarrow> u32 \<Rightarrow> acls \<Rightarrow> (errno option \<times> inode \<times> acls) option" where
  "acl_permission_check ops s cur inode may acls = (let mode = ucast (i_mode inode) in do {
     cr \<leftarrow> current_cred s cur;
     if user_ns (cr_user cr) \<noteq> init_user_ns then Some (mode_check mode may, inode, acls)
     else if fsuid cr = i_uid inode then Some (mode_check (drop_bit 6 mode) may, inode, acls)
     else do {
       (error, inode, acls) \<leftarrow>
         (if IS_POSIXACL inode \<and> mode AND ucast S_IRWXG \<noteq> 0 then check_acl ops s cur inode may acls
          else Some (Some EAGAIN, inode, acls));
       if error \<noteq> Some EAGAIN then Some (error, inode, acls)
       else do {
         isin \<leftarrow> in_group_p s cur (i_gid inode);
         Some (mode_check (if isin then drop_bit 3 mode else mode) may, inode, acls)
       }
     }
   })"

definition S_IXUGO :: u16 where "S_IXUGO = 0x49"

text \<open>The capabilities that override a refusal.\<close>

definition dac_override :: "cred \<Rightarrow> inode \<Rightarrow> u32 \<Rightarrow> bool" where
  "dac_override cr inode may =
     (if S_ISDIR (i_mode inode) then
        ns_capable cr init_user_ns CAP_DAC_OVERRIDE \<or>
        may AND MAY_WRITE = 0 \<and> ns_capable cr init_user_ns CAP_DAC_READ_SEARCH
      else
        (may AND MAY_EXEC = 0 \<or> i_mode inode AND S_IXUGO \<noteq> 0) \<and> ns_capable cr init_user_ns CAP_DAC_OVERRIDE \<or>
        may AND (MAY_READ OR MAY_WRITE OR MAY_EXEC) = MAY_READ \<and> ns_capable cr init_user_ns CAP_DAC_READ_SEARCH)"

definition generic_permission ::
  "inode_ops \<Rightarrow> cred_state \<Rightarrow> nat \<Rightarrow> inode \<Rightarrow> u32 \<Rightarrow> acls \<Rightarrow> (errno option \<times> inode \<times> acls) option" where
  "generic_permission ops s cur inode may acls = do {
     (ret, inode, acls) \<leftarrow> acl_permission_check ops s cur inode may acls;
     if ret \<noteq> Some EACCES then Some (ret, inode, acls)
     else do {
       cr \<leftarrow> current_cred s cur;
       Some (if dac_override cr inode may then None else Some EACCES, inode, acls)
     }
   }"

definition IOP_FASTPERM :: u16 where "IOP_FASTPERM = 1"

definition do_inode_permission ::
  "inode_ops \<Rightarrow> cred_state \<Rightarrow> nat \<Rightarrow> inode \<Rightarrow> u32 \<Rightarrow> acls \<Rightarrow> (errno option \<times> inode \<times> acls) option" where
  "do_inode_permission ops s cur inode may acls =
     (if i_opflags inode AND IOP_FASTPERM = 0 then
        (case op_permission ops of
           Some permission \<Rightarrow> permission inode may acls
         | None \<Rightarrow> generic_permission ops s cur (inode\<lparr>i_opflags := i_opflags inode OR IOP_FASTPERM\<rparr>) may acls)
      else generic_permission ops s cur inode may acls)"

text \<open>
  The device group of the current task and the hook of the security module are arguments.
\<close>

definition inode_permission ::
  "inode_ops \<Rightarrow> dev_cgroup \<Rightarrow> (inode \<Rightarrow> u32 \<Rightarrow> errno option) \<Rightarrow> cred_state \<Rightarrow> nat \<Rightarrow> inode \<Rightarrow> u32 \<Rightarrow> acls \<Rightarrow>
   (errno option \<times> inode \<times> acls) option" where
  "inode_permission ops g security s cur inode may acls =
     (if may AND MAY_WRITE \<noteq> 0 \<and> IS_RDONLY inode \<and> (S_ISREG (i_mode inode) \<or> S_ISDIR (i_mode inode) \<or> S_ISLNK (i_mode inode))
      then Some (Some EROFS, inode, acls)
      else if may AND MAY_WRITE \<noteq> 0 \<and> IS_IMMUTABLE inode then Some (Some EACCES, inode, acls)
      else do {
        (retval, inode, acls) \<leftarrow> do_inode_permission ops s cur inode may acls;
        if retval \<noteq> None then Some (retval, inode, acls)
        else if devcgroup_inode_permission g inode may \<noteq> None then Some (devcgroup_inode_permission g inode may, inode, acls)
        else Some (security inode may, inode, acls)
      })"

subsection \<open>Opening, making and removing\<close>

text \<open>
  The part of a directory entry that the checks read: whether its parent is the directory of the
  caller, and whether it is its own parent.
\<close>

record dentry =
  d_inode :: "inode option"
  d_in_dir :: bool
  d_is_root :: bool
  d_flags :: u32

text \<open>What the checks take from the environment.\<close>

record perm_env =
  pe_ops :: inode_ops
  pe_group :: dev_cgroup
  pe_security :: "inode \<Rightarrow> u32 \<Rightarrow> errno option"

definition permission_in :: "perm_env \<Rightarrow> cred_state \<Rightarrow> nat \<Rightarrow> inode \<Rightarrow> u32 \<Rightarrow> acls \<Rightarrow> (errno option \<times> inode \<times> acls) option" where
  "permission_in env = inode_permission (pe_ops env) (pe_group env) (pe_security env)"

definition inode_owner_or_capable :: "cred \<Rightarrow> inode \<Rightarrow> bool" where
  "inode_owner_or_capable cr inode =
     (if user_ns (cr_user cr) = init_user_ns \<and> fsuid cr = i_uid inode then True
      else if ns_capable cr init_user_ns CAP_FOWNER then True else False)"

definition S_ISUID :: u16 where "S_ISUID = 0x800"
definition S_ISGID :: u16 where "S_ISGID = 0x400"
definition S_ISVTX :: u16 where "S_ISVTX = 0x200"
definition S_IALLUGO :: u16 where "S_IALLUGO = S_ISUID OR S_ISGID OR S_ISVTX OR S_IRWXUGO"
definition DCACHE_NFSFS_RENAMED :: u32 where "DCACHE_NFSFS_RENAMED = 0x1000"

definition check_sticky :: "cred \<Rightarrow> inode \<Rightarrow> inode \<Rightarrow> bool" where
  "check_sticky cr dir inode =
     (if i_mode dir AND S_ISVTX = 0 then False
      else if user_ns (cr_user cr) = init_user_ns \<and> i_uid inode = fsuid cr then False
      else if user_ns (cr_user cr) = init_user_ns \<and> i_uid dir = fsuid cr then False
      else \<not> ns_capable cr init_user_ns CAP_FOWNER)"

definition may_delete ::
  "perm_env \<Rightarrow> cred_state \<Rightarrow> nat \<Rightarrow> inode \<Rightarrow> dentry \<Rightarrow> bool \<Rightarrow> acls \<Rightarrow> (errno option \<times> inode \<times> acls) option" where
  "may_delete env s cur dir victim isdir acls =
     (case d_inode victim of
        None \<Rightarrow> Some (Some ENOENT, dir, acls)
      | Some inode \<Rightarrow>
          if \<not> d_in_dir victim then None
          else do {
            (error, dir, acls) \<leftarrow> permission_in env s cur dir (MAY_WRITE OR MAY_EXEC) acls;
            cr \<leftarrow> current_cred s cur;
            Some (if error \<noteq> None then error
              else if IS_APPEND dir then Some EPERM
              else if check_sticky cr dir inode \<or> IS_APPEND inode \<or> IS_IMMUTABLE inode \<or> IS_SWAPFILE inode then Some EPERM
              else if isdir \<and> \<not> S_ISDIR (i_mode inode) then Some ENOTDIR
              else if isdir \<and> d_is_root victim then Some EBUSY
              else if \<not> isdir \<and> S_ISDIR (i_mode inode) then Some EISDIR
              else if IS_DEADDIR dir then Some ENOENT
              else if d_flags victim AND DCACHE_NFSFS_RENAMED \<noteq> 0 then Some EBUSY
              else None, dir, acls)
          })"

definition may_create ::
  "perm_env \<Rightarrow> cred_state \<Rightarrow> nat \<Rightarrow> inode \<Rightarrow> dentry \<Rightarrow> acls \<Rightarrow> (errno option \<times> inode \<times> acls) option" where
  "may_create env s cur dir child acls =
     (if d_inode child \<noteq> None then Some (Some EEXIST, dir, acls)
      else if IS_DEADDIR dir then Some (Some ENOENT, dir, acls)
      else permission_in env s cur dir (MAY_WRITE OR MAY_EXEC) acls)"

definition O_ACCMODE :: u32 where "O_ACCMODE = 3"
definition O_RDONLY :: u32 where "O_RDONLY = 0"
definition O_TRUNC :: u32 where "O_TRUNC = 0x200"
definition O_APPEND :: u32 where "O_APPEND = 0x400"
definition O_NOATIME :: u32 where "O_NOATIME = 0x40000"

text \<open>The tests of \<open>may_open\<close> after the permission check.\<close>

definition open_flags_ok :: "cred \<Rightarrow> inode \<Rightarrow> u32 \<Rightarrow> errno option" where
  "open_flags_ok cr inode flag =
     (if IS_APPEND inode \<and> flag AND O_ACCMODE \<noteq> O_RDONLY \<and> flag AND O_APPEND = 0 then Some EPERM
      else if IS_APPEND inode \<and> flag AND O_TRUNC \<noteq> 0 then Some EPERM
      else if flag AND O_NOATIME \<noteq> 0 \<and> \<not> inode_owner_or_capable cr inode then Some EPERM
      else None)"

definition may_open ::
  "perm_env \<Rightarrow> cred_state \<Rightarrow> nat \<Rightarrow> bool \<Rightarrow> dentry \<Rightarrow> u32 \<Rightarrow> u32 \<Rightarrow> acls \<Rightarrow> (errno option \<times> inode option \<times> acls) option" where
  "may_open env s cur mnt_nodev dentry acc_mode flag acls =
     (if acc_mode = 0 then Some (None, d_inode dentry, acls)
      else case d_inode dentry of
        None \<Rightarrow> Some (Some ENOENT, None, acls)
      | Some inode \<Rightarrow>
          let ty = i_mode inode AND S_IFMT in
          if ty = S_IFLNK then Some (Some ELOOP, Some inode, acls)
          else if ty = S_IFDIR \<and> acc_mode AND MAY_WRITE \<noteq> 0 then Some (Some EISDIR, Some inode, acls)
          else if (ty = S_IFBLK \<or> ty = S_IFCHR) \<and> mnt_nodev then Some (Some EACCES, Some inode, acls)
          else
            let flag = (if ty = S_IFBLK \<or> ty = S_IFCHR \<or> ty = S_IFIFO \<or> ty = S_IFSOCK then flag AND NOT O_TRUNC else flag) in
            do {
              (error, inode, acls) \<leftarrow> permission_in env s cur inode acc_mode acls;
              cr \<leftarrow> current_cred s cur;
              Some (if error \<noteq> None then error else open_flags_ok cr inode flag, Some inode, acls)
            })"

text \<open>
  The operation of the file system gets the mode and returns an error; \<open>None\<close> is a file system without it. The first result
  says whether the operation was called.
\<close>

definition vfs_create ::
  "perm_env \<Rightarrow> (u16 \<Rightarrow> errno option) \<Rightarrow> (u16 \<Rightarrow> errno option) option \<Rightarrow> cred_state \<Rightarrow> nat \<Rightarrow> inode \<Rightarrow> dentry \<Rightarrow> u16 \<Rightarrow> acls \<Rightarrow>
   (bool \<times> errno option \<times> inode \<times> acls) option" where
  "vfs_create env security_inode_create create s cur dir dentry mode acls = do {
     (error, dir, acls) \<leftarrow> may_create env s cur dir dentry acls;
     Some (if error \<noteq> None then (False, error, dir, acls)
       else case create of
         None \<Rightarrow> (False, Some EACCES, dir, acls)
       | Some op \<Rightarrow>
           let mode = (mode AND S_IALLUGO) OR S_IFREG in
           if security_inode_create mode \<noteq> None then (False, security_inode_create mode, dir, acls)
           else (True, op mode, dir, acls))
   }"

definition vfs_mknod ::
  "perm_env \<Rightarrow> (u16 \<Rightarrow> u32 \<Rightarrow> errno option) \<Rightarrow> (u16 \<Rightarrow> u32 \<Rightarrow> errno option) option \<Rightarrow> cred_state \<Rightarrow> nat \<Rightarrow> inode \<Rightarrow> dentry \<Rightarrow> u16 \<Rightarrow> u32 \<Rightarrow>
   acls \<Rightarrow> (bool \<times> errno option \<times> inode \<times> acls) option" where
  "vfs_mknod env security_inode_mknod mknod s cur dir dentry mode dev acls = do {
     (error, dir, acls) \<leftarrow> may_create env s cur dir dentry acls;
     cr \<leftarrow> current_cred s cur;
     Some (if error \<noteq> None then (False, error, dir, acls)
       else if (S_ISCHR mode \<or> S_ISBLK mode) \<and> \<not> ns_capable cr init_user_ns CAP_MKNOD then (False, Some EPERM, dir, acls)
       else case mknod of
         None \<Rightarrow> (False, Some EPERM, dir, acls)
       | Some op \<Rightarrow>
           if devcgroup_inode_mknod (pe_group env) mode dev \<noteq> None
           then (False, devcgroup_inode_mknod (pe_group env) mode dev, dir, acls)
           else if security_inode_mknod mode dev \<noteq> None then (False, security_inode_mknod mode dev, dir, acls)
           else (True, op mode dev, dir, acls))
   }"

definition vfs_mkdir ::
  "perm_env \<Rightarrow> (u16 \<Rightarrow> errno option) \<Rightarrow> (u16 \<Rightarrow> errno option) option \<Rightarrow> cred_state \<Rightarrow> nat \<Rightarrow> inode \<Rightarrow> dentry \<Rightarrow> u16 \<Rightarrow> acls \<Rightarrow>
   (bool \<times> errno option \<times> inode \<times> acls) option" where
  "vfs_mkdir env security_inode_mkdir mkdir s cur dir dentry mode acls = do {
     (error, dir, acls) \<leftarrow> may_create env s cur dir dentry acls;
     Some (if error \<noteq> None then (False, error, dir, acls)
       else case mkdir of
         None \<Rightarrow> (False, Some EPERM, dir, acls)
       | Some op \<Rightarrow>
           let mode = mode AND (S_IRWXUGO OR S_ISVTX) in
           if security_inode_mkdir mode \<noteq> None then (False, security_inode_mkdir mode, dir, acls)
           else (True, op mode, dir, acls))
   }"

end
