(* ===== verification/Attr.thy ===== *)
theory Attr
  imports Permission
begin

text \<open>
  Changes of file attributes (\<open>fs/attr.c\<close>, \<open>fs/open.c\<close>, \<open>simple_setattr\<close> of \<open>fs/libfs.c\<close>, the removal of set-id bits
  in \<open>mm/filemap.c\<close>): \<open>chmod\<close>, \<open>chown\<close>, truncation, and what a write does to a set-id file. The clock, the file size limit,
  the hooks of a security module and the operation of the file system are arguments; the page cache and the
  locks are not modelled.
\<close>

subsection \<open>Data\<close>

definition ATTR_MODE :: u32 where "ATTR_MODE = 0x1"
definition ATTR_UID :: u32 where "ATTR_UID = 0x2"
definition ATTR_GID :: u32 where "ATTR_GID = 0x4"
definition ATTR_SIZE :: u32 where "ATTR_SIZE = 0x8"
definition ATTR_ATIME :: u32 where "ATTR_ATIME = 0x10"
definition ATTR_MTIME :: u32 where "ATTR_MTIME = 0x20"
definition ATTR_CTIME :: u32 where "ATTR_CTIME = 0x40"
definition ATTR_ATIME_SET :: u32 where "ATTR_ATIME_SET = 0x80"
definition ATTR_MTIME_SET :: u32 where "ATTR_MTIME_SET = 0x100"
definition ATTR_FORCE :: u32 where "ATTR_FORCE = 0x200"
definition ATTR_KILL_SUID :: u32 where "ATTR_KILL_SUID = 0x800"
definition ATTR_KILL_SGID :: u32 where "ATTR_KILL_SGID = 0x1000"
definition ATTR_FILE :: u32 where "ATTR_FILE = 0x2000"
definition ATTR_KILL_PRIV :: u32 where "ATTR_KILL_PRIV = 0x4000"
definition ATTR_TIMES_SET :: u32 where "ATTR_TIMES_SET = 0x10000"

definition S_NOSEC :: u32 where "S_NOSEC = 0x1000"
definition MS_NOSEC :: u32 where "MS_NOSEC = 0x10000000"
definition S_IXGRP :: u16 where "S_IXGRP = 0x8"

record iattr =
  ia_valid :: u32
  ia_mode :: u16
  ia_uid :: u32
  ia_gid :: u32
  ia_size :: int
  ia_atime :: timespec
  ia_mtime :: timespec
  ia_ctime :: timespec

text \<open>\<open>tick_nsec\<close> is \<open>jiffies_to_usecs(1) * 1000\<close>.\<close>

definition timespec_trunc :: "u32 \<Rightarrow> timespec \<Rightarrow> u32 \<Rightarrow> timespec" where
  "timespec_trunc tick_nsec t gran =
     (if gran \<le> tick_nsec then t
      else if gran = 1000000000 then t\<lparr>tv_nsec := 0\<rparr>
      else t\<lparr>tv_nsec := tv_nsec t - tv_nsec t mod uint gran\<rparr>)"

record attr_env =
  ae_tick_nsec :: u32
  ae_kernel_time :: timespec
  ae_fsize_limit :: u32
  ae_need_killpriv :: "inode \<Rightarrow> errno + bool"
  ae_killpriv :: "inode \<Rightarrow> errno option"
  ae_security_setattr :: "inode \<Rightarrow> iattr \<Rightarrow> errno option"
  ae_setattr :: "(inode \<Rightarrow> iattr \<Rightarrow> (errno option \<times> inode \<times> iattr) option) option"

definition current_fs_time :: "attr_env \<Rightarrow> super_block \<Rightarrow> timespec" where
  "current_fs_time env sb = timespec_trunc (ae_tick_nsec env) (ae_kernel_time env) (s_time_gran sb)"

definition is_sxid :: "u16 \<Rightarrow> bool" where
  "is_sxid mode \<longleftrightarrow> mode AND S_ISUID \<noteq> 0 \<or> mode AND S_ISGID \<noteq> 0 \<and> mode AND S_IXGRP \<noteq> 0"

definition IS_NOSEC :: "inode \<Rightarrow> bool" where "IS_NOSEC inode \<longleftrightarrow> i_flags inode AND S_NOSEC \<noteq> 0"

subsection \<open>Checks\<close>

definition RLIM_INFINITY :: u32 where "RLIM_INFINITY = NOT 0"

text \<open>The second result says that the task was sent \<open>SIGXFSZ\<close>.\<close>

definition inode_newsize_ok :: "u32 \<Rightarrow> inode \<Rightarrow> int \<Rightarrow> errno option \<times> bool" where
  "inode_newsize_ok limit inode offset =
     (if i_size inode < offset then
        if limit \<noteq> RLIM_INFINITY \<and> offset > uint limit then (Some EFBIG, True)
        else if offset > s_maxbytes (i_sb inode) then (Some EFBIG, False)
        else (None, False)
      else if IS_SWAPFILE inode then (Some ETXTBSY, False)
      else (None, False))"

text \<open>The tests of \<open>inode_change_ok\<close> after the one of the size.\<close>

definition change_ok :: "cred_state \<Rightarrow> nat \<Rightarrow> inode \<Rightarrow> iattr \<Rightarrow> (errno option \<times> iattr) option" where
  "change_ok s cur inode attr = do {
     cr \<leftarrow> current_cred s cur;
     in_gid \<leftarrow> in_group_p s cur (ia_gid attr);
     in_inode_gid \<leftarrow> in_group_p s cur (i_gid inode);
     let valid = ia_valid attr in
     let attr' = (if valid AND ATTR_MODE \<noteq> 0 \<and> \<not> (if valid AND ATTR_GID \<noteq> 0 then in_gid else in_inode_gid) \<and> \<not> capable cr CAP_FSETID
                  then attr\<lparr>ia_mode := ia_mode attr AND NOT S_ISGID\<rparr> else attr) in
     Some
       (if valid AND ATTR_UID \<noteq> 0 \<and> (fsuid cr \<noteq> i_uid inode \<or> ia_uid attr \<noteq> i_uid inode) \<and> \<not> capable cr CAP_CHOWN
        then (Some EPERM, attr)
        else if valid AND ATTR_GID \<noteq> 0 \<and> (fsuid cr \<noteq> i_uid inode \<or> \<not> in_gid \<and> ia_gid attr \<noteq> i_gid inode) \<and> \<not> capable cr CAP_CHOWN
        then (Some EPERM, attr)
        else if valid AND ATTR_MODE \<noteq> 0 \<and> \<not> inode_owner_or_capable cr inode then (Some EPERM, attr)
        else if valid AND (ATTR_MTIME_SET OR ATTR_ATIME_SET OR ATTR_TIMES_SET) \<noteq> 0 \<and> \<not> inode_owner_or_capable cr inode
        then (Some EPERM, attr')
        else (None, attr'))
   }"

definition inode_change_ok :: "u32 \<Rightarrow> cred_state \<Rightarrow> nat \<Rightarrow> inode \<Rightarrow> iattr \<Rightarrow> (errno option \<times> bool \<times> iattr) option" where
  "inode_change_ok limit s cur inode attr =
     (let (error, sig) = (if ia_valid attr AND ATTR_SIZE \<noteq> 0 then inode_newsize_ok limit inode (ia_size attr) else (None, False)) in
      if error \<noteq> None then Some (error, sig, attr)
      else if ia_valid attr AND ATTR_FORCE \<noteq> 0 then Some (None, sig, attr)
      else map_option (\<lambda>(e, attr). (e, sig, attr)) (change_ok s cur inode attr))"

subsection \<open>Changes\<close>

definition setattr_copy :: "u32 \<Rightarrow> cred_state \<Rightarrow> nat \<Rightarrow> inode \<Rightarrow> iattr \<Rightarrow> inode option" where
  "setattr_copy tick s cur inode attr =
     (let valid = ia_valid attr; gran = s_time_gran (i_sb inode);
          inode = (if valid AND ATTR_UID \<noteq> 0 then inode\<lparr>i_uid := ia_uid attr\<rparr> else inode);
          inode = (if valid AND ATTR_GID \<noteq> 0 then inode\<lparr>i_gid := ia_gid attr\<rparr> else inode);
          inode = (if valid AND ATTR_ATIME \<noteq> 0 then inode\<lparr>i_atime := timespec_trunc tick (ia_atime attr) gran\<rparr> else inode);
          inode = (if valid AND ATTR_MTIME \<noteq> 0 then inode\<lparr>i_mtime := timespec_trunc tick (ia_mtime attr) gran\<rparr> else inode);
          inode = (if valid AND ATTR_CTIME \<noteq> 0 then inode\<lparr>i_ctime := timespec_trunc tick (ia_ctime attr) gran\<rparr> else inode) in
      if valid AND ATTR_MODE \<noteq> 0 then do {
        cr \<leftarrow> current_cred s cur;
        isin \<leftarrow> in_group_p s cur (i_gid inode);
        Some (inode\<lparr>i_mode := if \<not> isin \<and> \<not> capable cr CAP_FSETID then ia_mode attr AND NOT S_ISGID else ia_mode attr\<rparr>)
      }
      else Some inode)"

definition simple_setattr :: "attr_env \<Rightarrow> cred_state \<Rightarrow> nat \<Rightarrow> inode \<Rightarrow> iattr \<Rightarrow> (errno option \<times> inode \<times> iattr) option" where
  "simple_setattr env s cur inode iattr = do {
     (error, sig, iattr) \<leftarrow> inode_change_ok (ae_fsize_limit env) s cur inode iattr;
     if error \<noteq> None then Some (error, inode, iattr)
     else do {
       inode \<leftarrow> setattr_copy (ae_tick_nsec env) s cur
         (if ia_valid iattr AND ATTR_SIZE \<noteq> 0 then inode\<lparr>i_size := ia_size iattr\<rparr> else inode) iattr;
       Some (None, inode, iattr)
     }
   }"

text \<open>The mode that \<open>ATTR_KILL_SUID\<close> and \<open>ATTR_KILL_SGID\<close> ask for.\<close>

definition kill_suid :: "inode \<Rightarrow> iattr \<Rightarrow> iattr" where
  "kill_suid inode attr =
     (if ia_valid attr AND ATTR_KILL_SUID \<noteq> 0 \<and> i_mode inode AND S_ISUID \<noteq> 0
      then attr\<lparr>ia_valid := ia_valid attr OR ATTR_MODE, ia_mode := i_mode inode AND NOT S_ISUID\<rparr> else attr)"

definition kill_sgid :: "inode \<Rightarrow> iattr \<Rightarrow> iattr" where
  "kill_sgid inode attr =
     (if ia_valid attr AND ATTR_KILL_SGID \<noteq> 0 \<and> i_mode inode AND (S_ISGID OR S_IXGRP) = S_ISGID OR S_IXGRP
      then let attr = (if ia_valid attr AND ATTR_MODE = 0
                       then attr\<lparr>ia_valid := ia_valid attr OR ATTR_MODE, ia_mode := i_mode inode\<rparr> else attr) in
        attr\<lparr>ia_mode := ia_mode attr AND NOT S_ISGID\<rparr>
      else attr)"

definition fill_times :: "timespec \<Rightarrow> iattr \<Rightarrow> iattr" where
  "fill_times now attr =
     (let attr = attr\<lparr>ia_ctime := now\<rparr>;
          attr = (if ia_valid attr AND ATTR_ATIME_SET = 0 then attr\<lparr>ia_atime := now\<rparr> else attr) in
      if ia_valid attr AND ATTR_MTIME_SET = 0 then attr\<lparr>ia_mtime := now\<rparr> else attr)"

definition notify_change :: "attr_env \<Rightarrow> cred_state \<Rightarrow> nat \<Rightarrow> inode \<Rightarrow> iattr \<Rightarrow> (errno option \<times> inode) option" where
  "notify_change env s cur inode attr =
     (if ia_valid attr AND (ATTR_MODE OR ATTR_UID OR ATTR_GID OR ATTR_TIMES_SET) \<noteq> 0 \<and> (IS_IMMUTABLE inode \<or> IS_APPEND inode)
      then Some (Some EPERM, inode)
      else
        let inode = (if ia_valid attr AND ATTR_MODE \<noteq> 0 \<and> is_sxid (ia_mode attr)
                     then inode\<lparr>i_flags := i_flags inode AND NOT S_NOSEC\<rparr> else inode);
            attr = fill_times (current_fs_time env (i_sb inode)) attr;
            error = (if ia_valid attr AND ATTR_KILL_PRIV \<noteq> 0
                     then case ae_need_killpriv env inode of Inl e \<Rightarrow> Some e | Inr b \<Rightarrow> if b then ae_killpriv env inode else None
                     else None);
            attr = attr\<lparr>ia_valid := ia_valid attr AND NOT ATTR_KILL_PRIV\<rparr> in
        if error \<noteq> None then Some (error, inode)
        else if ia_valid attr AND (ATTR_KILL_SUID OR ATTR_KILL_SGID) \<noteq> 0 \<and> ia_valid attr AND ATTR_MODE \<noteq> 0 then None
        else
          let attr = kill_sgid inode (kill_suid inode attr) in
          if ia_valid attr AND NOT (ATTR_KILL_SUID OR ATTR_KILL_SGID) = 0 then Some (None, inode)
          else if ae_security_setattr env inode attr \<noteq> None then Some (ae_security_setattr env inode attr, inode)
          else map_option (\<lambda>(e, inode, attr). (e, inode))
            (case ae_setattr env of
               Some setattr \<Rightarrow> setattr inode attr
             | None \<Rightarrow> simple_setattr env s cur inode attr))"

subsection \<open>The system calls\<close>

text \<open>\<open>junk\<close> is the uninitialised structure on the stack; \<open>security\<close> the hook on the path.\<close>

definition chmod_common ::
  "attr_env \<Rightarrow> (u16 \<Rightarrow> errno option) \<Rightarrow> errno option \<Rightarrow> iattr \<Rightarrow> cred_state \<Rightarrow> nat \<Rightarrow> inode \<Rightarrow> u16 \<Rightarrow> (errno option \<times> inode) option" where
  "chmod_common env security mnt_want_write junk s cur inode mode =
     (if mnt_want_write \<noteq> None then Some (mnt_want_write, inode)
      else if security mode \<noteq> None then Some (security mode, inode)
      else notify_change env s cur inode
        (junk\<lparr>ia_mode := (mode AND S_IALLUGO) OR (i_mode inode AND NOT S_IALLUGO), ia_valid := ATTR_MODE OR ATTR_CTIME\<rparr>))"

definition chown_attrs :: "iattr \<Rightarrow> inode \<Rightarrow> u32 \<Rightarrow> u32 \<Rightarrow> iattr" where
  "chown_attrs junk inode user grp =
     (let a = junk\<lparr>ia_valid := ATTR_CTIME\<rparr>;
          a = (if user \<noteq> - 1 then a\<lparr>ia_valid := ia_valid a OR ATTR_UID, ia_uid := user\<rparr> else a);
          a = (if grp \<noteq> - 1 then a\<lparr>ia_valid := ia_valid a OR ATTR_GID, ia_gid := grp\<rparr> else a) in
      if \<not> S_ISDIR (i_mode inode) then a\<lparr>ia_valid := ia_valid a OR ATTR_KILL_SUID OR ATTR_KILL_SGID OR ATTR_KILL_PRIV\<rparr> else a)"

definition chown_common ::
  "attr_env \<Rightarrow> (u32 \<Rightarrow> u32 \<Rightarrow> errno option) \<Rightarrow> iattr \<Rightarrow> cred_state \<Rightarrow> nat \<Rightarrow> inode \<Rightarrow> u32 \<Rightarrow> u32 \<Rightarrow> (errno option \<times> inode) option" where
  "chown_common env security junk s cur inode user grp =
     (if security user grp \<noteq> None then Some (security user grp, inode)
      else notify_change env s cur inode (chown_attrs junk inode user grp))"

definition should_remove_suid :: "cred \<Rightarrow> inode \<Rightarrow> u32" where
  "should_remove_suid cr inode =
     (let mode = i_mode inode;
          kill = (if mode AND S_ISUID \<noteq> 0 then ATTR_KILL_SUID else 0);
          kill = (if mode AND S_ISGID \<noteq> 0 \<and> mode AND S_IXGRP \<noteq> 0 then kill OR ATTR_KILL_SGID else kill) in
      if kill \<noteq> 0 \<and> \<not> capable cr CAP_FSETID \<and> S_ISREG mode then kill else 0)"

definition do_truncate ::
  "attr_env \<Rightarrow> iattr \<Rightarrow> bool \<Rightarrow> cred_state \<Rightarrow> nat \<Rightarrow> inode \<Rightarrow> int \<Rightarrow> u32 \<Rightarrow> (errno option \<times> inode) option" where
  "do_truncate env junk has_file s cur inode len time_attrs =
     (if len < 0 then Some (Some EINVAL, inode)
      else do {
        cr \<leftarrow> current_cred s cur;
        let valid = ATTR_SIZE OR time_attrs OR (if has_file then ATTR_FILE else 0);
            kill = should_remove_suid cr inode in
        notify_change env s cur inode
          (junk\<lparr>ia_size := len, ia_valid := if kill \<noteq> 0 then valid OR kill OR ATTR_FORCE else valid\<rparr>)
      })"

text \<open>What a write does to a set-id file before it changes the data.\<close>

definition file_remove_suid :: "attr_env \<Rightarrow> iattr \<Rightarrow> cred_state \<Rightarrow> nat \<Rightarrow> inode \<Rightarrow> (errno option \<times> inode) option" where
  "file_remove_suid env junk s cur inode =
     (if IS_NOSEC inode then Some (None, inode)
      else do {
        cr \<leftarrow> current_cred s cur;
        case ae_need_killpriv env inode of
          Inl e \<Rightarrow> Some (Some e, inode)
        | Inr killpriv \<Rightarrow> do {
            let error = (if killpriv then ae_killpriv env inode else None); killsuid = should_remove_suid cr inode in
            do {
              (error, inode) \<leftarrow>
                (if error = None \<and> killsuid \<noteq> 0
                 then notify_change env s cur inode (junk\<lparr>ia_valid := ATTR_FORCE OR killsuid\<rparr>) else Some (error, inode));
              Some (error, if error = None \<and> s_flags (i_sb inode) AND MS_NOSEC \<noteq> 0
                then inode\<lparr>i_flags := i_flags inode OR S_NOSEC\<rparr> else inode)
            }
          }
      })"

end
