(* ===== verification/Permission_Props.thy ===== *)
theory Permission_Props
  imports Permission Dev_Cgroup_Props
begin

text \<open>
  What the permission checks decide: the access that the mode or the access control list gives to the class of the
  task, the capabilities that override a refusal, and the guards of the virtual file system. The membership of
  the current task in groups comes from the credentials of a reachable state of \<open>Cred_Protocol\<close>.
\<close>

subsection \<open>The task\<close>

definition member_of :: "cred \<Rightarrow> group_info \<Rightarrow> u32 \<Rightarrow> bool" where
  "member_of cr gi g \<longleftrightarrow> g = fsgid cr \<or> g \<in> set (groups_of gi)"

text \<open>The current task, its credentials and its groups.\<close>

definition runs_as :: "cred_state \<Rightarrow> nat \<Rightarrow> cred \<Rightarrow> (u32 \<Rightarrow> bool) \<Rightarrow> bool" where
  "runs_as s cur cr member \<longleftrightarrow> current_cred s cur = Some cr \<and> (\<forall>g. in_group_p s cur g = Some (member g))"

lemma reachable_runs_as:
  assumes "reachable (\<lambda>k. k = boot) op_step k" "cur < length (tasks (ks k))" "t_cred (tasks (ks k) ! cur) = Some c"
  shows "\<exists>cr gi. cred_at (ks k) c = Some cr \<and> gi_at (ks k) (cr_group_info cr) = Some gi \<and> runs_as (ks k) cur cr (member_of cr gi)"
proof -
  have i: "cred_inv (ks k) (ks_held k) (ks_gi_held k) {#}"
    using cred.reachable_inv [OF assms(1)] by (simp add: kstate_inv_def)
  obtain cr where cr: "cred_at (ks k) c = Some cr" using task_cred_live [OF i assms(2), of c] assms(3) by blast
  obtain gi where gi: "gi_at (ks k) (cr_group_info cr) = Some gi" "gi_wf gi" "sorted (groups_of gi)"
    using cred_group_live [OF i cr] by blast
  have cur: "current_cred (ks k) cur = Some cr" using assms(2,3) cr by (simp add: current_cred_def task_at_def)
  have "in_group_p (ks k) cur g = Some (member_of cr gi g)" for g
    using groups_search_spec [of gi g] cur gi by (simp add: in_group_p_def member_of_def)
  then show ?thesis using cr gi(1) cur by (auto simp: runs_as_def)
qed

subsection \<open>Classes\<close>

definition wanted :: "u32 \<Rightarrow> u32" where
  "wanted may = may AND (MAY_READ OR MAY_WRITE OR MAY_EXEC)"

lemma subset_bits: "a AND NOT m = 0 \<longleftrightarrow> m AND a = a" for a m :: u32
proof
  assume z: "a AND NOT m = 0"
  have "a = a AND (m OR NOT m)" by simp
  also have "\<dots> = m AND a" using z by (simp only: bit.conj_disj_distrib or.right_neutral and.commute)
  finally show "m AND a = a" ..
next
  assume h: "m AND a = a"
  have "a AND NOT m = (m AND a) AND NOT m" using h by simp
  then show "a AND NOT m = 0" by (simp add: and.commute and.left_commute)
qed

lemma mode_grants_covers: "mode_grants mode may \<longleftrightarrow> covers mode (wanted may)"
  using subset_bits [of "wanted may" mode] by (simp add: mode_grants_def covers_def wanted_def and.assoc and.commute and.left_commute)

text \<open>The cached list of an inode.\<close>

definition acl_cached :: "acls \<Rightarrow> inode \<Rightarrow> posix_acl_entry list option \<Rightarrow> bool" where
  "acl_cached acls inode acl =
     (case acl of
        None \<Rightarrow> i_acl inode = ACL_NULL
      | Some es \<Rightarrow> \<exists>a al. i_acl inode = Acl a \<and> acl_at acls a = Some al \<and> 0 < a_refcount al \<and> a_entries al = es \<and>
          posix_acl_valid es = None)"

text \<open>
  The discretionary decision: the owner class by the mode; for others the list, unless the group bits of the
  mode are zero; else the group class or the class of the others by the mode.
\<close>

definition dac_allows :: "cred \<Rightarrow> (u32 \<Rightarrow> bool) \<Rightarrow> inode \<Rightarrow> posix_acl_entry list option \<Rightarrow> u32 \<Rightarrow> bool" where
  "dac_allows cr member inode acl may =
     (let mode = ucast (i_mode inode); want = wanted may in
      if user_ns (cr_user cr) \<noteq> init_user_ns then covers mode want
      else if fsuid cr = i_uid inode then covers (drop_bit 6 mode) want
      else if IS_POSIXACL inode \<and> i_mode inode AND S_IRWXG \<noteq> 0 \<and> acl \<noteq> None
      then acl_access (fsuid cr) member inode (the acl) want
      else covers (if member (i_gid inode) then drop_bit 3 mode else mode) want)"

lemma dup_release:
  assumes "acl_at acls a = Some al" "0 < a_refcount al"
  shows "\<exists>acls'. posix_acl_dup (Acl a) acls = Some acls' \<and> acl_at acls' a = Some (al\<lparr>a_refcount := a_refcount al + 1\<rparr>) \<and>
    posix_acl_release (Acl a) acls' = Some acls"
proof -
  have a: "a < length acls" "acls ! a = Some al" using assms(1) by (auto simp: acl_at_def split: if_splits)
  have "al\<lparr>a_refcount := a_refcount al\<rparr> = al" by simp
  then show ?thesis using a assms by (auto simp: posix_acl_dup_def posix_acl_release_def acl_at_def list_update_same_conv)
qed

lemma wanted_rcu:
  "may AND MAY_NOT_BLOCK = 0 \<Longrightarrow> may AND (MAY_READ OR MAY_WRITE OR MAY_EXEC OR MAY_NOT_BLOCK) = wanted may"
  "(may AND NOT MAY_NOT_BLOCK) AND (MAY_READ OR MAY_WRITE OR MAY_EXEC OR MAY_NOT_BLOCK) = wanted may"
proof -
  show "may AND MAY_NOT_BLOCK = 0 \<Longrightarrow> may AND (MAY_READ OR MAY_WRITE OR MAY_EXEC OR MAY_NOT_BLOCK) = wanted may"
    by (simp add: wanted_def bit.conj_disj_distrib)
  have "NOT MAY_NOT_BLOCK AND (MAY_READ OR MAY_WRITE OR MAY_EXEC OR MAY_NOT_BLOCK) = MAY_READ OR MAY_WRITE OR MAY_EXEC"
    by (simp add: MAY_READ_def MAY_WRITE_def MAY_EXEC_def MAY_NOT_BLOCK_def)
  then show "(may AND NOT MAY_NOT_BLOCK) AND (MAY_READ OR MAY_WRITE OR MAY_EXEC OR MAY_NOT_BLOCK) = wanted may"
    by (simp only: and.assoc wanted_def)
qed

lemma check_acl_decides:
  assumes run: "runs_as s cur cr member" and acl: "acl_cached acls inode acl"
  shows "check_acl ops s cur inode may acls =
    Some (case acl of None \<Rightarrow> Some EAGAIN | Some es \<Rightarrow> verdict (acl_access (fsuid cr) member inode es (wanted may)), inode, acls)"
proof (cases acl)
  case None
  then show ?thesis
    using acl by (simp add: acl_cached_def check_acl_def get_cached_acl_rcu_def get_cached_acl_def acl_by_type_def posix_acl_dup_def
      acl_decision_def)
next
  case (Some es)
  then obtain a al where a: "i_acl inode = Acl a" "acl_at acls a = Some al" "0 < a_refcount al" "a_entries al = es"
    "posix_acl_valid es = None" using acl by (auto simp: acl_cached_def)
  have run': "current_cred s cur = Some cr" "\<forall>g. in_group_p s cur g = Some (member g)" using run by (simp_all add: runs_as_def)
  note perm = posix_acl_permission_acl [OF run' a(5)]
  obtain acls' where d: "posix_acl_dup (Acl a) acls = Some acls'" "acl_at acls' a = Some (al\<lparr>a_refcount := a_refcount al + 1\<rparr>)"
    "posix_acl_release (Acl a) acls' = Some acls" using dup_release [OF a(2,3)] by blast
  show ?thesis
  proof (cases "may AND MAY_NOT_BLOCK = 0")
    case True
    then show ?thesis using a d Some
      by (simp add: check_acl_def get_cached_acl_def acl_by_type_def acl_decision_def perm wanted_rcu(1))
  next
    case False
    then show ?thesis using a Some
      by (simp add: check_acl_def get_cached_acl_rcu_def acl_by_type_def perm wanted_rcu(2))
  qed
qed

lemma ucast_group_bits: "(ucast m :: u32) AND ucast S_IRWXG = 0 \<longleftrightarrow> m AND S_IRWXG = 0" for m :: u16
proof -
  have "(ucast m :: u32) AND ucast S_IRWXG = ucast (m AND S_IRWXG)" by (simp add: unsigned_and_eq)
  then show ?thesis by (simp add: word_unat_eq_iff [of "ucast (m AND S_IRWXG)"] word_unat_eq_iff [of "m AND S_IRWXG"] unat_ucast_up)
qed

lemma acl_permission_check_decides:
  assumes run: "runs_as s cur cr member" and acl: "acl_cached acls inode acl"
  shows "acl_permission_check ops s cur inode may acls = Some (verdict (dac_allows cr member inode acl may), inode, acls)"
proof -
  have cr: "current_cred s cur = Some cr" "\<And>g. in_group_p s cur g = Some (member g)" using run by (simp_all add: runs_as_def)
  have v: "verdict b \<noteq> Some EAGAIN" for b by (simp add: verdict_def)
  have mc: "mode_check m may = verdict (covers m (wanted may))" for m by (simp add: mode_check_def mode_grants_covers verdict_def)
  show ?thesis
    unfolding acl_permission_check_def dac_allows_def Let_def check_acl_decides [OF assms] ucast_group_bits
    by (cases acl) (simp_all add: cr mc v)
qed

lemma generic_permission_decides:
  assumes "runs_as s cur cr member" "acl_cached acls inode acl"
  shows "generic_permission ops s cur inode may acls =
    Some (verdict (dac_allows cr member inode acl may \<or> dac_override cr inode may), inode, acls)"
  using assms(1) by (simp add: generic_permission_def acl_permission_check_decides [OF assms] runs_as_def verdict_def)

subsection \<open>The decision\<close>

text \<open>An inode that is known to have no permission operation of its own.\<close>

definition fast_inode :: "inode \<Rightarrow> inode" where
  "fast_inode inode = inode\<lparr>i_opflags := i_opflags inode OR IOP_FASTPERM\<rparr>"

definition permission_verdict ::
  "dev_cgroup \<Rightarrow> (inode \<Rightarrow> u32 \<Rightarrow> errno option) \<Rightarrow> cred \<Rightarrow> (u32 \<Rightarrow> bool) \<Rightarrow> inode \<Rightarrow> posix_acl_entry list option \<Rightarrow> u32 \<Rightarrow> errno option" where
  "permission_verdict g security cr member inode acl may =
     (if may AND MAY_WRITE \<noteq> 0 \<and> IS_RDONLY inode \<and> (S_ISREG (i_mode inode) \<or> S_ISDIR (i_mode inode) \<or> S_ISLNK (i_mode inode))
      then Some EROFS
      else if may AND MAY_WRITE \<noteq> 0 \<and> IS_IMMUTABLE inode then Some EACCES
      else if \<not> (dac_allows cr member inode acl may \<or> dac_override cr inode may) then Some EACCES
      else if devcgroup_inode_permission g inode may \<noteq> None then devcgroup_inode_permission g inode may
      else security (fast_inode inode) may)"

lemma fast_inode_same:
  "acl_cached acls (fast_inode inode) acl = acl_cached acls inode acl"
  "dac_allows cr member (fast_inode inode) acl may = dac_allows cr member inode acl may"
  "dac_override cr (fast_inode inode) may = dac_override cr inode may"
  "devcgroup_inode_permission g (fast_inode inode) may = devcgroup_inode_permission g inode may"
proof -
  have f: "i_uid (fast_inode inode) = i_uid inode" "i_gid (fast_inode inode) = i_gid inode" "i_mode (fast_inode inode) = i_mode inode"
    "i_acl (fast_inode inode) = i_acl inode" "i_sb (fast_inode inode) = i_sb inode" "i_rdev (fast_inode inode) = i_rdev inode"
    by (simp_all add: fast_inode_def)
  have "group_applies member (fast_inode inode) = group_applies member inode" by (rule ext) (simp add: group_applies_def f)
  then have "acl_access u member (fast_inode inode) es want = acl_access u member inode es want" for u es want
    by (simp only: acl_access_def f)
  then show "dac_allows cr member (fast_inode inode) acl may = dac_allows cr member inode acl may"
    by (simp add: dac_allows_def IS_POSIXACL_def f)
qed (simp_all add: fast_inode_def acl_cached_def dac_override_def devcgroup_inode_permission_def split: option.split)

lemma fast_inode_id:
  assumes "i_opflags inode AND IOP_FASTPERM \<noteq> 0"
  shows "fast_inode inode = inode"
proof -
  have "bit (i_opflags inode) 0" using assms by (simp add: IOP_FASTPERM_def and_one_eq bit_0 odd_iff_mod_2_eq_one)
  then have "i_opflags inode OR IOP_FASTPERM = i_opflags inode"
    by (intro bit_word_eqI) (auto simp: IOP_FASTPERM_def bit_or_iff bit_1_iff)
  then show ?thesis by (simp add: fast_inode_def)
qed

lemma inode_permission_verdict:
  assumes run: "runs_as s cur cr member" and acl: "acl_cached acls inode acl" and ops: "op_permission ops = None"
  shows "\<exists>inode'. inode_permission ops g security s cur inode may acls =
      Some (permission_verdict g security cr member inode acl may, inode', acls) \<and> (inode' = inode \<or> inode' = fast_inode inode)"
proof -
  have "do_inode_permission ops s cur inode may acls =
      Some (verdict (dac_allows cr member inode acl may \<or> dac_override cr inode may), fast_inode inode, acls)"
  proof (cases "i_opflags inode AND IOP_FASTPERM = 0")
    case True
    have "acl_cached acls (fast_inode inode) acl" using acl by (simp add: fast_inode_same)
    from generic_permission_decides [OF run this, of ops may] show ?thesis
      using True ops by (simp add: do_inode_permission_def fast_inode_same) (simp add: fast_inode_def)
  next
    case False
    then show ?thesis using generic_permission_decides [OF run acl, of ops may] by (simp add: do_inode_permission_def fast_inode_id)
  qed
  then show ?thesis
    by (auto simp: inode_permission_def permission_verdict_def verdict_def fast_inode_same)
qed

text \<open>C35. For a task of a reachable state of the credentials and an inode whose access control list is cached,
  \<open>inode_permission\<close> returns, leaves the reference counts of the lists as they were, and grants access exactly if the
  file system and the file may be written, the class of the task has the permission by the mode or by the
  access control list or a capability overrides, the device group allows the device, and the security module agrees. The
  path walk that must not block gets the same answer.\<close>

theorem inode_permission_exact:
  assumes "reachable (\<lambda>k. k = boot) op_step k" "cur < length (tasks (ks k))" "t_cred (tasks (ks k) ! cur) = Some c"
    "acl_cached acls inode acl" "op_permission ops = None"
  shows "\<exists>cr gi inode'. cred_at (ks k) c = Some cr \<and> gi_at (ks k) (cr_group_info cr) = Some gi \<and>
    inode_permission ops g security (ks k) cur inode may acls =
      Some (permission_verdict g security cr (member_of cr gi) inode acl may, inode', acls) \<and>
    (inode' = inode \<or> inode' = fast_inode inode)"
  using reachable_runs_as [OF assms(1-3)] inode_permission_verdict [OF _ assms(4,5)] by meson

definition plain_sb :: super_block where
  "plain_sb = \<lparr>s_flags = MS_POSIXACL, s_maxbytes = 2 ^ 31 - 1, s_time_gran = 1\<rparr>"

definition epoch :: timespec where "epoch = \<lparr>tv_sec = 0, tv_nsec = 0\<rparr>"

text \<open>A regular file of user 1000 with mode 0640 and no access control list.\<close>

definition plain_file :: inode where
  "plain_file = \<lparr>i_mode = 0x81A0, i_opflags = 0, i_uid = 1000, i_gid = 0, i_rdev = 0, i_flags = 0, i_acl = ACL_NULL,
     i_default_acl = ACL_NULL, i_sb = plain_sb, i_size = 0, i_atime = epoch, i_mtime = epoch, i_ctime = epoch\<rparr>"

definition no_ops :: inode_ops where
  "no_ops = \<lparr>op_get_acl = None, op_permission = None\<rparr>"

theorem inode_permission_exact_witness:
  "\<exists>cr gi inode'. cred_at (ks boot) 0 = Some cr \<and> gi_at (ks boot) (cr_group_info cr) = Some gi \<and>
     inode_permission no_ops root_group (\<lambda>_ _. None) (ks boot) 0 plain_file MAY_READ [] =
       Some (permission_verdict root_group (\<lambda>_ _. None) cr (member_of cr gi) plain_file None MAY_READ, inode', [])"
proof -
  have "reachable (\<lambda>k. k = boot) op_step boot" by (rule reachable.start) simp
  moreover have "0 < length (tasks (ks boot))" "t_cred (tasks (ks boot) ! 0) = Some 0" by (simp_all add: boot_def)
  moreover have "acl_cached [] plain_file None" "op_permission no_ops = None" by (simp_all add: acl_cached_def plain_file_def no_ops_def)
  ultimately show ?thesis using inode_permission_exact [of boot 0 0 "[]" plain_file None no_ops root_group "\<lambda>_ _. None" MAY_READ] by blast
qed

subsection \<open>An empty mask\<close>

lemma acl_mask_parts:
  assumes "acl_parts uo us go gs (Some p) ot"
  shows "acl_mask (acl_list uo us go gs (Some p) ot) = ucast (e_perm p)"
proof -
  have t: "e_tag uo \<noteq> ACL_MASK" "e_tag go \<noteq> ACL_MASK" "e_tag p = ACL_MASK" "\<forall>e\<in>set us. e_tag e \<noteq> ACL_MASK" "\<forall>e\<in>set gs. e_tag e \<noteq> ACL_MASK"
    using acl_parts_tags [OF assms] by (auto simp: acl_tags)
  show ?thesis using t by (simp add: acl_list_def acl_mask_Cons)
qed

lemma empty_group_class:
  assumes parts: "acl_parts uo us go gs m ot" and mode: "mode AND S_IRWXG = 0"
    and agree: "(mode AND NOT S_IRWXUGO) OR class_mode (e_perm uo) (e_perm (group_class go m)) (e_perm ot) = mode"
  shows "e_perm (group_class go m) = 0"
proof (rule bit_word_eqI)
  fix n
  note ok = acl_parts_perms [OF parts]
  have "\<not> bit (e_perm (group_class go m)) n" if "n < 3"
  proof -
    have "\<not> bit mode (n + 3)" using mode that bit_and_iff [of mode S_IRWXG "n + 3"] by simp
    then have "\<not> bit (class_mode (e_perm uo) (e_perm (group_class go m)) (e_perm ot)) (n + 3)" using agree by (metis bit_or_iff)
    then show ?thesis using that bit_class_mode [OF ok(1,4,3), of "n + 3"] by simp
  qed
  then show "bit (e_perm (group_class go m)) n = bit 0 n" using ok(4) by (auto simp: perm_ok_def)
qed

text \<open>C39. An access control list with an empty mask gives a named user nothing, and \<open>posix_acl_permission\<close> says so. Since the
  mask is also the group bits of the mode, the check of the mode skips the list then and grants the user
  what the others have.\<close>

theorem acl_empty_mask_bypassed:
  assumes run: "runs_as s cur cr member" and ns: "user_ns (cr_user cr) = init_user_ns" and own: "fsuid cr \<noteq> i_uid inode"
    and acl: "acl_cached acls inode (Some es)" and agree: "posix_acl_equiv_mode es (Some (i_mode inode)) = Inr (True, Some (i_mode inode))"
    and empty: "i_mode inode AND S_IRWXG = 0" and named: "\<exists>e\<in>set es. e_tag e = ACL_USER \<and> e_id e = fsuid cr"
    and other: "\<not> member (i_gid inode)" "covers (ucast (i_mode inode)) (wanted may)"
    and may: "wanted may \<noteq> 0" "may AND MAY_NOT_BLOCK = 0"
  shows "posix_acl_permission s cur inode es may = Some (Some EACCES) \<and>
    generic_permission ops s cur inode may acls = Some (None, inode, acls)"
proof
  have valid: "posix_acl_valid es = None" using acl by (auto simp: acl_cached_def)
  then obtain uo us go gs m ot where es: "es = acl_list uo us go gs m ot" and parts: "acl_parts uo us go gs m ot"
    using valid_iff_shape unfolding acl_shape_def by blast
  have "m \<noteq> None" and mode: "(i_mode inode AND NOT S_IRWXUGO) OR class_mode (e_perm uo) (e_perm (group_class go m)) (e_perm ot) = i_mode inode"
    using agree equiv_loop_parts [OF parts] by (simp_all add: posix_acl_equiv_mode_def es)
  then obtain p where p: "m = Some p" by blast
  have "e_perm p = 0" using empty_group_class [OF parts empty mode] p by (simp add: group_class_def)
  then have mask: "acl_mask es = 0" using acl_mask_parts parts by (simp add: es p)
  have "\<not> acl_access (fsuid cr) member inode es (wanted may)"
    using own named mask may(1) by (auto simp: acl_access_def covers_def)
  then show "posix_acl_permission s cur inode es may = Some (Some EACCES)"
    using posix_acl_permission_acl [of s cur cr member es inode may] run valid wanted_rcu(1) [OF may(2)]
    by (simp add: runs_as_def verdict_def)
  have "dac_allows cr member inode (Some es) may" using ns own empty other by (simp add: dac_allows_def Let_def)
  then show "generic_permission ops s cur inode may acls = Some (None, inode, acls)"
    using generic_permission_decides [OF run acl] by (simp add: verdict_def)
qed

text \<open>User 1000 is named, the mask is empty, and others may read.\<close>

definition masked_acl :: "posix_acl_entry list" where
  "masked_acl = [\<lparr>e_tag = ACL_USER_OBJ, e_perm = 7, e_id = 0\<rparr>, \<lparr>e_tag = ACL_USER, e_perm = 7, e_id = 1000\<rparr>,
     \<lparr>e_tag = ACL_GROUP_OBJ, e_perm = 7, e_id = 0\<rparr>, \<lparr>e_tag = ACL_MASK, e_perm = 0, e_id = 0\<rparr>,
     \<lparr>e_tag = ACL_OTHER, e_perm = 4, e_id = 0\<rparr>]"

definition masked_file :: inode where
  "masked_file = plain_file\<lparr>i_mode := 0x81C4, i_uid := 0, i_acl := Acl 0\<rparr>"

definition user_cred :: cred where
  "user_cred = init_cred\<lparr>fsuid := 1000, fsgid := 1000, cap_effective := 0\<rparr>"

definition user_state :: cred_state where
  "user_state = (ks boot)\<lparr>creds := [Some user_cred]\<rparr>"

lemma user_state_runs: "runs_as user_state 0 user_cred (\<lambda>g. g = 1000)"
  by (auto simp: runs_as_def user_state_def boot_def current_cred_def task_at_def cred_at_def in_group_p_def gi_at_def user_cred_def init_cred_def
    init_groups_def groups_search_def groups_search_loop.simps [of _ _ 0 0])

theorem acl_empty_mask_bypassed_witness:
  "posix_acl_permission user_state 0 masked_file masked_acl MAY_READ = Some (Some EACCES) \<and>
   generic_permission no_ops user_state 0 masked_file MAY_READ [Some \<lparr>a_refcount = 1, a_entries = masked_acl\<rparr>] =
     Some (None, masked_file, [Some \<lparr>a_refcount = 1, a_entries = masked_acl\<rparr>])"
proof (rule acl_empty_mask_bypassed [OF user_state_runs])
  show "acl_cached [Some \<lparr>a_refcount = 1, a_entries = masked_acl\<rparr>] masked_file (Some masked_acl)"
  proof -
    have "posix_acl_valid masked_acl = None" by code_simp
    then show ?thesis by (simp add: acl_cached_def masked_file_def plain_file_def acl_at_def)
  qed
  show "posix_acl_equiv_mode masked_acl (Some (i_mode masked_file)) = Inr (True, Some (i_mode masked_file))" by code_simp
  show "\<exists>e\<in>set masked_acl. e_tag e = ACL_USER \<and> e_id e = fsuid user_cred" by (simp add: masked_acl_def user_cred_def)
  show "user_ns (cr_user user_cred) = init_user_ns" "fsuid user_cred \<noteq> i_uid masked_file"
    by (simp_all add: user_cred_def init_cred_def INIT_USER_def masked_file_def)
  show "i_mode masked_file AND S_IRWXG = 0" "\<not> i_gid masked_file = 1000" by (simp_all add: masked_file_def plain_file_def S_IRWXG_def)
  show "covers (ucast (i_mode masked_file)) (wanted MAY_READ)" "wanted MAY_READ \<noteq> 0" "MAY_READ AND MAY_NOT_BLOCK = 0"
    by (simp_all add: covers_def masked_file_def wanted_def MAY_READ_def MAY_WRITE_def MAY_EXEC_def MAY_NOT_BLOCK_def)
qed

subsection \<open>Making and removing\<close>

lemma group_rules:
  assumes "reachable dev_boot dev_step gs" "group_at gs c = Some g"
  shows "\<forall>w\<in>set (whitelist g). rule_ok w"
    and "dc_parent g = Some p \<Longrightarrow> \<exists>pg. group_at gs p = Some pg \<and> within (whitelist g) (whitelist pg)"
  using devcg.reachable_inv [OF assms(1)] assms(2) by (auto simp: dev_inv_def group_inv_def)

definition device_allowed :: "dev_cgroup \<Rightarrow> u16 \<Rightarrow> u32 \<Rightarrow> u16 \<Rightarrow> bool" where
  "device_allowed g mode dev r \<longleftrightarrow> allows (whitelist g) (S_ISBLK mode) (MAJOR dev) (MINOR dev) r"

lemma mknod_group_allows:
  assumes "reachable dev_boot dev_step gs" "group_at gs c = Some g" "S_ISBLK mode \<or> S_ISCHR mode"
    "devcgroup_inode_mknod g mode dev = None"
  shows "device_allowed g mode dev ACC_MKNOD \<and>
    (\<forall>p. dc_parent g = Some p \<longrightarrow> (\<exists>pg. group_at gs p = Some pg \<and> device_allowed pg mode dev ACC_MKNOD))"
proof -
  have a: "device_allowed g mode dev ACC_MKNOD"
    using permission_whitelist_iff(3) [OF group_rules(1) [OF assms(1,2)] assms(3)] assms(3,4)
    by (simp add: devcgroup_inode_mknod_def device_allowed_def split: if_splits)
  then show ?thesis using group_rules(2) [OF assms(1,2)] by (auto simp: within_def device_allowed_def)
qed

lemma may_create_grants:
  assumes "runs_as s cur cr member" "acl_cached acls dir acl" "op_permission (pe_ops env) = None"
    "may_create env s cur dir child acls = Some (None, dir', acls')"
  shows "d_inode child = None \<and> \<not> IS_DEADDIR dir \<and>
    permission_verdict (pe_group env) (pe_security env) cr member dir acl (MAY_WRITE OR MAY_EXEC) = None \<and> acls' = acls"
  using inode_permission_verdict [OF assms(1-3), of "pe_group env" "pe_security env" "MAY_WRITE OR MAY_EXEC"] assms(4)
  by (auto simp: may_create_def permission_in_def split: if_splits)

lemma vfs_mknod_calls:
  assumes run: "runs_as s cur cr member" and acl: "acl_cached acls dir acl" and ops: "op_permission (pe_ops env) = None"
    and mk: "vfs_mknod env sec mknod s cur dir dentry mode dev acls = Some (True, r, dir', acls')"
  shows "d_inode dentry = None \<and> \<not> IS_DEADDIR dir \<and>
    permission_verdict (pe_group env) (pe_security env) cr member dir acl (MAY_WRITE OR MAY_EXEC) = None \<and>
    (S_ISBLK mode \<or> S_ISCHR mode \<longrightarrow> ns_capable cr init_user_ns CAP_MKNOD) \<and>
    devcgroup_inode_mknod (pe_group env) mode dev = None \<and> sec mode dev = None"
proof -
  have c: "current_cred s cur = Some cr" using run by (simp add: runs_as_def)
  obtain error d a where mc: "may_create env s cur dir dentry acls = Some (error, d, a)"
    using mk by (auto simp: vfs_mknod_def split: bind_splits)
  have "error = None" using mk by (auto simp: vfs_mknod_def mc c split: if_splits)
  with mc have "may_create env s cur dir dentry acls = Some (None, d, a)" by simp
  from may_create_grants [OF run acl ops this] show ?thesis
    using mk by (auto simp: vfs_mknod_def mc c split: if_splits option.splits)
qed

lemma may_delete_grants:
  assumes run: "runs_as s cur cr member" and acl: "acl_cached acls dir acl" and ops: "op_permission (pe_ops env) = None"
    and del: "may_delete env s cur dir victim isdir acls = Some (None, dir', acls')"
  shows "\<exists>inode. d_inode victim = Some inode \<and> (isdir \<longleftrightarrow> S_ISDIR (i_mode inode)) \<and>
    permission_verdict (pe_group env) (pe_security env) cr member dir acl (MAY_WRITE OR MAY_EXEC) = None \<and>
    \<not> IS_APPEND dir \<and> \<not> IS_APPEND inode \<and> \<not> IS_IMMUTABLE inode \<and> \<not> IS_DEADDIR dir \<and>
    (i_mode dir AND S_ISVTX \<noteq> 0 \<longrightarrow> ns_capable cr init_user_ns CAP_FOWNER \<or>
       user_ns (cr_user cr) = init_user_ns \<and> (fsuid cr = i_uid inode \<or> fsuid cr = i_uid dir))"
proof -
  have c: "current_cred s cur = Some cr" using run by (simp add: runs_as_def)
  obtain d where p: "permission_in env s cur dir (MAY_WRITE OR MAY_EXEC) acls =
      Some (permission_verdict (pe_group env) (pe_security env) cr member dir acl (MAY_WRITE OR MAY_EXEC), d, acls)"
    and d: "d = dir \<or> d = fast_inode dir"
    using inode_permission_verdict [OF run acl ops, of "pe_group env" "pe_security env" "MAY_WRITE OR MAY_EXEC"]
    by (auto simp: permission_in_def)
  have same: "IS_APPEND d = IS_APPEND dir" "IS_DEADDIR d = IS_DEADDIR dir" "i_mode d = i_mode dir" "i_uid d = i_uid dir"
    using d by (auto simp: IS_APPEND_def IS_DEADDIR_def fast_inode_def)
  obtain inode where i: "d_inode victim = Some inode" using del by (auto simp: may_delete_def split: option.splits)
  show ?thesis
    using del same by (auto simp: may_delete_def i p c check_sticky_def split: if_splits)
qed


definition plain_dir :: inode where
  "plain_dir = plain_file\<lparr>i_mode := 0x41ED, i_uid := 0\<rparr>"

definition child_env :: perm_env where
  "child_env = \<lparr>pe_ops = no_ops, pe_group = child_group, pe_security = \<lambda>_ _. None\<rparr>"

definition free_name :: dentry where
  "free_name = \<lparr>d_inode = None, d_in_dir = True, d_is_root = False, d_flags = 0\<rparr>"

lemma child_makes_node:
  "\<exists>dir'. vfs_mknod child_env (\<lambda>_ _. None) (Some (\<lambda>_ _. None)) (ks boot) 0 plain_dir free_name S_IFBLK 0x800 [] =
     Some (True, None, dir', [])"
proof -
  have c: "current_cred (ks boot) 0 = Some init_cred" by (simp add: boot_def current_cred_def task_at_def cred_at_def)
  have "ns_capable init_cred init_user_ns CAP_MKNOD" by code_simp
  moreover have "devcgroup_inode_mknod child_group S_IFBLK 0x800 = None"
    by (simp add: devcgroup_inode_mknod_def child_group_def root_rule_def DEV_ALL_def)
  moreover have "mode_check (drop_bit 6 0x41ED) (MAY_WRITE OR MAY_EXEC) = None" by code_simp
  then have "permission_in child_env (ks boot) 0 plain_dir (MAY_WRITE OR MAY_EXEC) [] = Some (None, fast_inode plain_dir, [])"
    by (simp add: permission_in_def child_env_def inode_permission_def do_inode_permission_def generic_permission_def acl_permission_check_def
      plain_dir_def plain_file_def plain_sb_def IS_RDONLY_def IS_IMMUTABLE_def MS_RDONLY_def MS_POSIXACL_def no_ops_def c init_cred_def
      INIT_USER_def devcgroup_inode_permission_def fast_inode_def Let_def)
  ultimately show ?thesis
    by (simp add: vfs_mknod_def may_create_def c free_name_def IS_DEADDIR_def) (simp add: plain_dir_def plain_file_def child_env_def)
qed


end
