(* ===== verification/Attr_Props.thy ===== *)
theory Attr_Props
  imports Attr Permission_Props
begin

text \<open>
  What \<open>chmod\<close>, \<open>chown\<close> and writes leave of the ids and the set-id bits of a file, on a file system without a
  \<open>setattr\<close> operation of its own; and a way around the removal of set-id bits.
\<close>

subsection \<open>Flags\<close>

lemma bit_flag32: "v AND 2 ^ k = 0 \<longleftrightarrow> \<not> bit v k" if "k < 32" for v :: u32
  using that and_exp_eq_0_iff_not_bit by blast

lemma bit_flag16: "v AND 2 ^ k = 0 \<longleftrightarrow> \<not> bit v k" if "k < 16" for v :: u16
  using that and_exp_eq_0_iff_not_bit by blast

lemma attr_flags:
  "v AND ATTR_MODE = 0 \<longleftrightarrow> \<not> bit v 0" "v AND ATTR_UID = 0 \<longleftrightarrow> \<not> bit v 1" "v AND ATTR_GID = 0 \<longleftrightarrow> \<not> bit v 2"
  "v AND ATTR_SIZE = 0 \<longleftrightarrow> \<not> bit v 3" "v AND ATTR_FORCE = 0 \<longleftrightarrow> \<not> bit v 9" "v AND ATTR_KILL_SUID = 0 \<longleftrightarrow> \<not> bit v 11"
  "v AND ATTR_KILL_SGID = 0 \<longleftrightarrow> \<not> bit v 12" "v AND ATTR_KILL_PRIV = 0 \<longleftrightarrow> \<not> bit v 14"
  using bit_flag32 [of 0 v] bit_flag32 [of 1 v] bit_flag32 [of 2 v] bit_flag32 [of 3 v] bit_flag32 [of 9 v] bit_flag32 [of 11 v]
    bit_flag32 [of 12 v] bit_flag32 [of 14 v]
  by (simp_all add: ATTR_MODE_def ATTR_UID_def ATTR_GID_def ATTR_SIZE_def ATTR_FORCE_def ATTR_KILL_SUID_def ATTR_KILL_SGID_def
    ATTR_KILL_PRIV_def)

lemma attr_bits:
  "bit ATTR_MODE n \<longleftrightarrow> n = 0" "bit ATTR_UID n \<longleftrightarrow> n = 1" "bit ATTR_GID n \<longleftrightarrow> n = 2" "bit ATTR_CTIME n \<longleftrightarrow> n = 6"
  "bit ATTR_FORCE n \<longleftrightarrow> n = 9" "bit ATTR_KILL_SUID n \<longleftrightarrow> n = 11" "bit ATTR_KILL_SGID n \<longleftrightarrow> n = 12" "bit ATTR_KILL_PRIV n \<longleftrightarrow> n = 14"
  "bit ATTR_TIMES_SET n \<longleftrightarrow> n = 16"
proof -
  have p: "bit (2 ^ k :: u32) n \<longleftrightarrow> n = k" if "k < 32" for k using that by (auto simp: bit_exp_iff)
  show "bit ATTR_MODE n \<longleftrightarrow> n = 0" "bit ATTR_UID n \<longleftrightarrow> n = 1" "bit ATTR_GID n \<longleftrightarrow> n = 2" "bit ATTR_CTIME n \<longleftrightarrow> n = 6"
    "bit ATTR_FORCE n \<longleftrightarrow> n = 9" "bit ATTR_KILL_SUID n \<longleftrightarrow> n = 11" "bit ATTR_KILL_SGID n \<longleftrightarrow> n = 12" "bit ATTR_KILL_PRIV n \<longleftrightarrow> n = 14"
    "bit ATTR_TIMES_SET n \<longleftrightarrow> n = 16"
    using p [of 0] p [of 1] p [of 2] p [of 6] p [of 9] p [of 11] p [of 12] p [of 14] p [of 16]
    by (simp_all add: ATTR_MODE_def ATTR_UID_def ATTR_GID_def ATTR_CTIME_def ATTR_FORCE_def ATTR_KILL_SUID_def ATTR_KILL_SGID_def
      ATTR_KILL_PRIV_def ATTR_TIMES_SET_def)
qed

lemma mode_flags:
  "m AND S_ISUID = 0 \<longleftrightarrow> \<not> bit m 11" "m AND S_ISGID = 0 \<longleftrightarrow> \<not> bit m 10" "m AND S_IXGRP = 0 \<longleftrightarrow> \<not> bit m 3"
  using bit_flag16 [of 11 m] bit_flag16 [of 10 m] bit_flag16 [of 3 m] by (simp_all add: S_ISUID_def S_ISGID_def S_IXGRP_def)

lemma mode_bits: "bit S_ISUID n \<longleftrightarrow> n = 11" "bit S_ISGID n \<longleftrightarrow> n = 10" "bit S_IXGRP n \<longleftrightarrow> n = 3"
proof -
  have p: "bit (2 ^ k :: u16) n \<longleftrightarrow> n = k" if "k < 16" for k using that by (auto simp: bit_exp_iff)
  show "bit S_ISUID n \<longleftrightarrow> n = 11" "bit S_ISGID n \<longleftrightarrow> n = 10" "bit S_IXGRP n \<longleftrightarrow> n = 3"
    using p [of 11] p [of 10] p [of 3] by (simp_all add: S_ISUID_def S_ISGID_def S_IXGRP_def)
qed

lemma is_sxid_bits: "is_sxid m \<longleftrightarrow> bit m 11 \<or> bit m 10 \<and> bit m 3"
  by (simp add: is_sxid_def mode_flags)

lemma both_sgid: "m AND (S_ISGID OR S_IXGRP) = S_ISGID OR S_IXGRP \<longleftrightarrow> bit m 10 \<and> bit m 3"
proof
  assume h: "m AND (S_ISGID OR S_IXGRP) = S_ISGID OR S_IXGRP"
  have "bit (m AND (S_ISGID OR S_IXGRP)) 10" "bit (m AND (S_ISGID OR S_IXGRP)) 3" unfolding h by (simp_all add: bit_or_iff mode_bits)
  then show "bit m 10 \<and> bit m 3" by (simp add: bit_and_iff)
next
  assume "bit m 10 \<and> bit m 3"
  then show "m AND (S_ISGID OR S_IXGRP) = S_ISGID OR S_IXGRP"
    by (intro bit_word_eqI) (auto simp: bit_and_iff bit_or_iff mode_bits)
qed

lemma drop_sgid: "\<not> is_sxid m \<Longrightarrow> \<not> is_sxid (m AND NOT S_ISGID)"
  by (auto simp: is_sxid_bits bit_and_iff)

subsection \<open>Checks and changes\<close>

definition same_file :: "inode \<Rightarrow> inode \<Rightarrow> bool" where
  "same_file inode inode' \<longleftrightarrow> i_mode inode' = i_mode inode \<and> i_uid inode' = i_uid inode \<and> i_gid inode' = i_gid inode"

definition may_change :: "cred \<Rightarrow> (u32 \<Rightarrow> bool) \<Rightarrow> inode \<Rightarrow> iattr \<Rightarrow> bool" where
  "may_change cr member inode attr \<longleftrightarrow>
     (bit (ia_valid attr) 1 \<longrightarrow> capable cr CAP_CHOWN \<or> fsuid cr = i_uid inode \<and> ia_uid attr = i_uid inode) \<and>
     (bit (ia_valid attr) 2 \<longrightarrow> capable cr CAP_CHOWN \<or> fsuid cr = i_uid inode \<and> (member (ia_gid attr) \<or> ia_gid attr = i_gid inode)) \<and>
     (bit (ia_valid attr) 0 \<longrightarrow> inode_owner_or_capable cr inode)"

definition sgid_kept :: "cred \<Rightarrow> (u32 \<Rightarrow> bool) \<Rightarrow> u32 \<Rightarrow> u16 \<Rightarrow> u16" where
  "sgid_kept cr member g mode = (if \<not> member g \<and> \<not> capable cr CAP_FSETID then mode AND NOT S_ISGID else mode)"

lemma sgid_kept_idem: "sgid_kept cr member g (sgid_kept cr member g mode) = sgid_kept cr member g mode"
  by (simp add: sgid_kept_def and.assoc)

lemma sgid_kept_sxid: "\<not> is_sxid mode \<Longrightarrow> \<not> is_sxid (sgid_kept cr member g mode)"
  by (simp add: sgid_kept_def drop_sgid)

definition new_gid :: "inode \<Rightarrow> iattr \<Rightarrow> u32" where
  "new_gid inode attr = (if bit (ia_valid attr) 2 then ia_gid attr else i_gid inode)"

lemma change_ok_result:
  assumes run: "runs_as s cur cr member" and ch: "change_ok s cur inode attr = Some (error, a)"
  shows "ia_valid a = ia_valid attr \<and> ia_uid a = ia_uid attr \<and> ia_gid a = ia_gid attr \<and>
    (error = None \<longrightarrow> may_change cr member inode attr \<and>
       (bit (ia_valid attr) 0 \<longrightarrow> ia_mode a = sgid_kept cr member (new_gid inode attr) (ia_mode attr)))"
proof -
  have c: "current_cred s cur = Some cr" "\<And>g. in_group_p s cur g = Some (member g)" using run by (simp_all add: runs_as_def)
  define v where "v = ia_valid attr"
  define a' where "a' = (if bit v 0 \<and> \<not> member (new_gid inode attr) \<and> \<not> capable cr CAP_FSETID
     then attr\<lparr>ia_mode := ia_mode attr AND NOT S_ISGID\<rparr> else attr)"
  define no_uid where "no_uid \<longleftrightarrow> bit v 1 \<and> (fsuid cr \<noteq> i_uid inode \<or> ia_uid attr \<noteq> i_uid inode) \<and> \<not> capable cr CAP_CHOWN"
  define no_gid where "no_gid \<longleftrightarrow> bit v 2 \<and> (fsuid cr \<noteq> i_uid inode \<or> \<not> member (ia_gid attr) \<and> ia_gid attr \<noteq> i_gid inode) \<and> \<not> capable cr CAP_CHOWN"
  define no_mode where "no_mode \<longleftrightarrow> bit v 0 \<and> \<not> inode_owner_or_capable cr inode"
  define no_time where "no_time \<longleftrightarrow> v AND (ATTR_MTIME_SET OR ATTR_ATIME_SET OR ATTR_TIMES_SET) \<noteq> 0 \<and> \<not> inode_owner_or_capable cr inode"
  have pick: "(if bit v 2 then member (ia_gid attr) else member (i_gid inode)) = member (new_gid inode attr)"
    by (simp add: new_gid_def v_def)
  have "change_ok s cur inode attr = Some (if no_uid then (Some EPERM, attr) else if no_gid then (Some EPERM, attr)
      else if no_mode then (Some EPERM, attr) else if no_time then (Some EPERM, a') else (None, a'))"
    unfolding change_ok_def no_uid_def no_gid_def no_mode_def no_time_def a'_def
    by (simp only: c bind.bind_lunit Let_def attr_flags v_def [symmetric] pick not_not bind_eq_Some_conv cong: if_cong)
  then have "ia_valid a = v \<and> ia_uid a = ia_uid attr \<and> ia_gid a = ia_gid attr \<and> (error = None \<longrightarrow> \<not> no_uid \<and> \<not> no_gid \<and> \<not> no_mode \<and> a = a')"
    using ch by (auto simp: a'_def v_def split: if_splits)
  then show ?thesis
    by (auto simp: may_change_def no_uid_def no_gid_def no_mode_def a'_def sgid_kept_def v_def)
qed

lemma setattr_copy_result:
  assumes run: "runs_as s cur cr member"
  shows "\<exists>inode'. setattr_copy tick s cur inode a = Some inode' \<and> i_flags inode' = i_flags inode \<and> i_sb inode' = i_sb inode \<and>
    i_uid inode' = (if bit (ia_valid a) 1 then ia_uid a else i_uid inode) \<and> i_gid inode' = new_gid inode a \<and>
    i_mode inode' = (if bit (ia_valid a) 0 then sgid_kept cr member (new_gid inode a) (ia_mode a) else i_mode inode)"
proof -
  have c: "current_cred s cur = Some cr" "\<And>g. in_group_p s cur g = Some (member g)" using run by (simp_all add: runs_as_def)
  define v where "v = ia_valid a"
  define gran where "gran = s_time_gran (i_sb inode)"
  define i1 where "i1 = (if bit v 1 then inode\<lparr>i_uid := ia_uid a\<rparr> else inode)"
  define i2 where "i2 = (if bit v 2 then i1\<lparr>i_gid := ia_gid a\<rparr> else i1)"
  define i3 where "i3 = (if v AND ATTR_ATIME \<noteq> 0 then i2\<lparr>i_atime := timespec_trunc tick (ia_atime a) gran\<rparr> else i2)"
  define i4 where "i4 = (if v AND ATTR_MTIME \<noteq> 0 then i3\<lparr>i_mtime := timespec_trunc tick (ia_mtime a) gran\<rparr> else i3)"
  define i5 where "i5 = (if v AND ATTR_CTIME \<noteq> 0 then i4\<lparr>i_ctime := timespec_trunc tick (ia_ctime a) gran\<rparr> else i4)"
  have e: "setattr_copy tick s cur inode a = Some (if bit v 0 then i5\<lparr>i_mode := sgid_kept cr member (i_gid i5) (ia_mode a)\<rparr> else i5)"
    unfolding setattr_copy_def sgid_kept_def i5_def i4_def i3_def i2_def i1_def gran_def
    by (simp only: c bind.bind_lunit Let_def attr_flags v_def [symmetric] not_not bind_eq_Some_conv cong: if_cong)
      (simp only: if_distrib [of Some] split: if_split) 
  have "i_gid i5 = new_gid inode a" "i_uid i5 = (if bit v 1 then ia_uid a else i_uid inode)" "i_mode i5 = i_mode inode"
    "i_flags i5 = i_flags inode" "i_sb i5 = i_sb inode"
    by (simp_all add: i5_def i4_def i3_def i2_def i1_def new_gid_def v_def)
  then show ?thesis unfolding e v_def [symmetric] by auto
qed

text \<open>What a file system without its own operation does with the attributes.\<close>

lemma simple_setattr_result:
  assumes run: "runs_as s cur cr member"
  shows "\<exists>r inode' attr'. simple_setattr env s cur inode attr = Some (r, inode', attr') \<and> i_flags inode' = i_flags inode \<and> i_sb inode' = i_sb inode \<and>
    (r \<noteq> None \<longrightarrow> same_file inode inode') \<and>
    (r = None \<longrightarrow> i_uid inode' = (if bit (ia_valid attr) 1 then ia_uid attr else i_uid inode) \<and> i_gid inode' = new_gid inode attr \<and>
      i_mode inode' = (if bit (ia_valid attr) 0 then sgid_kept cr member (new_gid inode attr) (ia_mode attr) else i_mode inode) \<and>
      (bit (ia_valid attr) 9 \<or> may_change cr member inode attr))"
proof -
  have c: "current_cred s cur = Some cr" "\<And>g. in_group_p s cur g = Some (member g)" using run by (simp_all add: runs_as_def)
  have "change_ok s cur inode attr \<noteq> None" by (simp add: change_ok_def c Let_def)
  then obtain e a where ch: "change_ok s cur inode attr = Some (e, a)" by auto
  obtain e0 sig where ns: "(if bit (ia_valid attr) 3 then inode_newsize_ok (ae_fsize_limit env) inode (ia_size attr) else (None, False)) = (e0, sig)"
    by fastforce
  have "inode_change_ok (ae_fsize_limit env) s cur inode attr =
      (if e0 \<noteq> None then Some (e0, sig, attr) else if bit (ia_valid attr) 9 then Some (None, sig, attr) else Some (e, sig, a))"
    by (simp add: inode_change_ok_def ch attr_flags ns)
  then obtain error b where ic: "inode_change_ok (ae_fsize_limit env) s cur inode attr = Some (error, sig, b)"
    and b: "error \<noteq> None \<or> (bit (ia_valid attr) 9 \<and> b = attr) \<or> (e = None \<and> b = a)"
    by (cases "e0 = None"; cases "bit (ia_valid attr) 9"; cases "e = None") auto
  show ?thesis
  proof (cases "error = None")
    case False
    then show ?thesis by (auto simp: simple_setattr_def ic same_file_def)
  next
    case True
    let ?i = "if ia_valid b AND ATTR_SIZE \<noteq> 0 then inode\<lparr>i_size := ia_size b\<rparr> else inode"
    have i: "i_flags ?i = i_flags inode" "i_sb ?i = i_sb inode" "i_uid ?i = i_uid inode" "i_mode ?i = i_mode inode" "new_gid ?i b = new_gid inode b"
      by (simp_all add: new_gid_def)
    obtain inode' where set: "setattr_copy (ae_tick_nsec env) s cur ?i b = Some inode'" and
      r: "i_flags inode' = i_flags inode" "i_sb inode' = i_sb inode" "i_uid inode' = (if bit (ia_valid b) 1 then ia_uid b else i_uid inode)"
      "i_gid inode' = new_gid inode b"
      "i_mode inode' = (if bit (ia_valid b) 0 then sgid_kept cr member (new_gid inode b) (ia_mode b) else i_mode inode)"
      using setattr_copy_result [OF run, of "ae_tick_nsec env" ?i b] unfolding i by blast
    have run: "simple_setattr env s cur inode attr = Some (None, inode', b)" using set by (simp add: simple_setattr_def ic True)
    consider "bit (ia_valid attr) 9" "b = attr" | "e = None" "b = a" using b True by blast
    then show ?thesis
    proof cases
      case 1
      then show ?thesis using run r by auto
    next
      case 2
      note ok = change_ok_result [OF assms ch]
      have "new_gid inode b = new_gid inode attr" using ok 2 by (simp add: new_gid_def)
      then show ?thesis using run r ok 2 by (auto simp: sgid_kept_idem)
    qed
  qed
qed

subsection \<open>Set-id bits\<close>

text \<open>The flags ask for the removal of the set-id bits that the mode has.\<close>

definition kills :: "u32 \<Rightarrow> u16 \<Rightarrow> bool" where
  "kills v m \<longleftrightarrow> (bit m 11 \<longrightarrow> bit v 11) \<and> (bit m 10 \<and> bit m 3 \<longrightarrow> bit v 12)"

lemma set_mode_bit: "bit (v OR ATTR_MODE) n \<longleftrightarrow> n = 0 \<or> bit v n"
  by (auto simp: bit_or_iff attr_bits)

lemma kill_suid_result:
  "n \<noteq> 0 \<Longrightarrow> bit (ia_valid (kill_suid inode attr)) n = bit (ia_valid attr) n"
  "bit (ia_valid (kill_suid inode attr)) 0 \<longleftrightarrow> bit (ia_valid attr) 0 \<or> bit (ia_valid attr) 11 \<and> bit (i_mode inode) 11"
  "ia_uid (kill_suid inode attr) = ia_uid attr" "ia_gid (kill_suid inode attr) = ia_gid attr"
  "ia_mode (kill_suid inode attr) =
     (if bit (ia_valid attr) 11 \<and> bit (i_mode inode) 11 then i_mode inode AND NOT S_ISUID else ia_mode attr)"
  "\<not> bit (ia_valid attr) 11 \<Longrightarrow> kill_suid inode attr = attr"
  by (auto simp: kill_suid_def attr_flags mode_flags set_mode_bit)

lemma kill_sgid_result:
  "n \<noteq> 0 \<Longrightarrow> bit (ia_valid (kill_sgid inode attr)) n = bit (ia_valid attr) n"
  "bit (ia_valid (kill_sgid inode attr)) 0 \<longleftrightarrow> bit (ia_valid attr) 0 \<or> bit (ia_valid attr) 12 \<and> bit (i_mode inode) 10 \<and> bit (i_mode inode) 3"
  "ia_uid (kill_sgid inode attr) = ia_uid attr" "ia_gid (kill_sgid inode attr) = ia_gid attr"
  "ia_mode (kill_sgid inode attr) =
     (if bit (ia_valid attr) 12 \<and> bit (i_mode inode) 10 \<and> bit (i_mode inode) 3
      then (if bit (ia_valid attr) 0 then ia_mode attr else i_mode inode) AND NOT S_ISGID else ia_mode attr)"
  "\<not> bit (ia_valid attr) 12 \<Longrightarrow> kill_sgid inode attr = attr"
  by (auto simp: kill_sgid_def attr_flags both_sgid set_mode_bit Let_def)

lemma kill_result:
  fixes inode :: inode
  assumes "\<not> ((bit (ia_valid attr) 11 \<or> bit (ia_valid attr) 12) \<and> bit (ia_valid attr) 0)"
  defines "a \<equiv> kill_sgid inode (kill_suid inode attr)"
  shows "(\<forall>n. n \<noteq> 0 \<longrightarrow> bit (ia_valid a) n = bit (ia_valid attr) n) \<and> (bit (ia_valid attr) 0 \<longrightarrow> bit (ia_valid a) 0) \<and>
    ia_uid a = ia_uid attr \<and> ia_gid a = ia_gid attr \<and>
    (\<not> bit (ia_valid attr) 11 \<and> \<not> bit (ia_valid attr) 12 \<longrightarrow> a = attr) \<and>
    (kills (ia_valid attr) (i_mode inode) \<and> \<not> bit (ia_valid attr) 0 \<longrightarrow>
       \<not> is_sxid (if bit (ia_valid a) 0 then ia_mode a else i_mode inode))"
proof (intro conjI impI)
  show "\<not> is_sxid (if bit (ia_valid a) 0 then ia_mode a else i_mode inode)"
    if "kills (ia_valid attr) (i_mode inode) \<and> \<not> bit (ia_valid attr) 0"
    using that unfolding a_def kills_def is_sxid_bits kill_sgid_result kill_suid_result
    by (cases "bit (i_mode inode) 11"; cases "bit (i_mode inode) 10"; cases "bit (i_mode inode) 3")
      (simp_all add: bit_and_iff bit_not_iff mode_bits kill_suid_result)
qed (auto simp: a_def kill_sgid_result kill_suid_result)

lemma fill_times_same [simp]:
  "ia_valid (fill_times now attr) = ia_valid attr" "ia_mode (fill_times now attr) = ia_mode attr"
  "ia_uid (fill_times now attr) = ia_uid attr" "ia_gid (fill_times now attr) = ia_gid attr"
  by (simp_all add: fill_times_def Let_def)

lemma immutable_flags:
  "v AND (ATTR_MODE OR ATTR_UID OR ATTR_GID OR ATTR_TIMES_SET) = 0 \<Longrightarrow> \<not> bit v 0 \<and> \<not> bit v 1 \<and> \<not> bit v 2"
proof -
  assume h: "v AND (ATTR_MODE OR ATTR_UID OR ATTR_GID OR ATTR_TIMES_SET) = 0"
  have "bit (v AND (ATTR_MODE OR ATTR_UID OR ATTR_GID OR ATTR_TIMES_SET)) n \<longleftrightarrow> bit v n" if "n \<le> 2" for n
    using that by (auto simp: bit_and_iff bit_or_iff attr_bits)
  then show ?thesis unfolding h by auto
qed

lemma kill_only:
  "v AND NOT (ATTR_KILL_SUID OR ATTR_KILL_SGID) = 0 \<Longrightarrow> n \<noteq> 11 \<Longrightarrow> n \<noteq> 12 \<Longrightarrow> \<not> bit v n"
proof
  assume h: "v AND NOT (ATTR_KILL_SUID OR ATTR_KILL_SGID) = 0" "n \<noteq> 11" "n \<noteq> 12" "bit v n"
  have "bit (v AND NOT (ATTR_KILL_SUID OR ATTR_KILL_SGID)) n"
    using h(2-4) bit_imp_le_length [of v n] by (simp add: bit_and_iff bit_or_iff bit_not_iff attr_bits)
  then show False unfolding h(1) by simp
qed

lemma kill_any: "v AND (ATTR_KILL_SUID OR ATTR_KILL_SGID) \<noteq> 0 \<Longrightarrow> bit v 11 \<or> bit v 12"
  by (metis attr_flags(6,7) bit.conj_disj_distrib or.left_neutral)

text \<open>What \<open>notify_change\<close> does to a file, and when.\<close>

definition changed :: "cred \<Rightarrow> (u32 \<Rightarrow> bool) \<Rightarrow> inode \<Rightarrow> iattr \<Rightarrow> inode \<Rightarrow> bool" where
  "changed cr member inode attr inode' \<longleftrightarrow>
     (bit (ia_valid attr) 0 \<or> bit (ia_valid attr) 1 \<or> bit (ia_valid attr) 2 \<longrightarrow> \<not> IS_IMMUTABLE inode \<and> \<not> IS_APPEND inode) \<and>
     i_uid inode' = (if bit (ia_valid attr) 1 then ia_uid attr else i_uid inode) \<and> i_gid inode' = new_gid inode attr \<and>
     (bit (ia_valid attr) 0 \<longrightarrow> i_mode inode' = sgid_kept cr member (new_gid inode attr) (ia_mode attr)) \<and>
     (\<not> bit (ia_valid attr) 0 \<and> kills (ia_valid attr) (i_mode inode) \<longrightarrow> \<not> is_sxid (i_mode inode')) \<and>
     (bit (ia_valid attr) 9 \<or> may_change cr member inode attr)"

text \<open>The attributes that reach the file system, after the request to drop bits became a mode.\<close>

lemma stripped_attr:
  assumes flags: "\<not> ((bit (ia_valid attr) 11 \<or> bit (ia_valid attr) 12) \<and> bit (ia_valid attr) 0)"
    and v0: "\<And>n. n \<noteq> 14 \<Longrightarrow> bit (ia_valid a0) n = bit (ia_valid attr) n"
    and same: "ia_uid a0 = ia_uid attr" "ia_gid a0 = ia_gid attr" "ia_mode a0 = ia_mode attr"
    and a: "a = kill_sgid i1 (kill_suid i1 a0)"
  shows "ia_uid a = ia_uid attr" "ia_gid a = ia_gid attr"
    "\<And>n. n \<noteq> 14 \<Longrightarrow> n \<noteq> 0 \<Longrightarrow> bit (ia_valid a) n = bit (ia_valid attr) n"
    "bit (ia_valid attr) 0 \<longrightarrow> bit (ia_valid a) 0 \<and> ia_mode a = ia_mode attr"
    "\<not> bit (ia_valid attr) 0 \<and> kills (ia_valid attr) (i_mode i1) \<longrightarrow> \<not> is_sxid (if bit (ia_valid a) 0 then ia_mode a else i_mode i1)"
proof -
  have flags0: "\<not> ((bit (ia_valid a0) 11 \<or> bit (ia_valid a0) 12) \<and> bit (ia_valid a0) 0)" using flags v0 by simp
  note kill = kill_result [OF flags0, of i1, folded a]
  show "ia_uid a = ia_uid attr" "ia_gid a = ia_gid attr" using kill same by simp_all
  show "\<And>n. n \<noteq> 14 \<Longrightarrow> n \<noteq> 0 \<Longrightarrow> bit (ia_valid a) n = bit (ia_valid attr) n" using v0 kill by blast
  show "bit (ia_valid attr) 0 \<longrightarrow> bit (ia_valid a) 0 \<and> ia_mode a = ia_mode attr"
  proof
    assume b: "bit (ia_valid attr) 0"
    then have "\<not> bit (ia_valid a0) 11 \<and> \<not> bit (ia_valid a0) 12" using flags v0 [of 11] v0 [of 12] by simp
    then have "a = a0" using kill by blast
    then show "bit (ia_valid a) 0 \<and> ia_mode a = ia_mode attr" using b v0 [of 0] same by simp
  qed
  show "\<not> bit (ia_valid attr) 0 \<and> kills (ia_valid attr) (i_mode i1) \<longrightarrow> \<not> is_sxid (if bit (ia_valid a) 0 then ia_mode a else i_mode i1)"
    using kill v0 [of 11] v0 [of 12] v0 [of 0] unfolding kills_def by simp
qed

text \<open>Past the test of the immutable flags, \<open>notify_change\<close> hands the stripped attributes to the file system or stops.\<close>

lemma notify_change_cases:
  assumes env: "ae_setattr env = None"
    and flags: "\<not> ((bit (ia_valid attr) 11 \<or> bit (ia_valid attr) 12) \<and> bit (ia_valid attr) 0)"
    and imm: "\<not> (ia_valid attr AND (ATTR_MODE OR ATTR_UID OR ATTR_GID OR ATTR_TIMES_SET) \<noteq> 0 \<and> (IS_IMMUTABLE inode \<or> IS_APPEND inode))"
  obtains i1 a0 a error where "i_sb i1 = i_sb inode" "same_file inode i1" "i_flags i1 = i_flags inode \<or> i_flags i1 = i_flags inode AND NOT S_NOSEC"
    "\<And>n. n \<noteq> 14 \<Longrightarrow> bit (ia_valid a0) n = bit (ia_valid attr) n"
    "ia_uid a0 = ia_uid attr" "ia_gid a0 = ia_gid attr" "ia_mode a0 = ia_mode attr" "a = kill_sgid i1 (kill_suid i1 a0)"
    "notify_change env s cur inode attr =
      (if error \<noteq> None then Some (error, i1)
       else if ia_valid a AND NOT (ATTR_KILL_SUID OR ATTR_KILL_SGID) = 0 then Some (None, i1)
       else if ae_security_setattr env i1 a \<noteq> None then Some (ae_security_setattr env i1 a, i1)
       else map_option (\<lambda>(e, inode, attr). (e, inode)) (simple_setattr env s cur i1 a))"
proof -
  define i1 where "i1 = (if ia_valid attr AND ATTR_MODE \<noteq> 0 \<and> is_sxid (ia_mode attr) then inode\<lparr>i_flags := i_flags inode AND NOT S_NOSEC\<rparr> else inode)"
  define a0 where "a0 = (fill_times (current_fs_time env (i_sb i1)) attr)
     \<lparr>ia_valid := ia_valid attr AND NOT ATTR_KILL_PRIV\<rparr>"
  define error where "error = (if ia_valid attr AND ATTR_KILL_PRIV \<noteq> 0
     then case ae_need_killpriv env i1 of Inl e \<Rightarrow> Some e | Inr b \<Rightarrow> if b then ae_killpriv env i1 else None else None)"
  define a where "a = kill_sgid i1 (kill_suid i1 a0)"
  have v0: "bit (ia_valid a0) n = bit (ia_valid attr) n" if "n \<noteq> 14" for n
    using that bit_imp_le_length [of "ia_valid attr" n] by (auto simp: a0_def bit_and_iff bit_not_iff attr_bits)
  have "\<not> ((bit (ia_valid a0) 11 \<or> bit (ia_valid a0) 12) \<and> bit (ia_valid a0) 0)" using flags v0 by simp
  then have nb: "\<not> (ia_valid a0 AND (ATTR_KILL_SUID OR ATTR_KILL_SGID) \<noteq> 0 \<and> ia_valid a0 AND ATTR_MODE \<noteq> 0)"
    using kill_any by (auto simp: attr_flags)
  have eq: "notify_change env s cur inode attr =
      (if error \<noteq> None then Some (error, i1)
       else if ia_valid a AND NOT (ATTR_KILL_SUID OR ATTR_KILL_SGID) = 0 then Some (None, i1)
       else if ae_security_setattr env i1 a \<noteq> None then Some (ae_security_setattr env i1 a, i1)
       else map_option (\<lambda>(e, inode, attr). (e, inode)) (simple_setattr env s cur i1 a))"
    unfolding notify_change_def Let_def i1_def [symmetric] fill_times_same error_def [symmetric] a0_def [symmetric] a_def [symmetric]
    by (simp only: imm nb if_False env option.case)
  have "same_file inode i1" "i_sb i1 = i_sb inode" "i_flags i1 = i_flags inode \<or> i_flags i1 = i_flags inode AND NOT S_NOSEC"
    by (simp_all add: i1_def same_file_def)
  moreover have "ia_uid a0 = ia_uid attr" "ia_gid a0 = ia_gid attr" "ia_mode a0 = ia_mode attr" by (simp_all add: a0_def)
  ultimately show ?thesis using that [OF _ _ _ v0 _ _ _ a_def eq] by blast
qed

lemma notify_change_result:
  assumes run: "runs_as s cur cr member" and env: "ae_setattr env = None"
    and flags: "\<not> ((bit (ia_valid attr) 11 \<or> bit (ia_valid attr) 12) \<and> bit (ia_valid attr) 0)"
  shows "\<exists>r inode'. notify_change env s cur inode attr = Some (r, inode') \<and> i_sb inode' = i_sb inode \<and>
    (i_flags inode' = i_flags inode \<or> i_flags inode' = i_flags inode AND NOT S_NOSEC) \<and>
    (r \<noteq> None \<longrightarrow> same_file inode inode') \<and> (r = None \<longrightarrow> changed cr member inode attr inode')"
proof (cases "ia_valid attr AND (ATTR_MODE OR ATTR_UID OR ATTR_GID OR ATTR_TIMES_SET) \<noteq> 0 \<and> (IS_IMMUTABLE inode \<or> IS_APPEND inode)")
  case True
  then show ?thesis by (simp add: notify_change_def same_file_def)
next
  case False
  then have imm: "bit (ia_valid attr) 0 \<or> bit (ia_valid attr) 1 \<or> bit (ia_valid attr) 2 \<longrightarrow> \<not> IS_IMMUTABLE inode \<and> \<not> IS_APPEND inode"
    using immutable_flags by blast
  show ?thesis
  proof (rule notify_change_cases [OF env flags False, of s cur])
    fix i1 a0 a error
    assume sb: "i_sb i1 = i_sb inode" and same: "same_file inode i1"
    and fl: "i_flags i1 = i_flags inode \<or> i_flags i1 = i_flags inode AND NOT S_NOSEC"
    and a0: "\<And>n. n \<noteq> 14 \<Longrightarrow> bit (ia_valid a0) n = bit (ia_valid attr) n"
    "ia_uid a0 = ia_uid attr" "ia_gid a0 = ia_gid attr" "ia_mode a0 = ia_mode attr" "a = kill_sgid i1 (kill_suid i1 a0)"
    and eq: "notify_change env s cur inode attr =
      (if error \<noteq> None then Some (error, i1)
       else if ia_valid a AND NOT (ATTR_KILL_SUID OR ATTR_KILL_SGID) = 0 then Some (None, i1)
       else if ae_security_setattr env i1 a \<noteq> None then Some (ae_security_setattr env i1 a, i1)
       else map_option (\<lambda>(e, inode, attr). (e, inode)) (simple_setattr env s cur i1 a))"
    note st = stripped_attr [OF flags a0]
    have i1: "i_mode i1 = i_mode inode" "i_uid i1 = i_uid inode" "i_gid i1 = i_gid inode" using same by (simp_all add: same_file_def)
    have gid: "new_gid i1 a = new_gid inode attr" using st(1,2) st(3) [of 2] i1 by (simp add: new_gid_def)
    have "inode_owner_or_capable cr i1 = inode_owner_or_capable cr inode" by (simp add: inode_owner_or_capable_def i1)
    then have mc: "may_change cr member i1 a \<Longrightarrow> may_change cr member inode attr"
      using st(1,2) st(3) [of 1] st(3) [of 2] st(4) i1 by (auto simp: may_change_def)
    obtain r i2 a2 where set: "simple_setattr env s cur i1 a = Some (r, i2, a2)" and
      i2: "i_flags i2 = i_flags i1" "i_sb i2 = i_sb i1" "r \<noteq> None \<longrightarrow> same_file i1 i2"
      "r = None \<longrightarrow> i_uid i2 = (if bit (ia_valid a) 1 then ia_uid a else i_uid i1) \<and> i_gid i2 = new_gid i1 a \<and>
        i_mode i2 = (if bit (ia_valid a) 0 then sgid_kept cr member (new_gid i1 a) (ia_mode a) else i_mode i1) \<and>
        (bit (ia_valid a) 9 \<or> may_change cr member i1 a)"
      using simple_setattr_result [OF run, of env i1 a] by blast
    have done1: "changed cr member inode attr i1" if "ia_valid a AND NOT (ATTR_KILL_SUID OR ATTR_KILL_SGID) = 0"
      using kill_only [OF that, of 0] kill_only [OF that, of 1] kill_only [OF that, of 2] st(3) [of 1] st(3) [of 2] st(4,5) i1 imm
      by (simp add: changed_def new_gid_def may_change_def)
    have done2: "changed cr member inode attr i2" if "r = None"
    proof -
      have e: "i_uid i2 = (if bit (ia_valid attr) 1 then ia_uid attr else i_uid inode)" "i_gid i2 = new_gid inode attr"
        "i_mode i2 = (if bit (ia_valid a) 0 then sgid_kept cr member (new_gid inode attr) (ia_mode a) else i_mode inode)"
        "bit (ia_valid attr) 9 \<or> may_change cr member inode attr"
        using i2(4) that st(1) st(3) [of 1] st(3) [of 9] gid i1 mc by auto
      have "\<not> is_sxid (i_mode i2)" if "\<not> bit (ia_valid attr) 0 \<and> kills (ia_valid attr) (i_mode inode)"
        using st(5) that e(3) i1(1) sgid_kept_sxid by (auto split: if_splits)
      then show ?thesis using e st(4) imm by (simp add: changed_def)
    qed
    show ?thesis unfolding eq set using sb fl same i2 done1 done2 by (auto simp: same_file_def)
  qed
qed

subsection \<open>The system calls\<close>

lemma chmod_result:
  assumes run: "runs_as s cur cr member" and env: "ae_setattr env = None"
  shows "\<exists>r inode'. chmod_common env security want junk s cur inode mode = Some (r, inode') \<and> (r \<noteq> None \<longrightarrow> same_file inode inode') \<and>
    (r = None \<longrightarrow> inode_owner_or_capable cr inode \<and> \<not> IS_IMMUTABLE inode \<and> \<not> IS_APPEND inode \<and>
      i_uid inode' = i_uid inode \<and> i_gid inode' = i_gid inode \<and>
      i_mode inode' = sgid_kept cr member (i_gid inode) ((mode AND S_IALLUGO) OR (i_mode inode AND NOT S_IALLUGO)))"
proof -
  define a where "a = junk\<lparr>ia_mode := (mode AND S_IALLUGO) OR (i_mode inode AND NOT S_IALLUGO), ia_valid := ATTR_MODE OR ATTR_CTIME\<rparr>"
  have b: "bit (ia_valid a) n \<longleftrightarrow> n = 0 \<or> n = 6" for n by (simp add: a_def bit_or_iff attr_bits)
  obtain r inode' where n: "notify_change env s cur inode a = Some (r, inode')" "r \<noteq> None \<longrightarrow> same_file inode inode'"
    "r = None \<longrightarrow> changed cr member inode a inode'"
    using notify_change_result [OF run env, of a inode] b by auto
  have "changed cr member inode a inode' \<Longrightarrow> inode_owner_or_capable cr inode \<and> \<not> IS_IMMUTABLE inode \<and> \<not> IS_APPEND inode \<and>
      i_uid inode' = i_uid inode \<and> i_gid inode' = i_gid inode \<and> i_mode inode' = sgid_kept cr member (i_gid inode) (ia_mode a)"
    by (simp add: changed_def may_change_def new_gid_def b)
  then show ?thesis using n by (auto simp: chmod_common_def same_file_def a_def)
qed

lemma chown_attrs_bits:
  "bit (ia_valid (chown_attrs junk inode user grp)) n \<longleftrightarrow>
     n = 6 \<or> n = 1 \<and> user \<noteq> - 1 \<or> n = 2 \<and> grp \<noteq> - 1 \<or> (n = 11 \<or> n = 12 \<or> n = 14) \<and> \<not> S_ISDIR (i_mode inode)"
  "user \<noteq> - 1 \<Longrightarrow> ia_uid (chown_attrs junk inode user grp) = user" "grp \<noteq> - 1 \<Longrightarrow> ia_gid (chown_attrs junk inode user grp) = grp"
  by (auto simp: chown_attrs_def Let_def bit_or_iff attr_bits)

lemma chown_result:
  assumes run: "runs_as s cur cr member" and env: "ae_setattr env = None"
  shows "\<exists>r inode'. chown_common env security junk s cur inode user grp = Some (r, inode') \<and> (r \<noteq> None \<longrightarrow> same_file inode inode') \<and>
    (r = None \<longrightarrow> i_uid inode' = (if user = - 1 then i_uid inode else user) \<and> i_gid inode' = (if grp = - 1 then i_gid inode else grp) \<and>
      (i_uid inode' \<noteq> i_uid inode \<longrightarrow> capable cr CAP_CHOWN) \<and>
      (i_gid inode' \<noteq> i_gid inode \<longrightarrow> capable cr CAP_CHOWN \<or> fsuid cr = i_uid inode \<and> member (i_gid inode')) \<and>
      (user \<noteq> - 1 \<or> grp \<noteq> - 1 \<longrightarrow> \<not> IS_IMMUTABLE inode \<and> \<not> IS_APPEND inode) \<and>
      (\<not> S_ISDIR (i_mode inode) \<longrightarrow> \<not> is_sxid (i_mode inode')))"
proof -
  define a where "a = chown_attrs junk inode user grp"
  note b = chown_attrs_bits [where junk = junk and inode = inode and user = user and grp = grp, folded a_def]
  obtain r inode' where n: "notify_change env s cur inode a = Some (r, inode')" "r \<noteq> None \<longrightarrow> same_file inode inode'"
    "r = None \<longrightarrow> changed cr member inode a inode'"
    using notify_change_result [OF run env, of a inode] by (auto simp: b(1))
  have "changed cr member inode a inode' \<Longrightarrow> i_uid inode' = (if user = - 1 then i_uid inode else user) \<and>
      i_gid inode' = (if grp = - 1 then i_gid inode else grp) \<and> (i_uid inode' \<noteq> i_uid inode \<longrightarrow> capable cr CAP_CHOWN) \<and>
      (i_gid inode' \<noteq> i_gid inode \<longrightarrow> capable cr CAP_CHOWN \<or> fsuid cr = i_uid inode \<and> member (i_gid inode')) \<and>
      (user \<noteq> - 1 \<or> grp \<noteq> - 1 \<longrightarrow> \<not> IS_IMMUTABLE inode \<and> \<not> IS_APPEND inode) \<and> (\<not> S_ISDIR (i_mode inode) \<longrightarrow> \<not> is_sxid (i_mode inode'))"
    by (auto simp: changed_def may_change_def new_gid_def kills_def b split: if_splits)
  then show ?thesis using n by (auto simp: chown_common_def a_def same_file_def)
qed

lemma should_remove_kills:
  assumes "\<not> capable cr CAP_FSETID" "S_ISREG (i_mode inode)"
  shows "kills (should_remove_suid cr inode) (i_mode inode)" "should_remove_suid cr inode = 0 \<Longrightarrow> \<not> is_sxid (i_mode inode)"
    "bit (should_remove_suid cr inode) n \<Longrightarrow> n = 11 \<or> n = 12"
proof -
  have nz: "ATTR_KILL_SUID \<noteq> 0" "ATTR_KILL_SGID \<noteq> 0" "ATTR_KILL_SUID OR ATTR_KILL_SGID \<noteq> 0"
    by (simp_all add: ATTR_KILL_SUID_def ATTR_KILL_SGID_def)
  show "kills (should_remove_suid cr inode) (i_mode inode)" "should_remove_suid cr inode = 0 \<Longrightarrow> \<not> is_sxid (i_mode inode)"
    "bit (should_remove_suid cr inode) n \<Longrightarrow> n = 11 \<or> n = 12"
    using assms nz by (auto simp: should_remove_suid_def Let_def mode_flags kills_def is_sxid_bits bit_or_iff attr_bits split: if_splits)
qed

lemma remove_suid_result:
  assumes run: "runs_as s cur cr member" and env: "ae_setattr env = None" and priv: "\<not> capable cr CAP_FSETID" "S_ISREG (i_mode inode)"
    and sec: "\<not> IS_NOSEC inode"
  shows "\<exists>r inode'. file_remove_suid env junk s cur inode = Some (r, inode') \<and> (r = None \<longrightarrow> \<not> is_sxid (i_mode inode')) \<and>
    i_uid inode' = i_uid inode \<and> i_gid inode' = i_gid inode"
proof -
  define kill where "kill = should_remove_suid cr inode"
  note k = should_remove_kills [OF priv, folded kill_def]
  define a where "a = junk\<lparr>ia_valid := ATTR_FORCE OR kill\<rparr>"
  have b: "bit (ia_valid a) n \<longleftrightarrow> n = 9 \<or> bit kill n" for n by (simp add: a_def bit_or_iff attr_bits)
  have b0: "\<not> bit kill 0" "\<not> bit kill 1" "\<not> bit kill 2" using k(3) by fastforce+
  obtain r inode' where n: "notify_change env s cur inode a = Some (r, inode')" "r \<noteq> None \<longrightarrow> same_file inode inode'"
    "r = None \<longrightarrow> changed cr member inode a inode'"
    using notify_change_result [OF run env, of a inode] b b0 by auto
  have "changed cr member inode a inode' \<Longrightarrow> \<not> is_sxid (i_mode inode') \<and> i_uid inode' = i_uid inode \<and> i_gid inode' = i_gid inode"
    using k(1) b0 by (auto simp: changed_def new_gid_def kills_def b)
  then have r: "(r = None \<longrightarrow> \<not> is_sxid (i_mode inode')) \<and> i_uid inode' = i_uid inode \<and> i_gid inode' = i_gid inode"
    using n(2,3) by (auto simp: same_file_def)
  have c: "current_cred s cur = Some cr" using run by (simp add: runs_as_def)
  show ?thesis
    using r n(1) k(2) by (auto simp: file_remove_suid_def sec c kill_def [symmetric] a_def [symmetric] Let_def split: sum.splits)
qed


lemma truncate_result:
  assumes run: "runs_as s cur cr member" and env: "ae_setattr env = None" and priv: "\<not> capable cr CAP_FSETID" "S_ISREG (i_mode inode)"
    and times: "\<forall>n\<in>{0, 1, 2, 11, 12}. \<not> bit time_attrs n"
  shows "\<exists>r inode'. do_truncate env junk has_file s cur inode len time_attrs = Some (r, inode') \<and> (r = None \<longrightarrow> \<not> is_sxid (i_mode inode')) \<and>
    i_uid inode' = i_uid inode \<and> i_gid inode' = i_gid inode"
proof (cases "len < 0")
  case False
  define kill where "kill = should_remove_suid cr inode"
  note k = should_remove_kills [OF priv, folded kill_def]
  define valid where "valid = ATTR_SIZE OR time_attrs OR (if has_file then ATTR_FILE else 0)"
  define a where "a = junk\<lparr>ia_size := len, ia_valid := if kill \<noteq> 0 then valid OR kill OR ATTR_FORCE else valid\<rparr>"
  have size: "bit ATTR_SIZE n \<longleftrightarrow> n = 3" "bit ATTR_FILE n \<longleftrightarrow> n = 13" for n
    using bit_exp_iff [where 'a = u32, of 3 n] bit_exp_iff [where 'a = u32, of 13 n]
    by (auto simp: ATTR_SIZE_def ATTR_FILE_def)
  have v: "\<not> bit valid n" if "n \<in> {0, 1, 2, 11, 12}" for n
    using that times by (auto simp: valid_def bit_or_iff size)
  have b0: "\<not> bit kill 0" "\<not> bit kill 1" "\<not> bit kill 2" using k(3) by fastforce+
  have b: "bit (ia_valid a) n \<longleftrightarrow> bit kill n" if "n \<in> {0, 1, 2, 11, 12}" for n
    using that v [OF that] by (auto simp: a_def bit_or_iff attr_bits)
  obtain r inode' where n: "notify_change env s cur inode a = Some (r, inode')" "r \<noteq> None \<longrightarrow> same_file inode inode'"
    "r = None \<longrightarrow> changed cr member inode a inode'"
    using notify_change_result [OF run env, of a inode] b [of 0] b0 by auto
  have "changed cr member inode a inode' \<Longrightarrow> \<not> is_sxid (i_mode inode') \<and> i_uid inode' = i_uid inode \<and> i_gid inode' = i_gid inode"
    using k(1) b0 by (auto simp: changed_def new_gid_def kills_def b)
  moreover have "do_truncate env junk has_file s cur inode len time_attrs = notify_change env s cur inode a"
    using run False by (simp add: do_truncate_def runs_as_def Let_def a_def valid_def kill_def)
  ultimately show ?thesis using n by (auto simp: same_file_def)
qed (use run in \<open>simp add: do_truncate_def\<close>)


definition plain_attr :: iattr where
  "plain_attr = \<lparr>ia_valid = 0, ia_mode = 0, ia_uid = 0, ia_gid = 0, ia_size = 0, ia_atime = epoch, ia_mtime = epoch, ia_ctime = epoch\<rparr>"

definition plain_env :: attr_env where
  "plain_env = \<lparr>ae_tick_nsec = 10000000, ae_kernel_time = epoch, ae_fsize_limit = RLIM_INFINITY, ae_need_killpriv = (\<lambda>_. Inr False),
     ae_killpriv = (\<lambda>_. None), ae_security_setattr = (\<lambda>_ _. None), ae_setattr = None\<rparr>"



text \<open>A set-user-id program of root.\<close>

definition suid_file :: inode where
  "suid_file = plain_file\<lparr>i_mode := 0x89FF, i_uid := 0, i_sb := plain_sb\<lparr>s_flags := MS_NOSEC\<rparr>\<rparr>"


text \<open>C40. A write by a task with \<open>CAP_FSETID\<close> to a set-user-id file of a file system that caches the absence of
  security data keeps the bit, as it should, but marks the inode as having nothing to remove. Any later write, by whatever task,
  then keeps the bit too.\<close>

theorem privileged_write_disables_removal:
  assumes "current_cred s cur = Some cr" "capable cr CAP_FSETID" "\<not> IS_NOSEC inode" "s_flags (i_sb inode) AND MS_NOSEC \<noteq> 0"
    "ae_need_killpriv env inode = Inr False"
  shows "\<exists>inode'. file_remove_suid env junk s cur inode = Some (None, inode') \<and> i_mode inode' = i_mode inode \<and>
    (\<forall>s' cur' junk'. file_remove_suid env junk' s' cur' inode' = Some (None, inode'))"
proof -
  define inode' where "inode' = inode\<lparr>i_flags := i_flags inode OR S_NOSEC\<rparr>"
  have "(i_flags inode OR S_NOSEC) AND S_NOSEC = S_NOSEC" by (simp add: and.commute)
  then have sec: "IS_NOSEC inode'" by (simp add: IS_NOSEC_def inode'_def) (simp add: S_NOSEC_def)
  have "should_remove_suid cr inode = 0" using assms(2) by (simp add: should_remove_suid_def)
  then have "file_remove_suid env junk s cur inode = Some (None, inode')"
    using assms by (simp add: file_remove_suid_def inode'_def)
  then show ?thesis using sec by (simp add: file_remove_suid_def inode'_def)
qed

theorem privileged_write_disables_removal_witness:
  "\<exists>inode'. file_remove_suid plain_env plain_attr (ks boot) 0 suid_file = Some (None, inode') \<and> is_sxid (i_mode inode') \<and>
     file_remove_suid plain_env plain_attr user_state 0 inode' = Some (None, inode')"
proof -
  have "current_cred (ks boot) 0 = Some init_cred" by (simp add: boot_def current_cred_def task_at_def cred_at_def)
  moreover have "capable init_cred CAP_FSETID" "\<not> IS_NOSEC suid_file" "s_flags (i_sb suid_file) AND MS_NOSEC \<noteq> 0"
    "is_sxid (i_mode suid_file)" by code_simp+
  moreover have "ae_need_killpriv plain_env suid_file = Inr False" by (simp add: plain_env_def)
  ultimately show ?thesis
    using privileged_write_disables_removal [of "ks boot" 0 init_cred suid_file plain_env plain_attr] by metis
qed

end
