(* ===== verification/Spec2Isabelle.thy ===== *)
theory Spec2Isabelle
  imports Kernel_Prelude Reciprocal_Div Sk_Buff Skb_Trim Bpf_Filter Bpf_Safety Sock_Filter Semaphore Rwsem Resource_Tree Resource_Props Resource_Regions System_Ram Supp_Groups Cred Cred_Protocol Capability Set_Ids Posix_Acl Acl_Mode Acl_Xattr Kstrtox Number_Format Number_Text Dev_Cgroup Dev_Cgroup_Props Attr_Props
begin

text \<open>
  Verification of parts of the Linux 3.2.7 kernel, as configured for a 32-bit little-endian ARM target.

  \<^bold>\<open>Parts and how they interact.\<close>  Three groups of components are modelled.

  (1) The path of a packet through a socket filter.  A task attaches a program to a socket; the checker
  (\<open>net/core/filter.c\<close>, \<open>sk_chk_filter\<close>) accepts or refuses it; every packet that arrives is run through the
  interpreter (\<open>sk_run_filter\<close>), which reads the packet through \<open>skb_copy_bits\<close> and
  \<open>skb_header_pointer\<close> (\<open>net/core/skbuff.c\<close>) and divides by a precomputed reciprocal (\<open>lib/reciprocal_div.c\<close>);
  the packet is then cut to the length the program returned (\<open>pskb_trim\<close>).

  (2) Shared kernel objects: counting semaphores (\<open>kernel/semaphore.c\<close>), read/write semaphores
  (\<open>lib/rwsem-spinlock.c\<close>) and the tree of I/O and memory ranges (\<open>kernel/resource.c\<close>).

  (3) Who a task is and what it may do: supplementary groups (\<open>kernel/groups.c\<close>), credentials
  (\<open>kernel/cred.c\<close>), capabilities (\<open>security/commoncap.c\<close>, \<open>kernel/capability.c\<close>) and the system calls that
  change ids (\<open>kernel/sys.c\<close>).

  \<^bold>\<open>Theories.\<close>

  \<^item> \<open>Kernel_Prelude\<close>: the integer types, \<open>errno\<close>, memory faults, slices of memory, lemmas on words and lists,
  and the locale \<open>invariant_of\<close> of transition systems with an invariant.
  \<^item> \<open>Reciprocal_Div\<close>: \<open>reciprocal_value\<close> and \<open>reciprocal_divide\<close>; the operands for which they compute the
  quotient and those for which they do not.
  \<^item> \<open>Sk_Buff\<close>, \<open>Skb_Trim\<close>: the linear part, the fragments and the list of further buffers of a packet;
  reading and cutting it agrees with the list of its bytes.
  \<^item> \<open>Bpf_Filter\<close>, \<open>Bpf_Safety\<close>: every instruction of the interpreter and every test of the checker; what the
  checker accepts is run safely and returns.  The interpreter reads its packet through the locale
  \<open>byte_source\<close>, interpreted on \<open>skb_copy_bits\<close> as \<open>skb\<close>.
  \<^item> \<open>Sock_Filter\<close>: attach, detach, share and release of filters with their reference counts and option memory;
  \<open>sk_filter\<close> composes checker, interpreter and trim.
  \<^item> \<open>Semaphore\<close>, \<open>Rwsem\<close>: the operations between two sleeps as steps of a transition system; conservation of
  units, exclusion and order of service in every reachable state.
  \<^item> \<open>Resource_Tree\<close>, \<open>Resource_Props\<close>, \<open>Resource_Regions\<close>, \<open>System_Ram\<close>: the operations on the tree, its
  well-formedness and what each operation promises, the locale \<open>range_pool\<close> of request and release, and the walk
  over System RAM.
  \<^item> \<open>Supp_Groups\<close>: the two-level array of group ids, its Shell sort and binary search, refined to a list.
  \<^item> \<open>Cred\<close>, \<open>Cred_Protocol\<close>: credentials as counted objects in a store; the protocol of prepare, commit, abort,
  override, revert, fork and exit as a transition system.
  \<^item> \<open>Capability\<close>: capability sets, \<open>capset\<close>, \<open>prctl\<close>, the fix-up after a change of ids, file capabilities and exec.
  \<^item> \<open>Set_Ids\<close>: the set-id calls, \<open>capset\<close>, \<open>setgroups\<close> and \<open>getgroups\<close> as whole system calls over the store
  of credentials, and the membership tests \<open>in_group_p\<close> and \<open>in_egroup_p\<close>.

  \<^bold>\<open>Correspondence.\<close>  Definitions carry the names of the C functions, structures and constants; a leading
  \<open>__\<close> and names that HOL reserves are changed.  A return value \<open>0\<close> or \<open>-E\<close> is \<open>errno option\<close> (\<open>None\<close> is
  success) or \<open>errno + 'a\<close>.  C integers are words of their width wherever wrap-around can be observed.  A read
  outside an object is a value of type \<open>fault\<close>, and \<open>None\<close> of an \<open>option\<close> result stands for a \<open>BUG_ON\<close>, an
  access to a freed object or a call that never returns; the theorems show where these do not occur.  Objects with
  addresses (credentials, filters, sockets) live in stores indexed by address.

  \<^bold>\<open>Parameters.\<close>  Allocators, user memory, signals, the remaining time of a sleep, the alignment callback of a
  resource and the file system below an inode are arguments of the definitions that call them.  Shifts by 32 or
  more, undefined in C, are an argument of the interpreter.

  \<^bold>\<open>Loops.\<close>  Loops with a bound in the data are recursive functions.  Those that may not end on all inputs
  (\<open>reserve_region_with_split\<close>, \<open>insert_resource_expand_to_fit\<close>, the System RAM walk, the sort and search of the
  groups) are \<open>partial_function (option)\<close>: not returning is \<open>None\<close>.  That they return is proved where it holds, and
  \<open>Resource_Regions\<close> proves the case in which one does not.  No fuel is used.

  \<^bold>\<open>Locales.\<close>  \<open>invariant_of\<close> is interpreted for filters (\<open>sock\<close>), semaphores (\<open>sem\<close>), read/write semaphores
  (\<open>rw\<close>), credentials (\<open>cred\<close>) and capabilities (\<open>caps\<close>); \<open>byte_source\<close> for packets (\<open>skb\<close>); \<open>range_pool\<close>
  for busy regions (\<open>regions\<close>).

  \<^bold>\<open>Not modelled.\<close>  Concurrency inside a spinlock-protected section and RCU grace periods: an object is gone
  when its count reaches zero.  Keyrings, security modules other than the capability module, audit, \<open>/proc\<close> files.
  The memory manager, the scheduler, file systems, the network protocols, the block layer, cryptography, sound, the
  device drivers and the code under \<open>arch\<close>: their behaviour is that of hardware, assembly or of data structures
  shared with the rest of the kernel, and none of the modelled components depends on more of them than the
  parameters above.
\<close>

end
